(* ===== verification/Prelude.thy ===== *)
theory Prelude
  imports Complex_Main "HOL-Library.Word" "HOL-Library.Char_ord" "HOL-Library.List_Lexorder"
begin

text \<open>
  Shared vocabulary of the development: Go strings as byte lists, the parts of the packages
  \<^verbatim>\<open>strings\<close> and \<^verbatim>\<open>strconv\<close> that the program calls, and generic list lemmas.

  A Go string is a sequence of bytes; it is an Isabelle \<^typ>\<open>string\<close> here, each character
  standing for one byte. White space is the ASCII white space of
  \<^verbatim>\<open>unicode.IsSpace\<close>: the two non-ASCII code points U+0085 and U+00A0 that Go also trims
  are two-byte sequences in UTF-8 and are not treated as space.
\<close>

named_theorems sentinel_defs "definitions of the sentinel errors"
named_theorems go_string "unfolding rules for the string helpers"

type_synonym tool_use_id = string

section \<open>Strings\<close>

definition has_prefix :: "'a list \<Rightarrow> 'a list \<Rightarrow> bool" where
  "has_prefix s p = (take (length p) s = p)"

definition has_suffix :: "'a list \<Rightarrow> 'a list \<Rightarrow> bool" where
  "has_suffix s p = (length p \<le> length s \<and> drop (length s - length p) s = p)"

fun contains_sub :: "'a list \<Rightarrow> 'a list \<Rightarrow> bool" where
  "contains_sub [] p = (p = [])"
| "contains_sub (c # s) p = (has_prefix (c # s) p \<or> contains_sub s p)"

definition contains_any :: "'a list \<Rightarrow> 'a list \<Rightarrow> bool" where
  "contains_any s cs = list_ex (\<lambda>c. c \<in> set cs) s"

fun split_on :: "'a \<Rightarrow> 'a list \<Rightarrow> 'a list list" where
  "split_on c [] = [[]]"
| "split_on c (x # xs) =
     (if x = c then [] # split_on c xs
      else (case split_on c xs of [] \<Rightarrow> [[x]] | w # ws \<Rightarrow> (x # w) # ws))"

fun join_with :: "'a list \<Rightarrow> 'a list list \<Rightarrow> 'a list" where
  "join_with sep [] = []"
| "join_with sep [w] = w"
| "join_with sep (w # v # ws) = w @ sep @ join_with sep (v # ws)"

definition is_space :: "char \<Rightarrow> bool" where
  "is_space c = (c \<in> set [CHR '' '', CHR 0x09, CHR 0x0A, CHR 0x0B, CHR 0x0C, CHR 0x0D])"

definition trim_left_by :: "('a \<Rightarrow> bool) \<Rightarrow> 'a list \<Rightarrow> 'a list" where
  "trim_left_by p s = dropWhile p s"

definition trim_right_by :: "('a \<Rightarrow> bool) \<Rightarrow> 'a list \<Rightarrow> 'a list" where
  "trim_right_by p s = rev (dropWhile p (rev s))"

definition trim_by :: "('a \<Rightarrow> bool) \<Rightarrow> 'a list \<Rightarrow> 'a list" where
  "trim_by p s = trim_right_by p (trim_left_by p s)"

definition trim_space :: "string \<Rightarrow> string" where
  "trim_space s = trim_by is_space s"

fun fields_by :: "('a \<Rightarrow> bool) \<Rightarrow> 'a list \<Rightarrow> 'a list \<Rightarrow> 'a list list" where
  "fields_by p [] acc = (if acc = [] then [] else [rev acc])"
| "fields_by p (x # xs) acc =
     (if p x then (if acc = [] then fields_by p xs [] else rev acc # fields_by p xs [])
      else fields_by p xs (x # acc))"

definition fields_func :: "('a \<Rightarrow> bool) \<Rightarrow> 'a list \<Rightarrow> 'a list list" where
  "fields_func p s = fields_by p s []"

definition to_lower_char :: "char \<Rightarrow> char" where
  "to_lower_char c =
     (if (of_char c :: nat) \<in> {65..90} then char_of ((of_char c :: nat) + 32) else c)"

definition to_lower :: "string \<Rightarrow> string" where
  "to_lower s = map to_lower_char s"

fun digit_char :: "nat \<Rightarrow> char" where
  "digit_char d = char_of (48 + d)"

fun itoa :: "nat \<Rightarrow> string" where
  "itoa n = (if n < 10 then [digit_char n] else itoa (n div 10) @ [digit_char (n mod 10)])"

declare itoa.simps [simp del]

subsection \<open>Lemmas\<close>

lemma has_prefix_append [simp]: "has_prefix (p @ s) p"
  by (simp add: has_prefix_def)

lemma has_prefix_iff: "has_prefix s p \<longleftrightarrow> (\<exists>t. s = p @ t)"
  by (metis append_take_drop_id has_prefix_append has_prefix_def)

lemma has_prefix_Nil [simp]: "has_prefix s []"
  by (simp add: has_prefix_def)

lemma has_prefix_length: "has_prefix s p \<Longrightarrow> length p \<le> length s"
  by (auto simp: has_prefix_iff)

lemma has_prefix_same_length:
  "has_prefix s p \<Longrightarrow> has_prefix s q \<Longrightarrow> length p = length q \<Longrightarrow> p = q"
  by (auto simp: has_prefix_def)

lemma has_suffix_iff: "has_suffix s p \<longleftrightarrow> (\<exists>t. s = t @ p)"
proof
  assume "has_suffix s p"
  then have "s = take (length s - length p) s @ p"
    by (metis append_take_drop_id has_suffix_def)
  then show "\<exists>t. s = t @ p" by blast
qed (auto simp: has_suffix_def)

lemma split_on_nonempty [simp]: "split_on c s \<noteq> []"
  by (induction s) (auto split: list.splits)

lemma join_split [simp]: "join_with [c] (split_on c s) = s"
proof (induction s)
  case (Cons x s)
  show ?case
  proof (cases "split_on c s")
    case (Cons w ws)
    with Cons.IH show ?thesis by (cases ws) auto
  qed simp
qed simp

lemma split_on_no_sep: "w \<in> set (split_on c s) \<Longrightarrow> c \<notin> set w"
proof (induction s arbitrary: w)
  case (Cons x s)
  then show ?case by (auto split: if_splits list.splits)
qed simp

lemma split_on_subset: "w \<in> set (split_on c s) \<Longrightarrow> set w \<subseteq> set s"
proof (induction s arbitrary: w)
  case (Cons x s)
  then have "\<forall>v\<in>set (split_on c s). set v \<subseteq> set s" by blast
  with Cons.prems show ?case by (cases "split_on c s") (auto split: if_splits)
qed simp

lemma split_on_free [simp]: "c \<notin> set w \<Longrightarrow> split_on c w = [w]"
  by (induction w) auto

lemma split_on_append [simp]:
  "c \<notin> set w \<Longrightarrow> split_on c (w @ c # s) = w # split_on c s"
  by (induction w) auto

lemma split_on_append_sep:
  "split_on c (xs @ c # ys) = split_on c xs @ split_on c ys"
  by (induction xs) (auto split: list.splits)

lemma join_with_Cons: "ws \<noteq> [] \<Longrightarrow> join_with sep (w # ws) = w @ sep @ join_with sep ws"
  by (cases ws) auto

lemma split_join:
  assumes "ws \<noteq> []" and "\<And>w. w \<in> set ws \<Longrightarrow> c \<notin> set w"
  shows "split_on c (join_with [c] ws) = ws"
  using assms by (induction ws rule: induct_list012) (simp_all add: join_with_Cons)

lemma split_lines: "(\<And>l. l \<in> set ls \<Longrightarrow> c \<notin> set l) \<Longrightarrow>
    split_on c (concat (map (\<lambda>l. l @ [c]) ls) @ b) = ls @ split_on c b"
  by (induction ls) auto

lemma contains_any_Nil [simp]: "contains_any [] cs = False"
  by (simp add: contains_any_def)

lemma contains_any_iff: "contains_any s cs \<longleftrightarrow> set s \<inter> set cs \<noteq> {}"
  by (auto simp: contains_any_def list_ex_iff)

lemma trim_by_id:
  assumes "s \<noteq> []" and "\<not> p (hd s)" and "\<not> p (last s)"
  shows "trim_by p s = s"
proof -
  have "dropWhile p s = s" using assms(1,2) by (cases s) simp_all
  moreover have "dropWhile p (rev s) = rev s" using assms(1,3) by (cases s rule: rev_cases) simp_all
  ultimately show ?thesis by (simp add: trim_by_def trim_left_by_def trim_right_by_def)
qed

lemma trim_left_subset: "set (trim_left_by p s) \<subseteq> set s"
  unfolding trim_left_by_def by (meson set_dropWhileD subsetI)

lemma trim_right_subset: "set (trim_right_by p s) \<subseteq> set s"
  unfolding trim_right_by_def by (metis set_dropWhileD set_rev subsetI)

lemma trim_by_subset: "set (trim_by p s) \<subseteq> set s"
  unfolding trim_by_def by (rule subset_trans[OF trim_right_subset trim_left_subset])

lemma trim_right_length: "length (trim_right_by p s) \<le> length s"
  unfolding trim_right_by_def by (metis length_dropWhile_le length_rev)

lemma fields_by_words:
  "\<forall>x\<in>set acc. \<not> p x \<Longrightarrow>
   \<forall>w\<in>set (fields_by p s acc). w \<noteq> [] \<and> (\<forall>x\<in>set w. \<not> p x) \<and> set w \<subseteq> set s \<union> set acc"
proof (induction s arbitrary: acc)
  case (Cons x s)
  show ?case
  proof (cases "p x")
    case True
    have "\<forall>w\<in>set (fields_by p s []). w \<noteq> [] \<and> (\<forall>x\<in>set w. \<not> p x) \<and> set w \<subseteq> set s"
      using Cons.IH[of "[]"] by simp
    with True Cons.prems show ?thesis by auto
  next
    case False
    with Cons.prems have "\<forall>x\<in>set (x # acc). \<not> p x" by simp
    from Cons.IH[OF this] False show ?thesis by auto
  qed
qed simp

lemma fields_func_words:
  "w \<in> set (fields_func p s) \<Longrightarrow> w \<noteq> [] \<and> (\<forall>x\<in>set w. \<not> p x) \<and> set w \<subseteq> set s"
  unfolding fields_func_def using fields_by_words[of "[]" p s] by auto

lemma itoa_nonempty [simp]: "itoa n \<noteq> []"
  by (subst itoa.simps) simp

definition digits_value :: "string \<Rightarrow> nat" where
  "digits_value s = foldl (\<lambda>n c. n * 10 + (of_char c - 48)) 0 s"

lemma digits_value_itoa: "digits_value (itoa n) = n"
proof (induction n rule: less_induct)
  case (less n)
  have "foldl (\<lambda>n c. n * 10 + (of_char c - 48)) k [digit_char d] = k * 10 + d" if "d < 10" for k d
    using that by simp
  then show ?case using less.IH[of "n div 10"]
    by (cases "n < 10") (subst itoa.simps, simp add: digits_value_def)+
qed

lemma itoa_inject: "itoa m = itoa n \<longleftrightarrow> m = n"
  by (metis digits_value_itoa)

lemma int_div_less_iff:
  fixes m q n :: int
  assumes "0 < q"
  shows "m div q < n \<longleftrightarrow> m < n * q"
proof
  assume "m div q < n"
  then have "(m div q + 1) * q \<le> n * q" using assms by (intro mult_right_mono) auto
  moreover have "m < (m div q + 1) * q"
    unfolding distrib_right mult_1
    using pos_mod_bound[OF assms, of m] div_mult_mod_eq[of m q] by linarith
  ultimately show "m < n * q" by simp
next
  assume less: "m < n * q"
  show "m div q < n"
  proof (rule ccontr)
    assume "\<not> m div q < n"
    then have "n * q \<le> m div q * q" using assms by (intro mult_right_mono) auto
    moreover have "m div q * q \<le> m"
      using assms pos_mod_sign[of q m] div_mult_mod_eq[of m q] by linarith
    ultimately show False using less by simp
  qed
qed

lemma int_succ_mod:
  fixes a t :: int
  assumes "0 < t"
  shows "(a + 1) mod t = (if a mod t + 1 = t then 0 else a mod t + 1)"
proof -
  have "(a + 1) mod t = (a mod t + 1) mod t" by (simp add: mod_add_left_eq)
  moreover have "0 \<le> a mod t" "a mod t < t" using assms by simp_all
  ultimately show ?thesis by (auto simp: mod_pos_pos_trivial)
qed

lemma map_filter_map: "List.map_filter f xs = map the (filter (\<lambda>x. x \<noteq> None) (map f xs))"
  by (induction xs) (auto simp: List.map_filter_simps split: option.splits)

end
