(* ===== verification/Paths.thy ===== *)
theory Paths
  imports Prelude
begin

text \<open>
  The part of \<^verbatim>\<open>path/filepath\<close> (Unix) that the permission rules and the file tools decide on:
  \<^verbatim>\<open>Clean\<close>, \<^verbatim>\<open>Join\<close>, \<^verbatim>\<open>Abs\<close>, \<^verbatim>\<open>Dir\<close>, \<^verbatim>\<open>Base\<close>, and the containment test of
  \<^verbatim>\<open>permission/rules.go\<close>. Everything is textual: no file system is consulted, as in the source.
  \<open>elems\<close> reads a cleaned rooted path as its list of names; containment is then list prefix.
\<close>

section \<open>Definitions\<close>

definition is_abs :: "string \<Rightarrow> bool" where
  "is_abs p = has_prefix p ''/''"

text \<open>One element of a path against the names kept so far, last name first.\<close>

definition clean_elem :: "bool \<Rightarrow> string list \<Rightarrow> string \<Rightarrow> string list" where
  "clean_elem rooted kept e =
     (if e = [] \<or> e = ''.'' then kept
      else if e = ''..'' then
        (case kept of
           [] \<Rightarrow> if rooted then [] else [''..'']
         | k # ks \<Rightarrow> if k = ''..'' then ''..'' # kept else ks)
      else e # kept)"

definition clean_elems :: "string \<Rightarrow> string list" where
  "clean_elems p = rev (foldl (clean_elem (is_abs p)) [] (split_on CHR ''/'' p))"

definition clean_path :: "string \<Rightarrow> string" where
  "clean_path p =
     (let es = clean_elems p in
      if is_abs p then CHR ''/'' # join_with ''/'' es
      else if es = [] then ''.'' else join_with ''/'' es)"

definition join_path :: "string list \<Rightarrow> string" where
  "join_path ps =
     (let qs = filter (\<lambda>p. p \<noteq> []) ps in if qs = [] then [] else clean_path (join_with ''/'' qs))"

text \<open>\<open>cwd\<close> is the working directory of the process.\<close>

definition abs_path :: "string \<Rightarrow> string \<Rightarrow> string" where
  "abs_path cwd p = (if is_abs p then clean_path p else join_path [cwd, p])"

definition resolve_path :: "string \<Rightarrow> string \<Rightarrow> string" where
  "resolve_path base p = (if \<not> is_abs p then join_path [base, p] else clean_path p)"

definition path_contains :: "string \<Rightarrow> string \<Rightarrow> bool" where
  "path_contains base clean = (clean = base \<or> has_prefix clean (base @ ''/''))"

definition path_dir :: "string \<Rightarrow> string" where
  "path_dir p = clean_path (rev (dropWhile (\<lambda>c. c \<noteq> CHR ''/'') (rev p)))"

definition path_base :: "string \<Rightarrow> string" where
  "path_base p =
     (if p = [] then ''.''
      else (let s = rev (dropWhile (\<lambda>c. c = CHR ''/'') (rev p)) in
        if s = [] then ''/'' else rev (takeWhile (\<lambda>c. c \<noteq> CHR ''/'') (rev s))))"

section \<open>Names of a cleaned path\<close>

text \<open>A name: not empty, no separator, and neither dot.\<close>

definition plain_name :: "string \<Rightarrow> bool" where
  "plain_name e \<longleftrightarrow> e \<noteq> [] \<and> CHR ''/'' \<notin> set e \<and> e \<noteq> ''.'' \<and> e \<noteq> ''..''"

definition rooted_path :: "string list \<Rightarrow> string" where
  "rooted_path es = CHR ''/'' # join_with ''/'' es"

lemma clean_elem_plain:
  "CHR ''/'' \<notin> set e \<Longrightarrow> list_all plain_name kept \<Longrightarrow> list_all plain_name (clean_elem True kept e)"
  by (auto simp: clean_elem_def plain_name_def split: list.splits)

lemma clean_fold_plain:
  "\<forall>e\<in>set es. CHR ''/'' \<notin> set e \<Longrightarrow> list_all plain_name kept \<Longrightarrow>
   list_all plain_name (foldl (clean_elem True) kept es)"
  by (induction es arbitrary: kept) (auto simp: clean_elem_plain)

lemma clean_elems_plain: "is_abs p \<Longrightarrow> list_all plain_name (clean_elems p)"
  using clean_fold_plain[of "split_on CHR ''/'' p" "[]"] split_on_no_sep[of _ "CHR ''/''" p]
  by (auto simp: clean_elems_def list_all_iff)

lemma clean_path_rooted: "is_abs p \<Longrightarrow> clean_path p = rooted_path (clean_elems p)"
  by (simp add: clean_path_def rooted_path_def)

text \<open>Plain names survive the split and the cleaning: a cleaned rooted path is a fixed point.\<close>

lemma split_rooted:
  "list_all plain_name es \<Longrightarrow>
   split_on CHR ''/'' (rooted_path es) = [] # (if es = [] then [[]] else es)"
  by (auto simp: rooted_path_def list_all_iff plain_name_def split_join)

lemma clean_fold_id:
  "list_all plain_name es \<Longrightarrow> foldl (clean_elem True) kept es = rev es @ kept"
  by (induction es arbitrary: kept) (auto simp: clean_elem_def plain_name_def)

lemma is_abs_rooted [simp]: "is_abs (rooted_path es)"
  by (simp add: is_abs_def has_prefix_def rooted_path_def)

lemma clean_elems_rooted: "list_all plain_name es \<Longrightarrow> clean_elems (rooted_path es) = es"
  by (auto simp: clean_elems_def split_rooted clean_fold_id clean_elem_def[of _ _ "[]"])

lemma rooted_inj:
  "list_all plain_name es \<Longrightarrow> list_all plain_name fs \<Longrightarrow> rooted_path es = rooted_path fs \<Longrightarrow> es = fs"
  by (metis clean_elems_rooted)

lemma clean_path_idem: "is_abs p \<Longrightarrow> clean_path (clean_path p) = clean_path p"
  by (simp add: clean_path_rooted clean_elems_rooted clean_elems_plain)

lemma join_with_append:
  "xs \<noteq> [] \<Longrightarrow> ys \<noteq> [] \<Longrightarrow> join_with sep (xs @ ys) = join_with sep xs @ sep @ join_with sep ys"
  by (induction xs rule: induct_list012) (simp_all add: join_with_Cons)

text \<open>Containment of one cleaned path in another, below the root directory, is prefix of names.\<close>

lemma path_contains_names:
  assumes "list_all plain_name rs" and "list_all plain_name ps" and "rs \<noteq> []"
  shows "path_contains (rooted_path rs) (rooted_path ps) \<longleftrightarrow> (\<exists>qs. ps = rs @ qs)"
proof
  assume c: "path_contains (rooted_path rs) (rooted_path ps)"
  show "\<exists>qs. ps = rs @ qs"
  proof (cases "rooted_path ps = rooted_path rs")
    case True
    then have "ps = rs" using rooted_inj[OF assms(2,1)] by simp
    then show ?thesis by simp
  next
    case False
    with c obtain t where t: "rooted_path ps = rooted_path rs @ CHR ''/'' # t"
      by (auto simp: path_contains_def has_prefix_iff)
    then have "split_on CHR ''/'' (rooted_path ps) = split_on CHR ''/'' (rooted_path rs) @ split_on CHR ''/'' t"
      by (simp add: split_on_append_sep)
    then have "(if ps = [] then [[]] else ps) = rs @ split_on CHR ''/'' t"
      using assms by (simp add: split_rooted)
    then show ?thesis using assms(1,3) by (cases rs) (auto simp: plain_name_def split: if_splits)
  qed
next
  assume "\<exists>qs. ps = rs @ qs"
  then obtain qs where qs: "ps = rs @ qs" by blast
  show "path_contains (rooted_path rs) (rooted_path ps)"
  proof (cases "qs = []")
    case True
    with qs show ?thesis by (simp add: path_contains_def)
  next
    case False
    have "rooted_path ps = (rooted_path rs @ ''/'') @ join_with ''/'' qs"
      using join_with_append[OF assms(3) False, of "''/''"] qs by (simp add: rooted_path_def)
    then show ?thesis unfolding path_contains_def by (metis has_prefix_append)
  qed
qed

text \<open>At the root directory itself the textual test admits nothing but the root.\<close>

lemma path_contains_root:
  assumes "list_all plain_name ps"
  shows "path_contains ''/'' (rooted_path ps) \<longleftrightarrow> ps = []"
proof -
  have "\<not> has_prefix (rooted_path ps) ''//''" if "ps \<noteq> []"
    using assms that by (cases ps; cases "hd ps"; cases "tl ps")
      (auto simp: rooted_path_def has_prefix_def plain_name_def)
  moreover have "rooted_path ps = ''/'' \<longleftrightarrow> ps = []"
    using rooted_inj[OF assms, of "[]"] by (auto simp: rooted_path_def)
  ultimately show ?thesis by (auto simp: path_contains_def rooted_path_def has_prefix_def)
qed

text \<open>The directory and the last name of a cleaned rooted path.\<close>

lemma rooted_snoc: "rooted_path (ps @ [n]) = (if ps = [] then CHR ''/'' # n else rooted_path ps @ CHR ''/'' # n)"
  by (simp add: rooted_path_def join_with_append)

lemma clean_rooted_slash: "list_all plain_name ps \<Longrightarrow> clean_path (rooted_path ps @ ''/'') = rooted_path ps"
proof -
  assume ps: "list_all plain_name ps"
  have abs: "is_abs (rooted_path ps @ ''/'')" by (simp add: is_abs_def has_prefix_def rooted_path_def)
  have "clean_elems (rooted_path ps @ ''/'') = ps"
    using ps abs by (auto simp: clean_elems_def split_on_append_sep split_rooted clean_fold_id clean_elem_def[of _ _ "[]"])
  then show ?thesis using abs by (simp add: clean_path_rooted)
qed

lemma up_to_slash:
  "CHR ''/'' \<notin> set n \<Longrightarrow> dropWhile (\<lambda>c. c \<noteq> CHR ''/'') (n @ CHR ''/'' # m) = CHR ''/'' # m"
  "CHR ''/'' \<notin> set n \<Longrightarrow> takeWhile (\<lambda>c. c \<noteq> CHR ''/'') (n @ CHR ''/'' # m) = n"
  by (induction n) auto

lemma dir_rooted: "list_all plain_name (ps @ [n]) \<Longrightarrow> path_dir (rooted_path (ps @ [n])) = rooted_path ps"
proof -
  assume a: "list_all plain_name (ps @ [n])"
  then have n: "CHR ''/'' \<notin> set n" by (simp add: plain_name_def)
  then have up: "rev (dropWhile (\<lambda>c. c \<noteq> CHR ''/'') (rev (d @ CHR ''/'' # n))) = d @ ''/''" for d
    using up_to_slash(1)[of "rev n" "rev d"] by simp
  show ?thesis
  proof (cases "ps = []")
    case True
    then show ?thesis using up[of "[]"] clean_rooted_slash[of "[]"]
      by (simp add: path_dir_def rooted_snoc rooted_path_def clean_path_def is_abs_def has_prefix_def clean_elems_def clean_elem_def)
  next
    case False
    then show ?thesis using up[of "rooted_path ps"] clean_rooted_slash[of ps] a by (simp add: path_dir_def rooted_snoc)
  qed
qed

lemma base_rooted: "plain_name n \<Longrightarrow> path_base (rooted_path (ps @ [n])) = n"
proof -
  assume n: "plain_name n"
  then obtain m c where r: "n = m @ [c]" "c \<noteq> CHR ''/''" "CHR ''/'' \<notin> set (rev n)"
    by (cases n rule: rev_cases) (auto simp: plain_name_def)
  have "path_base (d @ CHR ''/'' # n) = n" for d
  proof -
    have "rev (dropWhile (\<lambda>c. c = CHR ''/'') (rev (d @ CHR ''/'' # n))) = d @ CHR ''/'' # n"
      using r(1,2) by simp
    moreover have "rev (takeWhile (\<lambda>c. c \<noteq> CHR ''/'') (rev (d @ CHR ''/'' # n))) = n"
      using up_to_slash(2)[OF r(3), of "rev d"] by simp
    ultimately show ?thesis by (simp add: path_base_def Let_def)
  qed
  from this[of "[]"] this[of "rooted_path ps"] show ?thesis by (simp add: rooted_snoc)
qed

lemma rooted_ends_slash: "list_all plain_name ps \<Longrightarrow> has_suffix (rooted_path ps) ''/'' \<longleftrightarrow> ps = []"
proof (cases ps rule: rev_cases)
  case (snoc qs n)
  assume "list_all plain_name ps"
  with snoc have n: "n \<noteq> []" "CHR ''/'' \<notin> set n" by (auto simp: plain_name_def)
  then have "last n \<noteq> CHR ''/''" by (metis last_in_set)
  then have "last (rooted_path ps) \<noteq> CHR ''/''" using n by (simp add: snoc rooted_snoc)
  then show ?thesis using snoc by (auto simp: has_suffix_iff)
qed (auto simp: rooted_path_def has_suffix_def)

text \<open>A cleaned path is rooted only if the path was.\<close>

lemma clean_elem_names: "x \<in> set (clean_elem b kept e) \<Longrightarrow> x \<in> set kept \<or> x = e \<and> e \<noteq> [] \<or> x = ''..''"
  by (cases kept) (auto simp: clean_elem_def split: if_splits)

lemma clean_abs: "is_abs (clean_path p) \<Longrightarrow> is_abs p"
proof (rule ccontr)
  assume abs: "is_abs (clean_path p)" and rel: "\<not> is_abs p"
  define fine where "fine = (\<lambda>e. CHR ''/'' \<notin> set e \<and> e \<noteq> [])"
  have dots: "fine ''..''" by (simp add: fine_def)
  have "\<forall>e\<in>set (foldl (clean_elem False) kept es). fine e"
    if "\<forall>e\<in>set kept. fine e" "\<forall>e\<in>set es. CHR ''/'' \<notin> set e" for es kept
    using that
  proof (induction es arbitrary: kept)
    case (Cons e es)
    have e: "e \<noteq> [] \<Longrightarrow> fine e" using Cons.prems(2) by (simp add: fine_def)
    have "\<forall>x\<in>set (clean_elem False kept e). fine x"
      by (intro ballI) (metis clean_elem_names Cons.prems(1) e dots)
    then show ?case using Cons.IH Cons.prems(2) by simp
  qed simp
  note kept = this
  have "\<forall>e\<in>set (split_on CHR ''/'' p). CHR ''/'' \<notin> set e" by (intro ballI) (rule split_on_no_sep)
  from kept[of "[]", OF _ this] have "\<forall>e\<in>set (foldl (clean_elem False) [] (split_on CHR ''/'' p)). fine e" by simp
  then have names: "\<forall>e\<in>set (clean_elems p). CHR ''/'' \<notin> set e \<and> e \<noteq> []"
    using rel unfolding clean_elems_def fine_def by simp
  have shape: "clean_path p = (if clean_elems p = [] then ''.'' else join_with ''/'' (clean_elems p))"
    using rel by (simp add: clean_path_def Let_def)
  have first: "hd (join_with ''/'' (e # es)) = hd e \<and> join_with ''/'' (e # es) \<noteq> []" if "e \<noteq> []" for e es
    using that by (cases es) auto
  have piece: "hd e \<noteq> CHR ''/'' \<and> e \<noteq> []" if "CHR ''/'' \<notin> set e \<and> e \<noteq> []" for e :: string
    using that by (cases e) auto
  have "clean_path p \<noteq> [] \<and> hd (clean_path p) \<noteq> CHR ''/''"
  proof (cases "clean_elems p")
    case (Cons e es)
    then have "e \<noteq> [] \<and> hd e \<noteq> CHR ''/''" using names piece by (metis list.set_intros(1))
    then show ?thesis using shape first[of e es] Cons by simp
  qed (simp add: shape)
  then show False using abs by (cases "clean_path p") (auto simp: is_abs_def has_prefix_def)
qed

end
