(* ===== verification/Errors.thy ===== *)
theory Errors
  imports Prelude
begin

text \<open>
  Go error values and \<^verbatim>\<open>errors.Is\<close> / \<^verbatim>\<open>errors.As\<close> over them, the failure classes of
  \<^verbatim>\<open>llm/errors.go\<close> and the caller-fault marking of \<^verbatim>\<open>tool/fault.go\<close>.

  An error is a tree: a sentinel made by \<^verbatim>\<open>errors.New\<close> (identified by its text, which is
  distinct for every package-level sentinel of the program), a \<^verbatim>\<open>fmt.Errorf\<close> value with the
  operands of its \<^verbatim>\<open>%w\<close> verbs, and one constructor per error type the program declares.
  \<open>ApiErr\<close> has the fields of \<^verbatim>\<open>llm.APIError\<close> in order: class, status, message,
  retry-after (nanoseconds) and cause. \<open>StatusErr\<close> is \<^verbatim>\<open>httpStatusError\<close> of the built-in tools;
  \<open>ExitErr\<close> and \<open>UrlErr\<close> are the library's \<^verbatim>\<open>exec.ExitError\<close> and \<^verbatim>\<open>url.Error\<close>.
\<close>

datatype err =
    Sentinel string
  | Wrapf string "err list"
  | ApiErr err int string int "err option"
  | CallerErr err
  | RefusalErr string
  | UnexpectedStopErr string
  | EmptyTurnErr int string int int
  | PanicErr string string string
  | StatusErr int string
  | ExitErr int
  | UrlErr err

section \<open>Sentinels\<close>

definition ErrRateLimit :: err where [sentinel_defs]: "ErrRateLimit = Sentinel ''llm: rate limited''"
definition ErrOverloaded :: err where [sentinel_defs]: "ErrOverloaded = Sentinel ''llm: overloaded''"
definition ErrServer :: err where [sentinel_defs]: "ErrServer = Sentinel ''llm: server error''"
definition ErrTransport :: err where [sentinel_defs]: "ErrTransport = Sentinel ''llm: transport failure''"
definition ErrBadRequest :: err where [sentinel_defs]: "ErrBadRequest = Sentinel ''llm: bad request''"
definition ErrAuth :: err where [sentinel_defs]: "ErrAuth = Sentinel ''llm: authentication failed''"
definition ErrNotFound :: err where [sentinel_defs]: "ErrNotFound = Sentinel ''llm: not found''"
definition ErrContextWindow :: err where
  [sentinel_defs]: "ErrContextWindow = Sentinel ''llm: context window exceeded''"

definition ErrMaxIterations :: err where
  [sentinel_defs]: "ErrMaxIterations = Sentinel ''wombat: max iterations reached''"
definition ErrMaxTokens :: err where
  [sentinel_defs]: "ErrMaxTokens = Sentinel ''wombat: reply truncated at max_tokens''"
definition ErrRefused :: err where
  [sentinel_defs]: "ErrRefused = Sentinel ''wombat: model refused''"
definition ErrUnexpectedStop :: err where
  [sentinel_defs]: "ErrUnexpectedStop = Sentinel ''wombat: unexpected stop_reason''"
definition ErrEmptyTurn :: err where
  [sentinel_defs]: "ErrEmptyTurn =
     Sentinel ''wombat: model ended its turn with no text and no tool call''"
definition ErrToolPanic :: err where
  [sentinel_defs]: "ErrToolPanic = Sentinel ''tool: panicked''"

definition ErrCanceled :: err where
  [sentinel_defs]: "ErrCanceled = Sentinel ''context canceled''"
definition ErrNotExist :: err where
  [sentinel_defs]: "ErrNotExist = Sentinel ''file does not exist''"
definition ErrDeadlineExceeded :: err where
  [sentinel_defs]: "ErrDeadlineExceeded = Sentinel ''context deadline exceeded''"

section \<open>Unwrapping\<close>

text \<open>
  \<^verbatim>\<open>Unwrap\<close> of each type: \<^verbatim>\<open>APIError\<close> exposes its class and its cause, the typed run
  errors expose their sentinel, \<^verbatim>\<open>callerError\<close> its inner error.
\<close>

fun unwrap :: "err \<Rightarrow> err list" where
  "unwrap (Sentinel _) = []"
| "unwrap (Wrapf _ es) = es"
| "unwrap (ApiErr cls _ _ _ cause) = (case cause of Some c \<Rightarrow> [cls, c] | None \<Rightarrow> [cls])"
| "unwrap (CallerErr e) = [e]"
| "unwrap (RefusalErr _) = [ErrRefused]"
| "unwrap (UnexpectedStopErr _) = [ErrUnexpectedStop]"
| "unwrap (EmptyTurnErr _ _ _ _) = [ErrEmptyTurn]"
| "unwrap (PanicErr _ _ _) = [ErrToolPanic]"
| "unwrap (StatusErr _ _) = []"
| "unwrap (ExitErr _) = []"
| "unwrap (UrlErr e) = [e]"

text \<open>\<^verbatim>\<open>errors.Is\<close>: the error itself or anything it wraps equals the target.\<close>

fun errors_is :: "err \<Rightarrow> err \<Rightarrow> bool" where
  "errors_is (Sentinel s) t = (Sentinel s = t)"
| "errors_is (Wrapf m es) t = (Wrapf m es = t \<or> list_ex (\<lambda>e. errors_is e t) es)"
| "errors_is (ApiErr c st m r None) t = (ApiErr c st m r None = t \<or> errors_is c t)"
| "errors_is (ApiErr c st m r (Some e)) t =
     (ApiErr c st m r (Some e) = t \<or> errors_is c t \<or> errors_is e t)"
| "errors_is (CallerErr e) t = (CallerErr e = t \<or> errors_is e t)"
| "errors_is (RefusalErr s) t = (RefusalErr s = t \<or> ErrRefused = t)"
| "errors_is (UnexpectedStopErr s) t = (UnexpectedStopErr s = t \<or> ErrUnexpectedStop = t)"
| "errors_is (EmptyTurnErr a s b c) t = (EmptyTurnErr a s b c = t \<or> ErrEmptyTurn = t)"
| "errors_is (PanicErr a b c) t = (PanicErr a b c = t \<or> ErrToolPanic = t)"
| "errors_is (StatusErr c b) t = (StatusErr c b = t)"
| "errors_is (ExitErr c) t = (ExitErr c = t)"
| "errors_is (UrlErr e) t = (UrlErr e = t \<or> errors_is e t)"

lemma errors_is_unwrap: "errors_is e t \<longleftrightarrow> e = t \<or> (\<exists>x\<in>set (unwrap e). errors_is x t)"
proof (cases e)
  case (ApiErr c st m r cause)
  then show ?thesis by (cases cause) auto
qed (auto simp: list_ex_iff sentinel_defs)

lemma errors_is_refl [simp]: "errors_is e e"
  by (subst errors_is_unwrap) simp

text \<open>
  \<^verbatim>\<open>errors.As(err, &ae)\<close> with a \<^verbatim>\<open>*APIError\<close> target: the first one met in a depth-first walk.
  \<open>first_some\<close> walks the operands of a multi-\<^verbatim>\<open>%w\<close> error in order.
\<close>

fun first_some :: "'a option list \<Rightarrow> 'a option" where
  "first_some [] = None"
| "first_some (None # xs) = first_some xs"
| "first_some (Some x # _) = Some x"

fun as_api :: "err \<Rightarrow> err option" where
  "as_api (ApiErr c st m r cause) = Some (ApiErr c st m r cause)"
| "as_api (Wrapf _ es) = first_some (map as_api es)"
| "as_api (CallerErr e) = as_api e"
| "as_api (UrlErr e) = as_api e"
| "as_api _ = None"

lemma first_some_in: "first_some xs = Some x \<Longrightarrow> Some x \<in> set xs"
  by (induction xs rule: first_some.induct) auto

section \<open>Classification (llm/errors.go)\<close>

definition api_class_retryable :: "err \<Rightarrow> bool" where
  "api_class_retryable cls = (cls \<in> {ErrRateLimit, ErrOverloaded, ErrServer, ErrTransport})"

fun retryable :: "err \<Rightarrow> bool" where
  "retryable e = (case as_api e of
       Some (ApiErr cls _ _ _ _) \<Rightarrow> api_class_retryable cls
     | _ \<Rightarrow> False)"

fun retry_after :: "err \<Rightarrow> int" where
  "retry_after e = (case as_api e of
       Some (ApiErr _ _ _ r _) \<Rightarrow> r
     | _ \<Rightarrow> 0)"

definition context_window_markers :: "string list" where
  "context_window_markers =
     [''context window'', ''input is too long'', ''prompt is too long'', ''exceeds the maximum'',
      ''max_tokens_to_sample'', ''too many tokens'', ''maximum context length'',
      ''context_length_exceeded'', ''reduce the length of the messages'']"

text \<open>\<^verbatim>\<open>ClassifyStatus\<close> panics on a 2xx status; the panic is \<^const>\<open>None\<close>.\<close>

definition classify_status :: "int \<Rightarrow> string \<Rightarrow> int \<Rightarrow> err option" where
  "classify_status status body ra =
     (let mk = (\<lambda>cls. Some (ApiErr cls status body ra None)) in
      if 200 \<le> status \<and> status < 300 then None
      else if status = 400 then
        mk (if list_ex (contains_sub (to_lower body)) context_window_markers
            then ErrContextWindow else ErrBadRequest)
      else if status = 401 \<or> status = 403 then mk ErrAuth
      else if status = 404 then mk ErrNotFound
      else if status = 422 then mk ErrBadRequest
      else if status = 429 then mk ErrRateLimit
      else if status = 529 then mk ErrOverloaded
      else if status \<ge> 500 then mk ErrServer
      else mk ErrBadRequest)"

definition classify_transport :: "err \<Rightarrow> err" where
  "classify_transport cause = ApiErr ErrTransport 0 '''' 0 (Some cause)"

section \<open>Caller faults (tool/fault.go)\<close>

text \<open>
  \<^verbatim>\<open>callerError\<close> is the only type of the program with a \<^verbatim>\<open>CallerFault\<close> method and it answers
  true, so the first match of \<^verbatim>\<open>errors.As\<close> decides by existing.
\<close>

fun is_caller_fault :: "err \<Rightarrow> bool" where
  "is_caller_fault (CallerErr _) = True"
| "is_caller_fault (Wrapf _ es) = list_ex is_caller_fault es"
| "is_caller_fault (ApiErr c _ _ _ None) = is_caller_fault c"
| "is_caller_fault (ApiErr c _ _ _ (Some e)) = (is_caller_fault c \<or> is_caller_fault e)"
| "is_caller_fault (UrlErr e) = is_caller_fault e"
| "is_caller_fault _ = False"

definition caller_error :: "err option \<Rightarrow> err option" where
  "caller_error e = map_option CallerErr e"

section \<open>Properties\<close>

lemma classify_status_api:
  "classify_status st b ra = Some e \<Longrightarrow> \<exists>cls. e = ApiErr cls st b ra None"
  by (auto simp: classify_status_def Let_def split: if_splits)

lemma errors_is_wrap_mono: "e \<in> set es \<Longrightarrow> errors_is e t \<Longrightarrow> errors_is (Wrapf m es) t"
  by (auto simp: list_ex_iff)

lemma is_caller_fault_wrap: "e \<in> set es \<Longrightarrow> is_caller_fault e \<Longrightarrow> is_caller_fault (Wrapf m es)"
  by (auto simp: list_ex_iff)

lemma sentinels_distinct [simp]:
  "ErrRateLimit \<noteq> ErrContextWindow" "ErrOverloaded \<noteq> ErrContextWindow"
  "ErrServer \<noteq> ErrContextWindow" "ErrTransport \<noteq> ErrContextWindow"
  "ErrBadRequest \<noteq> ErrContextWindow" "ErrAuth \<noteq> ErrContextWindow"
  "ErrNotFound \<noteq> ErrContextWindow" "ErrCanceled \<noteq> ErrContextWindow"
  by (simp_all add: sentinel_defs)

text \<open>An API error whose class is a sentinel is never retried when it is a context overflow.\<close>

lemma classify_status_retryable:
  assumes "classify_status st b ra = Some e"
  shows "retryable e \<longleftrightarrow> st = 429 \<or> st = 529 \<or> st \<ge> 500"
  using assms
  by (auto simp: classify_status_def Let_def api_class_retryable_def sentinel_defs split: if_splits)

lemma classify_status_overflow:
  assumes "classify_status st b ra = Some e"
  shows "errors_is e ErrContextWindow \<longleftrightarrow>
    st = 400 \<and> (\<exists>m\<in>set context_window_markers. contains_sub (to_lower b) m)"
  using assms
  by (auto simp: classify_status_def Let_def sentinel_defs list_ex_iff split: if_splits)

text \<open>The class given to a failed status is retryable exactly for 429, 529 and the other statuses
  from 500 on; it is a context-window overflow exactly for a 400 whose body carries one of the known
  phrasings; and the two never meet.\<close>

theorem status_classes:
  assumes "classify_status st b ra = Some e"
  shows "(retryable e \<longleftrightarrow> st = 429 \<or> st \<ge> 500) \<and>
    (errors_is e ErrContextWindow \<longleftrightarrow>
       st = 400 \<and> (\<exists>m\<in>set context_window_markers. contains_sub (to_lower b) m)) \<and>
    \<not> (retryable e \<and> errors_is e ErrContextWindow) \<and> retry_after e = ra"
proof -
  have "retry_after e = ra" using classify_status_api[OF assms] by auto
  then show ?thesis
    using classify_status_retryable[OF assms] classify_status_overflow[OF assms] by auto
qed

theorem status_classes_witness: "retryable (ApiErr ErrServer 503 [] 7 None)"
  using status_classes[of 503 "[]" 7 "ApiErr ErrServer 503 [] 7 None"]
  by (simp add: classify_status_def Let_def del: retryable.simps)

end
