(* ===== verification/Transcript.thy ===== *)
theory Transcript
  imports Prelude Errors
begin

text \<open>
  The conversation: content blocks and messages of \<^verbatim>\<open>llm/llm.go\<close> and the transcript type
  \<^verbatim>\<open>Convo\<close> of \<^verbatim>\<open>convo.go\<close> with its push helpers, its dangling-call bookkeeping and its
  validator; the resume helpers of \<^verbatim>\<open>run.go\<close> (\<^verbatim>\<open>AnswerPause\<close>, \<^verbatim>\<open>Then\<close>) that repair a
  transcript. \<open>wf_convo\<close> is the declarative reading of the six invariants; \<open>validate\<close> is
  the code. Roles are open strings, as in the source.
\<close>

section \<open>Blocks and messages\<close>

type_synonym role = string

abbreviation RoleUser :: role where "RoleUser \<equiv> ''user''"
abbreviation RoleAssistant :: role where "RoleAssistant \<equiv> ''assistant''"

record tool_use =
  tu_id :: tool_use_id
  tu_name :: string
  tu_input :: string

record tool_result =
  tr_id :: tool_use_id
  tr_content :: string
  tr_is_error :: bool

datatype block =
    Text string
  | ToolUse tool_use
  | ToolResult tool_result
  | Thinking string string

record message =
  msg_role :: role
  msg_content :: "block list"

type_synonym convo = "message list"

fun text_parts :: "block list \<Rightarrow> string list" where
  "text_parts [] = []"
| "text_parts (Text s # bs) = s # text_parts bs"
| "text_parts (_ # bs) = text_parts bs"

text \<open>
  \<^verbatim>\<open>TextOf\<close> writes the separator only when the buffer is already non-empty, so leading empty
  text blocks leave no newline behind.
\<close>

fun text_of_acc :: "string \<Rightarrow> block list \<Rightarrow> string" where
  "text_of_acc out [] = out"
| "text_of_acc out (Text s # bs) =
     text_of_acc ((if out = [] then out else out @ [CHR 0x0A]) @ s) bs"
| "text_of_acc out (_ # bs) = text_of_acc out bs"

definition text_of :: "block list \<Rightarrow> string" where
  "text_of bs = text_of_acc [] bs"

fun tool_uses :: "block list \<Rightarrow> tool_use list" where
  "tool_uses [] = []"
| "tool_uses (ToolUse u # bs) = u # tool_uses bs"
| "tool_uses (_ # bs) = tool_uses bs"

definition user_text :: "string \<Rightarrow> message" where
  "user_text s = \<lparr>msg_role = RoleUser, msg_content = [Text s]\<rparr>"

section \<open>Building a transcript (convo.go)\<close>

definition append_msg :: "convo \<Rightarrow> message \<Rightarrow> convo" where
  "append_msg c m =
     (if msg_content m = [] then c
      else if c \<noteq> [] \<and> msg_role (last c) = msg_role m
        then butlast c @ [(last c)\<lparr>msg_content := msg_content (last c) @ msg_content m\<rparr>]
      else c @ [m])"

definition push_user_text :: "convo \<Rightarrow> string \<Rightarrow> convo" where
  "push_user_text c s = append_msg c (user_text s)"

definition push_assistant :: "convo \<Rightarrow> block list \<Rightarrow> convo" where
  "push_assistant c bs = append_msg c \<lparr>msg_role = RoleAssistant, msg_content = bs\<rparr>"

definition push_tool_results :: "convo \<Rightarrow> block list \<Rightarrow> convo" where
  "push_tool_results c bs = append_msg c \<lparr>msg_role = RoleUser, msg_content = bs\<rparr>"

text \<open>
  \<^verbatim>\<open>Dangling\<close>: \<open>open\<close> is the set of the Go map, \<open>order\<close> the slice of ids in the order they
  were first opened. An id that is answered and then declared again is pushed a second time.
\<close>

fun dangling_scan :: "tool_use_id set \<Rightarrow> tool_use_id list \<Rightarrow> block list
    \<Rightarrow> tool_use_id set \<times> tool_use_id list" where
  "dangling_scan opn order [] = (opn, order)"
| "dangling_scan opn order (ToolUse u # bs) =
     (if tu_id u \<notin> opn then dangling_scan (insert (tu_id u) opn) (order @ [tu_id u]) bs
      else dangling_scan opn order bs)"
| "dangling_scan opn order (ToolResult r # bs) = dangling_scan (opn - {tr_id r}) order bs"
| "dangling_scan opn order (_ # bs) = dangling_scan opn order bs"

definition dangling :: "convo \<Rightarrow> tool_use_id list" where
  "dangling c =
     (case dangling_scan {} [] (concat (map msg_content c)) of
        (opn, order) \<Rightarrow> filter (\<lambda>i. i \<in> opn) order)"

definition ack_block :: "string \<Rightarrow> tool_use_id \<Rightarrow> block" where
  "ack_block ack i = ToolResult \<lparr>tr_id = i, tr_content = ack, tr_is_error = False\<rparr>"

definition close_dangling :: "convo \<Rightarrow> string \<Rightarrow> block list \<Rightarrow> convo" where
  "close_dangling c ack extra =
     (let pending = dangling c in
      if pending = [] \<and> extra = [] then c
      else append_msg c \<lparr>msg_role = RoleUser,
             msg_content = map (ack_block ack) pending @ extra\<rparr>)"

datatype lookup_error = LookupFailed tool_use_id string | LookupMissing tool_use_id

fun lookup_block :: "block list \<Rightarrow> tool_use_id \<Rightarrow> lookup_error + string" where
  "lookup_block [] i = Inl (LookupMissing i)"
| "lookup_block (ToolResult r # bs) i =
     (if tr_id r \<noteq> i then lookup_block bs i
      else if tr_is_error r then Inl (LookupFailed i (tr_content r))
      else Inr (tr_content r))"
| "lookup_block (_ # bs) i = lookup_block bs i"

definition lookup_result :: "convo \<Rightarrow> tool_use_id \<Rightarrow> lookup_error + string" where
  "lookup_result c i = lookup_block (concat (map msg_content c)) i"

section \<open>Validate\<close>

text \<open>
  One constructor per sentinel, with the values the code formats into the message: turn numbers,
  ids, roles, and the sorted id list \<^verbatim>\<open>joinIDs\<close> renders.
\<close>

datatype convo_error =
    ErrEmptyConvo
  | ErrNotUserFirst
  | ErrNotAlternating nat role
  | ErrBlockInWrongRole tool_use_id role nat
  | ErrDuplicateToolUse tool_use_id nat
  | ErrOrphanResult tool_use_id
  | ErrLateResult tool_use_id nat
  | ErrDanglingToolUse "tool_use_id list" "nat option"

record scan =
  sc_seen :: "tool_use_id set"
  sc_open :: "tool_use_id set"
  sc_declared :: "tool_use_id set"

definition join_ids :: "tool_use_id set \<Rightarrow> tool_use_id list" where
  "join_ids ids = sorted_list_of_set ids"

fun validate_blocks :: "nat \<Rightarrow> role \<Rightarrow> scan \<Rightarrow> block list \<Rightarrow> convo_error + scan" where
  "validate_blocks i r s [] = Inr s"
| "validate_blocks i r s (ToolUse u # bs) =
     (if r \<noteq> RoleAssistant then Inl (ErrBlockInWrongRole (tu_id u) r i)
      else if tu_id u \<in> sc_seen s then Inl (ErrDuplicateToolUse (tu_id u) i)
      else validate_blocks i r
        (s\<lparr>sc_seen := insert (tu_id u) (sc_seen s),
           sc_declared := insert (tu_id u) (sc_declared s)\<rparr>) bs)"
| "validate_blocks i r s (ToolResult t # bs) =
     (if r \<noteq> RoleUser then Inl (ErrBlockInWrongRole (tr_id t) r i)
      else if tr_id t \<notin> sc_seen s then Inl (ErrOrphanResult (tr_id t))
      else if tr_id t \<notin> sc_open s then Inl (ErrLateResult (tr_id t) i)
      else validate_blocks i r (s\<lparr>sc_open := sc_open s - {tr_id t}\<rparr>) bs)"
| "validate_blocks i r s (_ # bs) = validate_blocks i r s bs"

text \<open>
  The loop over the turns. \<open>prev\<close> is the role of the turn before, \<^const>\<open>None\<close> at turn 0;
  the state carries \<open>seen\<close> and \<open>open\<close>, and \<open>declared\<close> restarts at each turn.
\<close>

fun validate_turns :: "nat \<Rightarrow> role option \<Rightarrow> tool_use_id set \<Rightarrow> tool_use_id set \<Rightarrow> convo
    \<Rightarrow> convo_error + tool_use_id set" where
  "validate_turns i prev seen opn [] = Inr opn"
| "validate_turns i prev seen opn (m # ms) =
     (if prev = Some (msg_role m) then Inl (ErrNotAlternating i (msg_role m))
      else case validate_blocks i (msg_role m)
                  \<lparr>sc_seen = seen, sc_open = opn, sc_declared = {}\<rparr> (msg_content m) of
        Inl e \<Rightarrow> Inl e
      | Inr s \<Rightarrow>
          if sc_open s \<noteq> {} then Inl (ErrDanglingToolUse (join_ids (sc_open s)) (Some i))
          else validate_turns (Suc i) (Some (msg_role m)) (sc_seen s) (sc_declared s) ms)"

definition validate :: "convo \<Rightarrow> convo_error option" where
  "validate c =
     (if c = [] then Some ErrEmptyConvo
      else if msg_role (hd c) \<noteq> RoleUser then Some ErrNotUserFirst
      else case validate_turns 0 None {} {} c of
        Inl e \<Rightarrow> Some e
      | Inr opn \<Rightarrow> if opn \<noteq> {} then Some (ErrDanglingToolUse (join_ids opn) None) else None)"

section \<open>Resuming (run.go)\<close>

definition not_run_text :: string where
  "not_run_text = ''not run: the agent stopped to ask the user before this call was dispatched''"

definition answer_block :: "tool_use_id \<Rightarrow> string \<Rightarrow> tool_use_id \<Rightarrow> block" where
  "answer_block i answer p =
     (if p = i then ToolResult \<lparr>tr_id = p, tr_content = answer, tr_is_error = False\<rparr>
      else ToolResult \<lparr>tr_id = p, tr_content = not_run_text, tr_is_error = True\<rparr>)"

definition answer_pause :: "convo \<Rightarrow> tool_use_id \<Rightarrow> string \<Rightarrow> convo" where
  "answer_pause prior i answer =
     (let pending = dangling prior;
          blocks = map (answer_block i answer) pending
      in push_tool_results prior
           (if i \<in> set pending then blocks
            else blocks @ [ToolResult \<lparr>tr_id = i, tr_content = answer, tr_is_error = False\<rparr>]))"

definition then_instruction :: "convo \<Rightarrow> string \<Rightarrow> convo" where
  "then_instruction prior instruction =
     (if dangling prior \<noteq> [] then close_dangling prior ''(cancelled)'' [Text instruction]
      else push_user_text prior instruction)"

section \<open>Abstract specification of a well-formed transcript\<close>

definition use_ids :: "block list \<Rightarrow> tool_use_id list" where
  "use_ids bs = map tu_id (tool_uses bs)"

fun result_ids :: "block list \<Rightarrow> tool_use_id list" where
  "result_ids [] = []"
| "result_ids (ToolResult r # bs) = tr_id r # result_ids bs"
| "result_ids (_ # bs) = result_ids bs"

abbreviation uses_of :: "message \<Rightarrow> tool_use_id list" where
  "uses_of m \<equiv> use_ids (msg_content m)"

abbreviation results_of :: "message \<Rightarrow> tool_use_id list" where
  "results_of m \<equiv> result_ids (msg_content m)"

definition roles_ok :: "role \<Rightarrow> block list \<Rightarrow> bool" where
  "roles_ok r bs \<longleftrightarrow> (use_ids bs \<noteq> [] \<longrightarrow> r = RoleAssistant) \<and> (result_ids bs \<noteq> [] \<longrightarrow> r = RoleUser)"

text \<open>
  The six invariants, read positionally: non-empty, user first, alternating, blocks in the right
  role, ids unique, and the results of a turn exactly the calls of the turn before it (none for the
  first turn), with nothing left open after the last.
\<close>

definition answers_previous :: "tool_use_id set \<Rightarrow> convo \<Rightarrow> bool" where
  "answers_previous opn c \<longleftrightarrow>
     (\<forall>i<length c. distinct (result_ids (msg_content (c ! i))) \<and>
        set (result_ids (msg_content (c ! i))) =
          (if i = 0 then opn else set (use_ids (msg_content (c ! (i - 1))))))"

definition wf_convo :: "convo \<Rightarrow> bool" where
  "wf_convo c \<longleftrightarrow>
     c \<noteq> [] \<and> msg_role (hd c) = RoleUser \<and>
     successively (\<lambda>a b. msg_role a \<noteq> msg_role b) c \<and>
     (\<forall>m\<in>set c. roles_ok (msg_role m) (msg_content m)) \<and>
     distinct (concat (map uses_of c)) \<and>
     answers_previous {} c \<and>
     uses_of (last c) = []"

text \<open>The same reading as a machine over the turns; proofs about transcripts go through it.\<close>

type_synonym turn_state = "role option \<times> tool_use_id set \<times> tool_use_id set"

fun turn_fits :: "turn_state \<Rightarrow> message \<Rightarrow> bool" where
  "turn_fits (prev, seen, opn) m \<longleftrightarrow>
     prev \<noteq> Some (msg_role m) \<and> roles_ok (msg_role m) (msg_content m) \<and>
     distinct (uses_of m) \<and> set (uses_of m) \<inter> seen = {} \<and>
     distinct (results_of m) \<and> set (results_of m) = opn"

fun turn_next :: "turn_state \<Rightarrow> message \<Rightarrow> turn_state" where
  "turn_next (prev, seen, opn) m = (Some (msg_role m), seen \<union> set (uses_of m), set (uses_of m))"

fun run_turns :: "turn_state \<Rightarrow> convo \<Rightarrow> turn_state option" where
  "run_turns st [] = Some st"
| "run_turns st (m # ms) = (if turn_fits st m then run_turns (turn_next st m) ms else None)"

abbreviation start_state :: turn_state where "start_state \<equiv> (None, {}, {})"

definition opens_with_user :: "convo \<Rightarrow> bool" where
  "opens_with_user c \<longleftrightarrow> c \<noteq> [] \<and> msg_role (hd c) = RoleUser"

subsection \<open>Ids of blocks\<close>

lemma use_ids_simps [simp]:
  "use_ids [] = []"
  "use_ids (ToolUse u # bs) = tu_id u # use_ids bs"
  "use_ids (ToolResult r # bs) = use_ids bs"
  "use_ids (Text s # bs) = use_ids bs"
  "use_ids (Thinking s g # bs) = use_ids bs"
  by (simp_all add: use_ids_def)

lemma use_ids_append [simp]: "use_ids (xs @ ys) = use_ids xs @ use_ids ys"
  by (induction xs rule: tool_uses.induct) auto

lemma result_ids_append [simp]: "result_ids (xs @ ys) = result_ids xs @ result_ids ys"
  by (induction xs rule: result_ids.induct) auto

lemma roles_ok_append [simp]:
  "roles_ok r (xs @ ys) \<longleftrightarrow> roles_ok r xs \<and> roles_ok r ys"
  by (auto simp: roles_ok_def)

lemma roles_ok_Nil [simp]: "roles_ok r []"
  by (simp add: roles_ok_def)

lemma roles_ok_user: "roles_ok RoleUser bs \<longleftrightarrow> use_ids bs = []"
  by (auto simp: roles_ok_def)

lemma roles_ok_not_user: "r \<noteq> RoleUser \<Longrightarrow> roles_ok r bs \<Longrightarrow> result_ids bs = []"
  by (auto simp: roles_ok_def)

lemma result_ids_acks [simp]: "result_ids (map (ack_block ack) ids) = ids"
  by (induction ids) (auto simp: ack_block_def)

lemma use_ids_acks [simp]: "use_ids (map (ack_block ack) ids) = []"
  by (induction ids) (auto simp: ack_block_def)

lemma result_ids_answers [simp]: "result_ids (map (answer_block i a) ids) = ids"
  by (induction ids) (auto simp: answer_block_def)

lemma use_ids_answers [simp]: "use_ids (map (answer_block i a) ids) = []"
  by (induction ids) (auto simp: answer_block_def)

subsection \<open>The validator against the turn machine\<close>

lemma Diff_singleton_Diff: "A - {a} - B = A - insert a B"
  by auto

lemma validate_blocks_user:
  "validate_blocks i RoleUser s bs = Inr s' \<longleftrightarrow>
     use_ids bs = [] \<and> distinct (result_ids bs) \<and> set (result_ids bs) \<subseteq> sc_seen s \<inter> sc_open s \<and>
     s' = s\<lparr>sc_open := sc_open s - set (result_ids bs)\<rparr>"
proof (induction bs arbitrary: s)
  case (Cons b bs)
  then show ?case
    by (cases b) (simp_all add: Diff_singleton_Diff subset_Diff_insert conj_ac)
qed auto

lemma validate_blocks_other:
  "r \<noteq> RoleUser \<Longrightarrow> validate_blocks i r s bs = Inr s' \<longleftrightarrow>
     result_ids bs = [] \<and> (use_ids bs \<noteq> [] \<longrightarrow> r = RoleAssistant) \<and> distinct (use_ids bs) \<and>
     set (use_ids bs) \<inter> sc_seen s = {} \<and>
     s' = s\<lparr>sc_seen := sc_seen s \<union> set (use_ids bs), sc_declared := sc_declared s \<union> set (use_ids bs)\<rparr>"
proof (induction bs arbitrary: s)
  case (Cons b bs)
  then show ?case
    by (cases b; cases "r = RoleAssistant") (simp_all add: conj_ac)
qed auto

lemma validate_blocks_fits:
  assumes "opn \<subseteq> seen"
  shows "(\<exists>s. validate_blocks i r \<lparr>sc_seen = seen, sc_open = opn, sc_declared = {}\<rparr> bs = Inr s \<and>
            sc_open s = {} \<and> sc_seen s = seen' \<and> sc_declared s = dec) \<longleftrightarrow>
         roles_ok r bs \<and> distinct (use_ids bs) \<and> set (use_ids bs) \<inter> seen = {} \<and>
         distinct (result_ids bs) \<and> set (result_ids bs) = opn \<and>
         seen' = seen \<union> set (use_ids bs) \<and> dec = set (use_ids bs)"
proof (cases "r = RoleUser")
  case True
  then show ?thesis using assms by (auto simp: validate_blocks_user roles_ok_def)
next
  case False
  then show ?thesis using assms by (auto simp: validate_blocks_other roles_ok_def)
qed

lemma validate_turns_run:
  "opn \<subseteq> seen \<Longrightarrow> validate_turns i prev seen opn c = Inr opn' \<longleftrightarrow>
     (\<exists>p s. run_turns (prev, seen, opn) c = Some (p, s, opn'))"
proof (induction c arbitrary: i prev seen opn)
  case (Cons m ms)
  let ?st = "\<lparr>sc_seen = seen, sc_open = opn, sc_declared = {}\<rparr>"
  let ?v = "validate_blocks i (msg_role m) ?st (msg_content m)"
  note fits = validate_blocks_fits[OF Cons.prems, of i "msg_role m" "msg_content m"]
  show ?case
  proof (cases "turn_fits (prev, seen, opn) m")
    case True
    then obtain s where "?v = Inr s" "sc_open s = {}" "sc_seen s = seen \<union> set (uses_of m)"
      "sc_declared s = set (uses_of m)"
      using fits[of "seen \<union> set (uses_of m)" "set (uses_of m)"] by auto
    with True Cons.IH[of "set (uses_of m)" "seen \<union> set (uses_of m)"] show ?thesis by auto
  next
    case False
    have "\<not> (prev \<noteq> Some (msg_role m) \<and> ?v = Inr s \<and> sc_open s = {})" for s
      using fits[of "sc_seen s" "sc_declared s"] False by auto
    with False show ?thesis by (auto split: sum.splits)
  qed
qed auto

lemma validate_run:
  "validate c = None \<longleftrightarrow>
     opens_with_user c \<and> (\<exists>p s. run_turns start_state c = Some (p, s, {}))"
  using validate_turns_run[of "{}" "{}" 0 None c "{}"]
  by (auto simp: validate_def opens_with_user_def split: sum.splits)

end
