(* ===== verification/TranscriptWf.thy ===== *)
theory TranscriptWf
  imports Transcript
begin

text \<open>
  Facts about well-formed transcripts: the validator decides the declarative specification, a
  complete transcript stays valid under the push helpers, and the resume helpers repair exactly the
  calls the last turn left open. All of them go through the turn machine \<^const>\<open>run_turns\<close>.
\<close>

section \<open>The turn machine\<close>

lemma run_turns_append:
  "run_turns st (xs @ ys) = Option.bind (run_turns st xs) (\<lambda>st'. run_turns st' ys)"
  by (induction xs arbitrary: st) auto

lemma run_turns_snoc:
  "run_turns st (xs @ [m]) = Some st' \<longleftrightarrow>
     (\<exists>st1. run_turns st xs = Some st1 \<and> turn_fits st1 m \<and> st' = turn_next st1 m)"
  by (auto simp: run_turns_append bind_eq_Some_conv)

lemma run_turns_last:
  assumes "run_turns st c = Some (p, s, opn)" and "c \<noteq> []"
  shows "p = Some (msg_role (last c)) \<and> opn = set (uses_of (last c)) \<and> set (uses_of (last c)) \<subseteq> s \<and>
    roles_ok (msg_role (last c)) (msg_content (last c))"
proof -
  from assms(2) obtain xs m where c: "c = xs @ [m]" by (meson rev_exhaust)
  with assms(1) obtain st1 where "turn_fits st1 m" "turn_next st1 m = (p, s, opn)"
    by (auto simp: run_turns_snoc)
  with c show ?thesis by (cases st1) auto
qed

lemma run_turns_seen:
  "run_turns (p, s, opn) c = Some (p', s', opn') \<Longrightarrow> s' = s \<union> (\<Union>m\<in>set c. set (uses_of m))"
  by (induction c arbitrary: p s opn) (auto split: if_splits)

lemma run_turns_mono:
  "run_turns (p, s, opn) c = Some (p', s', opn') \<Longrightarrow> t \<subseteq> s \<Longrightarrow>
   \<exists>t'. run_turns (p, t, opn) c = Some (p', t', opn') \<and> t' \<subseteq> s'"
proof (induction c arbitrary: p s t opn)
  case (Cons m ms)
  from Cons.prems(1) have fits: "turn_fits (p, s, opn) m"
    and rest: "run_turns (Some (msg_role m), s \<union> set (uses_of m), set (uses_of m)) ms = Some (p', s', opn')"
    by (auto split: if_splits)
  from Cons.prems(2) have "t \<union> set (uses_of m) \<subseteq> s \<union> set (uses_of m)" by blast
  from Cons.IH[OF rest this] fits Cons.prems(2) show ?case by auto
qed auto

lemma run_turns_forget_prev:
  "c \<noteq> [] \<Longrightarrow> run_turns (p, s, opn) c = Some st \<Longrightarrow> run_turns (None, s, opn) c = Some st"
  by (cases c) (auto split: if_splits)

section \<open>Validate decides the specification\<close>

lemma answers_previous_Nil [simp]: "answers_previous opn []"
  by (simp add: answers_previous_def)

lemma answers_previous_Cons [simp]:
  "answers_previous opn (m # ms) \<longleftrightarrow>
     distinct (results_of m) \<and> set (results_of m) = opn \<and> answers_previous (set (uses_of m)) ms"
  unfolding answers_previous_def by (simp add: All_less_Suc2 nth_Cons' conj_ac)

lemma successively_Cons_hd:
  "successively P (m # ms) \<longleftrightarrow> (ms \<noteq> [] \<longrightarrow> P m (hd ms)) \<and> successively P ms"
  by (cases ms) auto

lemma run_turns_declarative:
  "(\<exists>st. run_turns (prev, seen, opn) c = Some st) \<longleftrightarrow>
     (c \<noteq> [] \<longrightarrow> prev \<noteq> Some (msg_role (hd c))) \<and>
     successively (\<lambda>a b. msg_role a \<noteq> msg_role b) c \<and>
     (\<forall>m\<in>set c. roles_ok (msg_role m) (msg_content m)) \<and>
     distinct (concat (map uses_of c)) \<and> set (concat (map uses_of c)) \<inter> seen = {} \<and>
     answers_previous opn c"
proof (induction c arbitrary: prev seen opn)
  case (Cons m ms)
  let ?u = "set (uses_of m)" and ?us = "set (concat (map uses_of ms))"
  have dis: "?us \<inter> (seen \<union> ?u) = {} \<longleftrightarrow> ?us \<inter> seen = {} \<and> ?u \<inter> ?us = {}"
    by blast
  have un: "set (concat (map uses_of (m # ms))) \<inter> seen = {} \<longleftrightarrow> ?u \<inter> seen = {} \<and> ?us \<inter> seen = {}"
    by (simp add: Int_Un_distrib2)
  show ?case
  proof (cases "turn_fits (prev, seen, opn) m")
    case True
    then have "(\<exists>st. run_turns (prev, seen, opn) (m # ms) = Some st) \<longleftrightarrow>
        (\<exists>st. run_turns (Some (msg_role m), seen \<union> ?u, ?u) ms = Some st)"
      by simp
    then show ?thesis
      unfolding Cons.IH dis un successively_Cons_hd using True by simp argo
  next
    case False
    then show ?thesis unfolding un by simp argo
  qed
qed simp

lemma run_turns_closed:
  assumes "c \<noteq> []"
  shows "(\<exists>p s. run_turns start_state c = Some (p, s, {})) \<longleftrightarrow>
      (\<exists>st. run_turns start_state c = Some st) \<and> uses_of (last c) = []"
proof safe
  fix p s
  assume "run_turns start_state c = Some (p, s, {})"
  from run_turns_last[OF this assms] show "uses_of (last c) = []" by simp
next
  fix p s opn
  assume run: "run_turns start_state c = Some (p, s, opn)" and "uses_of (last c) = []"
  with run_turns_last[OF run assms] have "opn = {}" by simp
  with run show "\<exists>p s. run_turns start_state c = Some (p, s, {})" by blast
qed auto

lemma validate_iff_wf: "validate c = None \<longleftrightarrow> wf_convo c"
proof (cases "c = []")
  case False
  note decl = run_turns_declarative[of None "{}" "{}" c]
  show ?thesis
    unfolding validate_run wf_convo_def opens_with_user_def run_turns_closed[OF False] decl
    using False by simp
qed (simp add: validate_def wf_convo_def)

section \<open>Pushing turns\<close>

lemma append_msg_other_role:
  assumes "run_turns st c = Some (p, s, opn)" and "c \<noteq> []" and "msg_content m \<noteq> []"
    and "msg_role (last c) \<noteq> msg_role m"
    and "roles_ok (msg_role m) (msg_content m)"
    and "distinct (uses_of m)" and "set (uses_of m) \<inter> s = {}"
    and "distinct (results_of m)" and "set (results_of m) = opn"
  shows "run_turns st (append_msg c m) = Some (Some (msg_role m), s \<union> set (uses_of m), set (uses_of m))"
  using assms run_turns_last[OF assms(1,2)] by (auto simp: append_msg_def run_turns_append)

lemma append_msg_same_role:
  assumes "run_turns st c = Some (p, s, opn)" and "c \<noteq> []" and "msg_content m \<noteq> []"
    and "msg_role (last c) = msg_role m"
    and "roles_ok (msg_role m) (msg_content m)"
    and "distinct (uses_of m)" and "set (uses_of m) \<inter> s = {}" and "results_of m = []"
  shows "run_turns st (append_msg c m) =
    Some (Some (msg_role m), s \<union> set (uses_of m), opn \<union> set (uses_of m))"
proof -
  obtain xs l where c: "c = xs @ [l]" using assms(2) by (meson rev_exhaust)
  with assms(1) obtain p1 s1 o1 where st1: "run_turns st xs = Some (p1, s1, o1)"
    and fits: "turn_fits (p1, s1, o1) l" and nxt: "turn_next (p1, s1, o1) l = (p, s, opn)"
    by (auto simp: run_turns_snoc)
  let ?l = "l\<lparr>msg_content := msg_content l @ msg_content m\<rparr>"
  have "append_msg c m = xs @ [?l]"
    using assms(3,4) c by (simp add: append_msg_def)
  moreover have "turn_fits (p1, s1, o1) ?l"
    using fits nxt assms(4-8) c by auto
  ultimately show ?thesis
    using st1 nxt assms(4) c by (auto simp: run_turns_append)
qed

lemma append_msg_plain:
  assumes "run_turns st c = Some (p, s, {})" and "c \<noteq> []"
    and "use_ids (msg_content m) = []" and "result_ids (msg_content m) = []"
  shows "\<exists>p. run_turns st (append_msg c m) = Some (p, s, {})"
proof (cases "msg_content m = []")
  case True
  with assms(1) show ?thesis by (auto simp: append_msg_def)
next
  case False
  then show ?thesis
    using append_msg_same_role[OF assms(1,2) False] append_msg_other_role[OF assms(1,2) False] assms(3,4)
    by (cases "msg_role (last c) = msg_role m") (auto simp: roles_ok_def)
qed

lemma append_msg_opens:
  "opens_with_user c \<Longrightarrow> opens_with_user (append_msg c m)"
  by (cases c; cases "tl c") (auto simp: opens_with_user_def append_msg_def hd_append)

section \<open>Dangling calls\<close>

lemma dangling_scan_append:
  "dangling_scan opn order (xs @ ys) =
     (case dangling_scan opn order xs of (o', ord') \<Rightarrow> dangling_scan o' ord' ys)"
  by (induction opn order xs rule: dangling_scan.induct) auto

lemma dangling_scan_user:
  "use_ids bs = [] \<Longrightarrow> dangling_scan opn order bs = (opn - set (result_ids bs), order)"
  by (induction opn order bs rule: dangling_scan.induct) (auto simp: Diff_singleton_Diff)

lemma dangling_scan_assistant:
  "result_ids bs = [] \<Longrightarrow> distinct (use_ids bs) \<Longrightarrow> set (use_ids bs) \<inter> opn = {} \<Longrightarrow>
   dangling_scan opn order bs = (opn \<union> set (use_ids bs), order @ use_ids bs)"
  by (induction opn order bs rule: dangling_scan.induct) auto

lemma dangling_scan_turn:
  assumes "turn_fits (p, s, opn) m" and "opn \<subseteq> s"
  shows "dangling_scan opn order (msg_content m) = (set (uses_of m), order @ uses_of m)"
proof (cases "uses_of m = []")
  case True
  with assms show ?thesis by (simp add: dangling_scan_user)
next
  case False
  then have "results_of m = []" using assms(1) by (auto simp: roles_ok_def)
  then show ?thesis using assms by (subst dangling_scan_assistant) auto
qed

lemma dangling_scan_run:
  "run_turns (p, s, opn) c = Some (p', s', opn') \<Longrightarrow> opn \<subseteq> s \<Longrightarrow>
   dangling_scan opn order (concat (map msg_content c)) = (opn', order @ concat (map uses_of c))"
proof (induction c arbitrary: p s opn order)
  case (Cons m ms)
  then have fits: "turn_fits (p, s, opn) m"
    and rest: "run_turns (Some (msg_role m), s \<union> set (uses_of m), set (uses_of m)) ms = Some (p', s', opn')"
    by (auto split: if_splits)
  show ?case
    using Cons.IH[OF rest] by (simp add: dangling_scan_append dangling_scan_turn[OF fits Cons.prems(2)])
qed auto

lemma filter_distinct_suffix:
  "distinct (xs @ ys) \<Longrightarrow> filter (\<lambda>x. x \<in> set ys) (xs @ ys) = ys"
  by (auto simp: filter_id_conv filter_empty_conv)

text \<open>Up to its last turn a well-formed transcript leaves open exactly the calls of that turn.\<close>

lemma dangling_last:
  assumes "run_turns start_state c = Some (p, s, opn)" and "c \<noteq> []"
  shows "dangling c = uses_of (last c)"
proof -
  obtain xs l where c: "c = xs @ [l]" using assms(2) by (meson rev_exhaust)
  have "distinct (concat (map uses_of c))"
    using run_turns_declarative[of None "{}" "{}" c] assms(1) by blast
  then have "filter (\<lambda>x. x \<in> set (uses_of l)) (concat (map uses_of xs) @ uses_of l) = uses_of l"
    unfolding c by (intro filter_distinct_suffix) simp
  then show ?thesis
    using dangling_scan_run[OF assms(1), of "[]"] run_turns_last[OF assms]
    by (simp add: dangling_def c)
qed

lemma validate_dangling: "validate c = None \<Longrightarrow> dangling c = []"
  using dangling_last run_turns_last by (fastforce simp: validate_run opens_with_user_def)

section \<open>Repairing a transcript\<close>

text \<open>
  A transcript that is well-formed up to unanswered calls of its last turn; what a cancelled or
  paused run leaves behind.
\<close>

definition resumable :: "convo \<Rightarrow> bool" where
  "resumable c \<longleftrightarrow> opens_with_user c \<and> (\<exists>st. run_turns start_state c = Some st)"

lemma validate_resumable: "validate c = None \<Longrightarrow> resumable c"
  by (auto simp: validate_run resumable_def)

lemma resumable_answered:
  assumes "resumable c" and "bs \<noteq> []"
    and "use_ids bs = []" and "result_ids bs = dangling c"
  shows "validate (append_msg c \<lparr>msg_role = RoleUser, msg_content = bs\<rparr>) = None"
proof -
  let ?m = "\<lparr>msg_role = RoleUser, msg_content = bs\<rparr> :: message"
  from assms(1) obtain p s opn where c: "c \<noteq> []" and opens: "opens_with_user c"
    and run: "run_turns start_state c = Some (p, s, opn)"
    by (auto simp: resumable_def opens_with_user_def)
  note dang = dangling_last[OF run c] and lst = run_turns_last[OF run c]
  have dist: "distinct (uses_of (last c))"
    using run_turns_declarative[of None "{}" "{}" c] run c
    by (metis append_butlast_last_id concat_append concat.simps distinct_append list.simps(8,9) map_append append_Nil2)
  have "\<exists>p s. run_turns start_state (append_msg c ?m) = Some (p, s, {})"
  proof (cases "opn = {}")
    case True
    with run c assms(3,4) dang lst show ?thesis using append_msg_plain[of start_state c p s ?m] by auto
  next
    case False
    with lst have "msg_role (last c) = RoleAssistant" by (auto simp: roles_ok_def)
    then have "run_turns start_state (append_msg c ?m) = Some (Some RoleUser, s \<union> set (uses_of ?m), set (uses_of ?m))"
      using append_msg_other_role[OF run c, of ?m] assms dang lst dist by (auto simp: roles_ok_def)
    then show ?thesis using assms(3) by auto
  qed
  with opens append_msg_opens show ?thesis by (auto simp: validate_run)
qed

lemma close_dangling_valid:
  assumes "resumable c" and "use_ids extra = []" and "result_ids extra = []"
  shows "validate (close_dangling c ack extra) = None"
proof (cases "dangling c = [] \<and> extra = []")
  case True
  from assms(1) obtain p s opn where "c \<noteq> []" "opens_with_user c" "run_turns start_state c = Some (p, s, opn)"
    by (auto simp: resumable_def opens_with_user_def)
  with True show ?thesis
    using dangling_last[of c p s opn] run_turns_last[of start_state c p s opn]
    by (auto simp: close_dangling_def validate_run)
next
  case False
  then show ?thesis
    using resumable_answered[OF assms(1), of "map (ack_block ack) (dangling c) @ extra"] assms(2,3)
    by (auto simp: close_dangling_def Let_def)
qed

lemma then_instruction_valid:
  assumes "resumable c"
  shows "validate (then_instruction c s) = None"
proof (cases "dangling c = []")
  case True
  then show ?thesis
    using resumable_answered[OF assms, of "[Text s]"]
    by (simp add: then_instruction_def push_user_text_def user_text_def)
next
  case False
  then show ?thesis using close_dangling_valid[OF assms] by (simp add: then_instruction_def)
qed

lemma answer_pause_valid:
  assumes "resumable c" and "i \<in> set (dangling c)"
  shows "validate (answer_pause c i a) = None"
proof -
  have "dangling c \<noteq> []" using assms(2) by auto
  then show ?thesis
    using resumable_answered[OF assms(1), of "map (answer_block i a) (dangling c)"] assms(2)
    by (simp add: answer_pause_def push_tool_results_def Let_def)
qed

section \<open>Properties\<close>

text \<open>C4: The validator decides the declarative specification: it reports no error exactly on the
  transcripts that are non-empty, start with the user, alternate, keep calls in assistant turns and
  results in user turns, never reuse an id, and answer every call of a turn exactly once, in the next
  turn.\<close>

theorem validate_decides_wf: "validate c = None \<longleftrightarrow> wf_convo c"
  by (rule validate_iff_wf)

text \<open>A transcript cut off anywhere in a valid conversation can be resumed: adding an instruction,
  or answering one of its open calls, gives a transcript that validates.\<close>

theorem resume_repairs_transcript:
  assumes "resumable c"
  shows "validate (then_instruction c s) = None \<and> validate (close_dangling c ack []) = None \<and>
    (i \<notin> set (dangling c) \<or> validate (answer_pause c i a) = None)"
  using then_instruction_valid[OF assms] close_dangling_valid[OF assms, of "[]"]
    answer_pause_valid[OF assms] by auto

definition paused_convo :: convo where
  "paused_convo = [user_text ''deploy?'',
     \<lparr>msg_role = RoleAssistant,
      msg_content = [ToolUse \<lparr>tu_id = ''a'', tu_name = ''ask_user'', tu_input = []\<rparr>]\<rparr>]"

theorem resume_repairs_transcript_witness:
  "validate (answer_pause paused_convo ''a'' ''yes'') = None"
proof -
  have "resumable paused_convo"
    by (simp add: paused_convo_def user_text_def resumable_def opens_with_user_def roles_ok_def)
  moreover have "''a'' \<in> set (dangling paused_convo)"
    by (simp add: paused_convo_def user_text_def dangling_def)
  ultimately show ?thesis
    using resume_repairs_transcript[of paused_convo "[]" "[]" "''a''" "''yes''"] by blast
qed

text \<open>On a transcript that can be resumed the open calls are exactly the calls of its last turn,
  in order and without repetition; on a valid one there are none.\<close>

theorem dangling_calls_exact:
  assumes "resumable c"
  shows "dangling c = uses_of (last c) \<and> distinct (dangling c) \<and>
    (validate c \<noteq> None \<or> dangling c = [])"
proof -
  from assms obtain p s opn where c: "c \<noteq> []" and run: "run_turns start_state c = Some (p, s, opn)"
    by (auto simp: resumable_def opens_with_user_def)
  have "distinct (uses_of (last c))"
    using run_turns_declarative[of None "{}" "{}" c] run c
    by (metis append_butlast_last_id concat_append concat.simps distinct_append list.simps(8,9)
        map_append append_Nil2)
  with dangling_last[OF run c] validate_dangling[of c] show ?thesis by auto
qed

theorem dangling_calls_exact_witness: "dangling paused_convo = [''a'']"
  using dangling_calls_exact[of paused_convo]
  by (simp add: paused_convo_def user_text_def resumable_def opens_with_user_def roles_ok_def)

end
