(* ===== verification/Governor.thy ===== *)
theory Governor
  imports Prelude Errors "HOL-Library.Multiset"
begin

text \<open>
  The run budget (\<^verbatim>\<open>governor/governor.go\<close>) and the tool-call wrapper that charges it
  (\<^verbatim>\<open>budget.go\<close>, \<^verbatim>\<open>budgetToolCalls\<close>). The mutex makes every operation atomic, so a run
  is a sequence of operations in any order. Cancellation of the governed context is the field
  \<open>b_cause\<close>: the first cause is kept, as \<^verbatim>\<open>context.WithCancelCause\<close> does. Dollars are real
  numbers (the rounding of \<^verbatim>\<open>float64\<close> is not modelled) and counters are unbounded integers.
\<close>

section \<open>State\<close>

definition ErrBudgetExhausted :: err where
  [sentinel_defs]: "ErrBudgetExhausted = Sentinel ''governor: cost budget exhausted''"
definition ErrStepLimit :: err where
  [sentinel_defs]: "ErrStepLimit = Sentinel ''governor: step limit reached''"
definition ErrWallClock :: err where
  [sentinel_defs]: "ErrWallClock = Sentinel ''governor: wall-clock limit reached''"
definition ErrToolCallLimit :: err where
  [sentinel_defs]: "ErrToolCallLimit = Sentinel ''governor: tool-call limit reached''"
definition ErrToolLoop :: err where
  [sentinel_defs]: "ErrToolLoop = Sentinel ''governor: repeated identical tool call limit reached''"

record limits =
  l_cost_usd :: real
  l_steps :: int
  l_wall :: int
  l_tool_calls :: int
  l_subagent_depth :: int
  l_repeated_tool_calls :: int

record tokens =
  t_in :: int
  t_out :: int
  t_cache_write :: int
  t_cache_read :: int

record budget =
  b_limits :: limits
  b_start :: int
  b_cause :: "err option"
  b_usd :: real
  b_calls :: int
  b_steps :: int
  b_tool_calls :: int
  b_depth :: int
  b_tokens :: tokens
  b_last_call :: string
  b_repeat_run :: int

definition zero_tokens :: tokens where
  "zero_tokens = \<lparr>t_in = 0, t_out = 0, t_cache_write = 0, t_cache_read = 0\<rparr>"

definition with_budget :: "limits \<Rightarrow> int \<Rightarrow> budget" where
  "with_budget l now = \<lparr>b_limits = l, b_start = now, b_cause = None, b_usd = 0, b_calls = 0,
     b_steps = 0, b_tool_calls = 0, b_depth = 0, b_tokens = zero_tokens, b_last_call = [],
     b_repeat_run = 0\<rparr>"

section \<open>Operations\<close>

definition abort :: "err \<Rightarrow> budget \<Rightarrow> budget" where
  "abort reason b = (case b_cause b of None \<Rightarrow> b\<lparr>b_cause := Some reason\<rparr> | Some _ \<Rightarrow> b)"

definition add_tokens :: "tokens \<Rightarrow> tokens \<Rightarrow> tokens" where
  "add_tokens s t = \<lparr>t_in = t_in s + t_in t, t_out = t_out s + t_out t,
     t_cache_write = t_cache_write s + t_cache_write t,
     t_cache_read = t_cache_read s + t_cache_read t\<rparr>"

definition add_call :: "real \<Rightarrow> tokens \<Rightarrow> budget \<Rightarrow> budget" where
  "add_call usd t b =
     (let b = b\<lparr>b_usd := b_usd b + usd, b_calls := b_calls b + 1,
               b_tokens := add_tokens (b_tokens b) t\<rparr> in
      if l_cost_usd (b_limits b) > 0 \<and> b_usd b \<ge> l_cost_usd (b_limits b)
      then abort ErrBudgetExhausted b else b)"

definition budget_step :: "budget \<Rightarrow> budget" where
  "budget_step b =
     (let b = b\<lparr>b_steps := b_steps b + 1\<rparr> in
      if l_steps (b_limits b) > 0 \<and> b_steps b \<ge> l_steps (b_limits b)
      then abort ErrStepLimit b else b)"

definition add_tool_call :: "string \<Rightarrow> budget \<Rightarrow> budget" where
  "add_tool_call key b =
     (let b = b\<lparr>b_tool_calls := b_tool_calls b + 1\<rparr>;
          b = (if l_tool_calls (b_limits b) > 0 \<and> b_tool_calls b \<ge> l_tool_calls (b_limits b)
               then abort ErrToolCallLimit b else b)
      in if key = [] then b\<lparr>b_last_call := [], b_repeat_run := 0\<rparr>
         else
           (let b = (if key = b_last_call b then b\<lparr>b_repeat_run := b_repeat_run b + 1\<rparr>
                     else b\<lparr>b_last_call := key, b_repeat_run := 1\<rparr>)
            in if l_repeated_tool_calls (b_limits b) > 0 \<and>
                  b_repeat_run b \<ge> l_repeated_tool_calls (b_limits b)
               then abort ErrToolLoop b else b))"

definition enter_subagent :: "budget \<Rightarrow> bool \<times> budget" where
  "enter_subagent b =
     (if l_subagent_depth (b_limits b) > 0 \<and> b_depth b \<ge> l_subagent_depth (b_limits b)
      then (False, b) else (True, b\<lparr>b_depth := b_depth b + 1\<rparr>))"

definition exit_subagent :: "budget \<Rightarrow> budget" where
  "exit_subagent b = (if b_depth b > 0 then b\<lparr>b_depth := b_depth b - 1\<rparr> else b)"

text \<open>
  The context side: the deadline of \<^verbatim>\<open>WithDeadlineCause\<close> (armed only by a positive wall
  limit) and the cancel function \<^verbatim>\<open>WithBudget\<close> returns.
\<close>

definition wall_clock :: "int \<Rightarrow> budget \<Rightarrow> budget" where
  "wall_clock now b =
     (if l_wall (b_limits b) > 0 \<and> now \<ge> b_start b + l_wall (b_limits b)
      then abort ErrWallClock b else b)"

definition release_budget :: "budget \<Rightarrow> budget" where
  "release_budget b = abort ErrCanceled b"

datatype budget_op =
    OpCall real tokens
  | OpStep
  | OpToolCall string
  | OpEnter
  | OpExit
  | OpWall int
  | OpRelease
  | OpParent err

fun apply_op :: "budget \<Rightarrow> budget_op \<Rightarrow> budget" where
  "apply_op b (OpCall u t) = add_call u t b"
| "apply_op b OpStep = budget_step b"
| "apply_op b (OpToolCall k) = add_tool_call k b"
| "apply_op b OpEnter = snd (enter_subagent b)"
| "apply_op b OpExit = exit_subagent b"
| "apply_op b (OpWall now) = wall_clock now b"
| "apply_op b OpRelease = release_budget b"
| "apply_op b (OpParent e) = abort e b"

definition run_budget :: "budget \<Rightarrow> budget_op list \<Rightarrow> budget" where
  "run_budget b ops = foldl apply_op b ops"

section \<open>Progress\<close>

record progress =
  p_limits :: limits
  p_cost_usd :: real
  p_calls :: int
  p_steps :: int
  p_tool_calls :: int
  p_depth :: int
  p_tokens :: tokens
  p_elapsed :: int
  p_repeats :: int

definition progress_of :: "int \<Rightarrow> budget \<Rightarrow> progress" where
  "progress_of now b = \<lparr>p_limits = b_limits b, p_cost_usd = b_usd b, p_calls = b_calls b,
     p_steps = b_steps b, p_tool_calls = b_tool_calls b, p_depth = b_depth b,
     p_tokens = b_tokens b, p_elapsed = now - b_start b, p_repeats = b_repeat_run b\<rparr>"

definition cost_fraction :: "progress \<Rightarrow> real" where
  "cost_fraction p =
     (if l_cost_usd (p_limits p) \<le> 0 then 0 else p_cost_usd p / l_cost_usd (p_limits p))"

definition consider_cap :: "real \<Rightarrow> real \<Rightarrow> real \<Rightarrow> real" where
  "consider_cap used cap worst = (if cap > 0 then max worst (used / cap) else worst)"

definition fraction :: "progress \<Rightarrow> real" where
  "fraction p =
     (let l = p_limits p;
          w = consider_cap (p_cost_usd p) (l_cost_usd l) 0;
          w = consider_cap (of_int (p_steps p)) (of_int (l_steps l)) w;
          w = consider_cap (of_int (p_tool_calls p)) (of_int (l_tool_calls l)) w
      in consider_cap (of_int (p_elapsed p) / 10^9) (of_int (l_wall l) / 10^9) w)"

text \<open>The guard of \<^verbatim>\<open>NoticeAt\<close>: a notice is emitted unless the fraction is below the threshold.\<close>

definition notice_due :: "real \<Rightarrow> progress \<Rightarrow> bool" where
  "notice_due threshold p = (\<not> fraction p < threshold)"

section \<open>Charging tool calls (budget.go)\<close>

definition call_key :: "string \<Rightarrow> string \<Rightarrow> string" where
  "call_key name input = name @ [CHR 0x00] @ input"

definition budget_tool_calls :: "(string \<Rightarrow> string \<Rightarrow> budget \<times> 'w \<Rightarrow> (err + string) \<times> budget \<times> 'w)
    \<Rightarrow> string \<Rightarrow> string \<Rightarrow> budget \<times> 'w \<Rightarrow> (err + string) \<times> budget \<times> 'w" where
  "budget_tool_calls nxt name input st =
     (case st of (b, w) \<Rightarrow>
        (case b_cause b of
           Some e \<Rightarrow> (Inl e, b, w)
         | None \<Rightarrow>
             (let b = add_tool_call (call_key name input) b in
              case b_cause b of
                Some e \<Rightarrow> (Inl e, b, w)
              | None \<Rightarrow> nxt name input (b, w))))"

text \<open>
  The same wrapper cut at its atomic actions, for calls running side by side: each entry of a pool
  is one call and \<open>pool_step\<close> lets any of them advance, or the rest of the run act on the budget.
\<close>

datatype call_phase =
    Arriving string string
  | Checked string string
  | Counted string string
  | Started string string
  | Refused err

fun call_advance :: "call_phase \<Rightarrow> budget \<Rightarrow> (call_phase \<times> budget) option" where
  "call_advance (Arriving n i) b =
     (case b_cause b of Some e \<Rightarrow> Some (Refused e, b) | None \<Rightarrow> Some (Checked n i, b))"
| "call_advance (Checked n i) b = Some (Counted n i, add_tool_call (call_key n i) b)"
| "call_advance (Counted n i) b =
     (case b_cause b of Some e \<Rightarrow> Some (Refused e, b) | None \<Rightarrow> Some (Started n i, b))"
| "call_advance (Started n i) b = None"
| "call_advance (Refused e) b = None"

inductive pool_step :: "budget \<times> call_phase list \<Rightarrow> budget \<times> call_phase list \<Rightarrow> bool" where
  advance: "i < length pool \<Longrightarrow> call_advance (pool ! i) b = Some (c, b') \<Longrightarrow>
     pool_step (b, pool) (b', pool[i := c])"
| arrive: "pool_step (b, pool) (b, pool @ [Arriving n inp])"
| other: "(\<And>k. op \<noteq> OpToolCall k) \<Longrightarrow> pool_step (b, pool) (apply_op b op, pool)"

inductive_cases pool_stepE: "pool_step (b, pool) (b', pool')"

fun is_started :: "call_phase \<Rightarrow> bool" where
  "is_started (Started _ _) = True"
| "is_started _ = False"

section \<open>Facts\<close>

lemmas budget_defs = add_call_def budget_step_def add_tool_call_def enter_subagent_def
  exit_subagent_def wall_clock_def release_budget_def abort_def Let_def

lemma abort_fields [simp]:
  "b_limits (abort e b) = b_limits b" "b_usd (abort e b) = b_usd b"
  "b_steps (abort e b) = b_steps b" "b_tool_calls (abort e b) = b_tool_calls b"
  "b_depth (abort e b) = b_depth b" "b_calls (abort e b) = b_calls b"
  "b_tokens (abort e b) = b_tokens b" "b_repeat_run (abort e b) = b_repeat_run b"
  "b_last_call (abort e b) = b_last_call b" "b_start (abort e b) = b_start b"
  "b_cause (abort e b) \<noteq> None"
  by (auto simp: abort_def split: option.splits)

lemma abort_sticky: "b_cause b = Some e \<Longrightarrow> abort r b = b"
  by (simp add: abort_def)

lemma apply_op_limits [simp]: "b_limits (apply_op b op) = b_limits b"
  by (cases op) (auto simp: budget_defs split: option.splits)

text \<open>The first cause wins.\<close>

lemma add_tool_call_sticky: "b_cause b = Some e \<Longrightarrow> b_cause (add_tool_call k b) = Some e"
  by (simp add: add_tool_call_def abort_def Let_def)

lemma apply_op_sticky: "b_cause b = Some e \<Longrightarrow> b_cause (apply_op b op) = Some e"
  by (cases op) (auto simp: budget_defs split: option.splits)

lemma run_budget_sticky: "b_cause b = Some e \<Longrightarrow> b_cause (run_budget b ops) = Some e"
  unfolding run_budget_def by (induction ops arbitrary: b) (auto simp: apply_op_sticky)

lemma run_budget_append: "run_budget b (xs @ ys) = run_budget (run_budget b xs) ys"
  by (simp add: run_budget_def)

lemma run_budget_snoc: "run_budget b (xs @ [x]) = apply_op (run_budget b xs) x"
  by (simp add: run_budget_def)

text \<open>A counter at its cap means the run is cancelled, and nesting stays within its own cap.\<close>

definition caps_hold :: "budget \<Rightarrow> bool" where
  "caps_hold b \<longleftrightarrow>
     (l_cost_usd (b_limits b) > 0 \<and> b_usd b \<ge> l_cost_usd (b_limits b) \<or>
      l_steps (b_limits b) > 0 \<and> b_steps b \<ge> l_steps (b_limits b) \<or>
      l_tool_calls (b_limits b) > 0 \<and> b_tool_calls b \<ge> l_tool_calls (b_limits b) \<or>
      l_repeated_tool_calls (b_limits b) > 0 \<and> b_repeat_run b \<ge> l_repeated_tool_calls (b_limits b)
      \<longrightarrow> b_cause b \<noteq> None) \<and>
     0 \<le> b_depth b \<and>
     (l_subagent_depth (b_limits b) > 0 \<longrightarrow> b_depth b \<le> l_subagent_depth (b_limits b))"

lemma caps_hold_start: "caps_hold (with_budget l now)"
  by (auto simp: caps_hold_def with_budget_def)

lemma caps_hold_op: "caps_hold b \<Longrightarrow> caps_hold (apply_op b op)"
proof (cases op)
  case (OpToolCall k)
  then show "caps_hold b \<Longrightarrow> ?thesis"
    by (cases "b_cause b"; cases "k = []"; cases "k = b_last_call b")
      (auto simp: caps_hold_def add_tool_call_def abort_def Let_def)
qed (auto simp: caps_hold_def budget_defs split: option.splits)

lemma caps_hold_run: "caps_hold b \<Longrightarrow> caps_hold (run_budget b ops)"
  unfolding run_budget_def by (induction ops arbitrary: b) (auto simp: caps_hold_op)

text \<open>Spend and token totals of a sequence of operations.\<close>

fun op_usd :: "budget_op \<Rightarrow> real" where
  "op_usd (OpCall u _) = u"
| "op_usd _ = 0"

fun op_tool_call :: "budget_op \<Rightarrow> string option" where
  "op_tool_call (OpToolCall k) = Some k"
| "op_tool_call _ = None"

definition tool_keys :: "budget_op list \<Rightarrow> string list" where
  "tool_keys ops = List.map_filter op_tool_call ops"

lemma apply_op_usd: "b_usd (apply_op b op) = b_usd b + op_usd op"
  by (cases op) (auto simp: budget_defs split: option.splits)

lemma run_budget_usd: "b_usd (run_budget b ops) = b_usd b + sum_list (map op_usd ops)"
  unfolding run_budget_def by (induction ops arbitrary: b) (auto simp: apply_op_usd)

lemma apply_op_counts:
  "b_calls (apply_op b op) = b_calls b + (case op of OpCall _ _ \<Rightarrow> 1 | _ \<Rightarrow> 0)"
  "b_steps (apply_op b op) = b_steps b + (if op = OpStep then 1 else 0)"
  "b_tool_calls (apply_op b op) = b_tool_calls b + (if op_tool_call op = None then 0 else 1)"
  by (cases op; auto simp: budget_defs split: option.splits)+

lemma run_budget_counts:
  "b_steps (run_budget b ops) = b_steps b + int (length (filter (\<lambda>op. op = OpStep) ops))"
  "b_tool_calls (run_budget b ops) = b_tool_calls b + int (length (tool_keys ops))"
  unfolding run_budget_def tool_keys_def
  by (induction ops arbitrary: b) (auto simp: apply_op_counts List.map_filter_simps split: option.splits)

text \<open>Any order of the same operations charges the same amounts.\<close>

lemma run_budget_perm_usd:
  assumes "mset ops = mset ops'"
  shows "b_usd (run_budget b ops) = b_usd (run_budget b ops')"
proof -
  have "sum_list (map op_usd ops) = sum_list (map op_usd ops')"
    by (metis assms mset_map sum_mset_sum_list)
  then show ?thesis by (simp add: run_budget_usd)
qed

section \<open>Loop detection\<close>

text \<open>The specification: how many times the last key ends the sequence, nothing for the empty key.\<close>

definition trailing_run :: "string list \<Rightarrow> nat" where
  "trailing_run ks =
     (if ks = [] \<or> last ks = [] then 0 else length (takeWhile (\<lambda>k. k = last ks) (rev ks)))"

lemma trailing_run_snoc:
  "trailing_run (ks @ [k]) =
     (if k = [] then 0 else if ks \<noteq> [] \<and> last ks = k then trailing_run ks + 1 else 1)"
  by (cases ks rule: rev_cases) (auto simp: trailing_run_def)

lemma trailing_run_Nil [simp]: "trailing_run [] = 0"
  by (simp add: trailing_run_def)

lemma add_tool_call_fields:
  "b_last_call (add_tool_call k b) = k"
  "b_repeat_run (add_tool_call k b) =
     (if k = [] then 0 else if k = b_last_call b then b_repeat_run b + 1 else 1)"
  "b_tool_calls (add_tool_call k b) = b_tool_calls b + 1"
  "b_limits (add_tool_call k b) = b_limits b"
  by (auto simp: add_tool_call_def Let_def)

lemma repeat_state:
  assumes "b_last_call b = [] \<and> b_repeat_run b = 0"
  shows "b_repeat_run (run_budget b ops) = int (trailing_run (tool_keys ops)) \<and>
    b_last_call (run_budget b ops) = (if tool_keys ops = [] then [] else last (tool_keys ops))"
proof (induction ops rule: rev_induct)
  case Nil
  with assms show ?case by (simp add: run_budget_def tool_keys_def trailing_run_def map_filter_simps)
next
  case (snoc op ops)
  have keys: "tool_keys (ops @ [op]) =
      tool_keys ops @ (case op_tool_call op of Some k \<Rightarrow> [k] | None \<Rightarrow> [])"
    by (simp add: tool_keys_def map_filter_def split: option.splits)
  show ?case
  proof (cases op)
    case (OpToolCall k)
    with snoc keys show ?thesis
      by (auto simp: run_budget_snoc add_tool_call_fields trailing_run_snoc)
  qed (use snoc keys in \<open>auto simp: run_budget_snoc budget_defs split: option.splits\<close>)
qed

section \<open>Calls side by side\<close>

fun is_counted :: "call_phase \<Rightarrow> bool" where
  "is_counted (Counted _ _) = True"
| "is_counted (Started _ _) = True"
| "is_counted _ = False"

definition started :: "call_phase list \<Rightarrow> nat" where
  "started pool = length (filter is_started pool)"

definition counted :: "call_phase list \<Rightarrow> nat" where
  "counted pool = length (filter is_counted pool)"

text \<open>
  The pool invariant: calls past the counter are covered by the counter, and those that were let
  through stayed below the limit.
\<close>

definition pool_ok :: "int \<Rightarrow> budget \<times> call_phase list \<Rightarrow> bool" where
  "pool_ok n st = (case st of (b, pool) \<Rightarrow>
     l_tool_calls (b_limits b) = n \<and> caps_hold b \<and>
     int (counted pool) \<le> b_tool_calls b \<and> int (started pool) < n)"

lemma filter_update_length:
  "i < length xs \<Longrightarrow>
   length (filter P (xs[i := y])) + (if P (xs ! i) then 1 else 0) =
   length (filter P xs) + (if P y then 1 else 0)"
proof (induction xs arbitrary: i)
  case (Cons x xs)
  then show ?case by (cases i) auto
qed simp

lemma started_le_counted: "started pool \<le> counted pool"
  unfolding started_def counted_def
  by (induction pool) (auto elim: is_started.elims)

lemma apply_op_other_calls: "(\<And>k. op \<noteq> OpToolCall k) \<Longrightarrow> b_tool_calls (apply_op b op) = b_tool_calls b"
  by (cases op) (auto simp: budget_defs split: option.splits)

lemma pool_step_ok:
  assumes "pool_step st st'" and "0 < n" and "pool_ok n st"
  shows "pool_ok n st'"
  using assms(1,3)
proof (cases rule: pool_step.cases)
  case (advance i pool b c b')
  note up = filter_update_length[OF advance(3), of is_started c]
    filter_update_length[OF advance(3), of is_counted c]
  have inv: "l_tool_calls (b_limits b) = n" "caps_hold b" "int (counted pool) \<le> b_tool_calls b"
    "int (started pool) < n" using assms(3) advance(1) by (auto simp: pool_ok_def)
  show ?thesis
  proof (cases "pool ! i")
    case (Arriving nm inp)
    with advance(4) have "b' = b" "\<not> is_started c" "\<not> is_counted c" by (auto split: option.splits)
    with up inv Arriving advance(2) show ?thesis by (simp add: pool_ok_def started_def counted_def)
  next
    case (Checked nm inp)
    with advance(4) have b': "b' = add_tool_call (call_key nm inp) b" "c = Counted nm inp" by auto
    moreover have "caps_hold b'" using caps_hold_op[OF inv(2), of "OpToolCall (call_key nm inp)"] b' by simp
    ultimately show ?thesis
      using up inv Checked advance(2)
      by (simp add: pool_ok_def started_def counted_def add_tool_call_fields)
  next
    case (Counted nm inp)
    show ?thesis
    proof (cases "b_cause b")
      case None
      with inv(1,2) assms(2) have "b_tool_calls b < n" by (auto simp: caps_hold_def)
      moreover from None Counted advance(4) have b': "b' = b" "c = Started nm inp" by auto
      ultimately show ?thesis
        using up inv Counted advance(2) started_le_counted[of "pool[i := c]"]
        by (simp add: pool_ok_def started_def counted_def)
    next
      case (Some e)
      with Counted advance(4) have "b' = b" "\<not> is_started c" "\<not> is_counted c" by auto
      with up inv Counted advance(2) show ?thesis by (simp add: pool_ok_def started_def counted_def)
    qed
  qed (use advance(4) in auto)
next
  case (arrive b pool nm inp)
  with assms(3) show ?thesis by (auto simp: pool_ok_def started_def counted_def)
next
  case (other op b pool)
  with assms(3) show ?thesis
    by (auto simp: pool_ok_def caps_hold_op apply_op_other_calls)
qed

lemma pool_reach_ok:
  assumes "pool_step\<^sup>*\<^sup>* (with_budget l now, []) st" and "l_tool_calls l = n" and "0 < n"
  shows "pool_ok n st"
  using assms(1)
proof (induction rule: rtranclp_induct)
  case base
  show ?case using assms(2,3) caps_hold_start[of l now]
    by (simp add: pool_ok_def started_def counted_def with_budget_def)
qed (use assms(3) pool_step_ok in blast)

text \<open>Run by itself the wrapper is the same machine taken to its end.\<close>

fun call_finish :: "nat \<Rightarrow> call_phase \<Rightarrow> budget \<Rightarrow> call_phase \<times> budget" where
  "call_finish 0 c b = (c, b)"
| "call_finish (Suc k) c b =
     (case call_advance c b of None \<Rightarrow> (c, b) | Some (c', b') \<Rightarrow> call_finish k c' b')"

lemma budget_tool_calls_phases:
  "budget_tool_calls nxt name input (b, w) =
     (case call_finish 3 (Arriving name input) b of
        (Started n i, b') \<Rightarrow> nxt n i (b', w)
      | (Refused e, b') \<Rightarrow> (Inl e, b', w)
      | (_, b') \<Rightarrow> undefined)"
  by (auto simp: budget_tool_calls_def numeral_3_eq_3 Let_def add_tool_call_sticky split: option.splits)

lemma consider_cap_ge: "worst \<le> consider_cap used cap worst"
  by (simp add: consider_cap_def)

lemma consider_cap_iff:
  "t > 0 \<Longrightarrow> t \<le> consider_cap used cap worst \<longleftrightarrow> t \<le> worst \<or> cap > 0 \<and> t * cap \<le> used"
  by (auto simp: consider_cap_def le_max_iff_disj pos_le_divide_eq)

section \<open>Properties\<close>

text \<open>C6: Whatever operations a run performs and in whatever order, once the spend, the steps, the
  tool calls or the run of identical calls has reached its cap the context carries a cause; and the
  nesting depth never leaves the range from zero to its cap, with no cause needed for that.\<close>

theorem budget_caps_enforced:
  "caps_hold (run_budget (with_budget l now) ops)"
  by (rule caps_hold_run[OF caps_hold_start])

text \<open>The cause of a cancelled run is the first one: nothing that happens afterwards replaces it.\<close>

theorem budget_first_cause:
  assumes "b_cause (run_budget (with_budget l now) ops) = Some e"
  shows "b_cause (run_budget (with_budget l now) (ops @ later)) = Some e"
  using assms by (simp add: run_budget_append run_budget_sticky)

definition two_step_limits :: limits where
  "two_step_limits = \<lparr>l_cost_usd = 0, l_steps = 2, l_wall = 0, l_tool_calls = 0,
     l_subagent_depth = 0, l_repeated_tool_calls = 0\<rparr>"

theorem budget_first_cause_witness:
  "b_cause (run_budget (with_budget two_step_limits 0) ([OpStep, OpStep] @ [OpRelease])) = Some ErrStepLimit"
  by (rule budget_first_cause)
    (simp add: run_budget_def with_budget_def two_step_limits_def budget_defs)

text \<open>The loop counter of the budget is exactly the length of the trailing run of identical
  non-empty keys among the tool calls so far, whatever other operations came between, and when that
  run reaches the cap the run is cancelled.\<close>

theorem budget_loop_detection:
  "b_repeat_run (run_budget (with_budget l now) ops) = int (trailing_run (tool_keys ops)) \<and>
   (l_repeated_tool_calls l \<le> 0 \<or> int (trailing_run (tool_keys ops)) < l_repeated_tool_calls l \<or>
    b_cause (run_budget (with_budget l now) ops) \<noteq> None)"
proof -
  have lim: "b_limits (run_budget (with_budget l now) ops) = l"
    unfolding run_budget_def by (induction ops rule: rev_induct) (auto simp: with_budget_def)
  have "b_repeat_run (run_budget (with_budget l now) ops) = int (trailing_run (tool_keys ops))"
    by (rule repeat_state[THEN conjunct1]) (simp add: with_budget_def)
  with caps_hold_run[OF caps_hold_start, of l now ops] lim show ?thesis
    by (auto simp: caps_hold_def)
qed

definition loop_limits :: limits where
  "loop_limits = \<lparr>l_cost_usd = 0, l_steps = 0, l_wall = 0, l_tool_calls = 0,
     l_subagent_depth = 0, l_repeated_tool_calls = 2\<rparr>"

theorem budget_loop_detection_witness:
  "b_repeat_run (run_budget (with_budget loop_limits 0) [OpToolCall ''k'', OpStep, OpToolCall ''k'']) = 2 \<and>
   b_cause (run_budget (with_budget loop_limits 0) [OpToolCall ''k'', OpStep, OpToolCall ''k'']) \<noteq> None"
  using budget_loop_detection[of loop_limits 0 "[OpToolCall ''k'', OpStep, OpToolCall ''k'']"]
  by (simp add: loop_limits_def tool_keys_def trailing_run_def List.map_filter_simps)

text \<open>With a tool-call cap of n, at most n - 1 handlers are ever started, in every interleaving
  of concurrent calls with each other and with the rest of the run: the n-th call to be counted
  cancels the run before its handler is reached.\<close>

theorem parallel_tool_call_cap:
  assumes "pool_step\<^sup>*\<^sup>* (with_budget l now, []) (b, pool)" and "0 < l_tool_calls l"
  shows "int (started pool) < l_tool_calls l"
  using pool_reach_ok[OF assms(1) refl assms(2)] by (simp add: pool_ok_def)

definition one_call_limits :: limits where
  "one_call_limits = \<lparr>l_cost_usd = 0, l_steps = 0, l_wall = 0, l_tool_calls = 1,
     l_subagent_depth = 0, l_repeated_tool_calls = 0\<rparr>"

theorem parallel_tool_call_cap_witness:
  "int (started [Arriving ''ls'' []]) < l_tool_calls one_call_limits"
proof (rule parallel_tool_call_cap)
  show "pool_step\<^sup>*\<^sup>* (with_budget one_call_limits 0, [])
      (with_budget one_call_limits 0, [Arriving ''ls'' []])"
    by (rule r_into_rtranclp) (use pool_step.arrive[of _ "[]" "''ls''" "[]"] in simp)
qed (simp add: one_call_limits_def)

text \<open>A notice is due exactly when one of the capped dimensions (cost, steps, tool calls, wall
  clock) has used at least the threshold share of its cap.\<close>

theorem notice_due_iff:
  assumes "0 < t"
  shows "notice_due t p \<longleftrightarrow>
    0 < l_cost_usd (p_limits p) \<and> t * l_cost_usd (p_limits p) \<le> p_cost_usd p \<or>
    0 < l_steps (p_limits p) \<and> t * of_int (l_steps (p_limits p)) \<le> of_int (p_steps p) \<or>
    0 < l_tool_calls (p_limits p) \<and>
      t * of_int (l_tool_calls (p_limits p)) \<le> of_int (p_tool_calls p) \<or>
    0 < l_wall (p_limits p) \<and> t * of_int (l_wall (p_limits p)) \<le> of_int (p_elapsed p)"
  using assms
  by (auto simp: notice_due_def fraction_def Let_def not_less consider_cap_iff)

theorem notice_due_witness:
  "notice_due (1/2) (progress_of 0 (budget_step (with_budget two_step_limits 0)))"
  using notice_due_iff[of "1/2" "progress_of 0 (budget_step (with_budget two_step_limits 0))"]
  by (simp add: progress_of_def with_budget_def two_step_limits_def budget_defs)

end
