(* ===== verification/Json.thy ===== *)
theory Json
  imports Prelude
begin

text \<open>
  The part of \<^verbatim>\<open>encoding/json\<close> the program relies on: a value type, the parser behind
  \<^verbatim>\<open>json.Valid\<close> and \<^verbatim>\<open>json.Unmarshal\<close>, the compact renderer behind an encoder with HTML
  escaping off, and the round trip between them. Numbers keep their text. Strings are bytes; the
  replacement of malformed UTF-8 and the escapes of U+2028 and U+2029 are not modelled.
\<close>

datatype json =
    JNull
  | JBool bool
  | JNum string
  | JStr string
  | JArr "json list"
  | JObj "(string \<times> json) list"

section \<open>Scanning\<close>

definition json_space :: "char \<Rightarrow> bool" where
  "json_space c = (c \<in> set [CHR '' '', CHR 0x09, CHR 0x0A, CHR 0x0D])"

definition is_digit :: "char \<Rightarrow> bool" where
  "is_digit c = (48 \<le> (of_char c :: nat) \<and> (of_char c :: nat) \<le> 57)"

definition hex_digit :: "char \<Rightarrow> nat option" where
  "hex_digit c =
     (let n = (of_char c :: nat) in
      if 48 \<le> n \<and> n \<le> 57 then Some (n - 48)
      else if 97 \<le> n \<and> n \<le> 102 then Some (n - 87)
      else if 65 \<le> n \<and> n \<le> 70 then Some (n - 55) else None)"

definition json_skip :: "string \<Rightarrow> string" where
  "json_skip s = dropWhile json_space s"

definition scan_lit :: "string \<Rightarrow> string \<Rightarrow> string option" where
  "scan_lit l s = (if has_prefix s l then Some (drop (length l) s) else None)"

text \<open>The UTF-8 bytes of a code point, and the four digits of a \<^verbatim>\<open>\u\<close> escape.\<close>

definition utf8 :: "nat \<Rightarrow> string" where
  "utf8 n = map char_of
     (if n < 128 then [n]
      else if n < 2048 then [192 + n div 64, 128 + n mod 64]
      else if n < 65536 then [224 + n div 4096, 128 + n div 64 mod 64, 128 + n mod 64]
      else [240 + n div 262144, 128 + n div 4096 mod 64, 128 + n div 64 mod 64, 128 + n mod 64])"

fun hex4 :: "string \<Rightarrow> (nat \<times> string) option" where
  "hex4 (a # b # c # d # s) =
     (case (hex_digit a, hex_digit b, hex_digit c, hex_digit d) of
        (Some w, Some x, Some y, Some z) \<Rightarrow> Some (((w * 16 + x) * 16 + y) * 16 + z, s)
      | _ \<Rightarrow> None)"
| "hex4 _ = None"

text \<open>
  \<^verbatim>\<open>unquote\<close>'s treatment of a \<^verbatim>\<open>\u\<close> escape: a high surrogate followed by the escape of a low
  one is a single code point, any other surrogate is U+FFFD.
\<close>

definition unescape_u :: "nat \<Rightarrow> string \<Rightarrow> string \<times> string" where
  "unescape_u r s =
     (if r < 55296 \<or> r > 57343 then (utf8 r, s)
      else if r < 56320 \<and> has_prefix s (CHR 0x5C # ''u'') then
        (case hex4 (drop 2 s) of
           Some (r2, s2) \<Rightarrow> if 56320 \<le> r2 \<and> r2 \<le> 57343
             then (utf8 (65536 + (r - 55296) * 1024 + (r2 - 56320)), s2) else (utf8 65533, s)
         | None \<Rightarrow> (utf8 65533, s))
      else (utf8 65533, s))"

definition unescape_char :: "char \<Rightarrow> char option" where
  "unescape_char e =
     (if e \<in> set (CHR 0x22 # CHR 0x5C # ''/'') then Some e
      else if e = CHR ''b'' then Some CHR 0x08
      else if e = CHR ''f'' then Some CHR 0x0C
      else if e = CHR ''n'' then Some CHR 0x0A
      else if e = CHR ''r'' then Some CHR 0x0D
      else if e = CHR ''t'' then Some CHR 0x09 else None)"

lemma hex4_length: "hex4 s = Some (r, t) \<Longrightarrow> length t < length s"
  by (induction s rule: hex4.induct) (auto split: option.splits)

lemma unescape_u_length: "length (snd (unescape_u r s)) \<le> length s"
  using hex4_length[of "drop 2 s"] by (fastforce simp: unescape_u_def split: option.splits)

lemma unescape_u_le: "unescape_u r s = (bs, t) \<Longrightarrow> length t \<le> length s"
  using unescape_u_length[of r s] by simp

function parse_str :: "string \<Rightarrow> (string \<times> string) option" where
  "parse_str [] = None"
| "parse_str (c # s) =
     (if c = CHR 0x22 then Some ([], s)
      else if c = CHR 0x5C then
        (case s of [] \<Rightarrow> None
         | e # s' \<Rightarrow>
             if e = CHR ''u'' then
               (case hex4 s' of None \<Rightarrow> None
                | Some (r, s2) \<Rightarrow>
                    (case unescape_u r s2 of (bs, s3) \<Rightarrow>
                      map_option (\<lambda>(x, y). (bs @ x, y)) (parse_str s3)))
             else (case unescape_char e of None \<Rightarrow> None
                | Some b \<Rightarrow> map_option (\<lambda>(x, y). (b # x, y)) (parse_str s')))
      else if (of_char c :: nat) < 32 then None
      else map_option (\<lambda>(x, y). (c # x, y)) (parse_str s))"
  by pat_completeness auto
termination
  by (relation "measure length")
    (auto dest!: hex4_length unescape_u_le[OF sym])

definition scan_digits :: "string \<Rightarrow> string option" where
  "scan_digits s = (case s of [] \<Rightarrow> None
     | c # s' \<Rightarrow> if is_digit c then Some (dropWhile is_digit s') else None)"

definition scan_int :: "string \<Rightarrow> string option" where
  "scan_int s = (case s of [] \<Rightarrow> None
     | c # s' \<Rightarrow> if c = CHR ''0'' then Some s' else scan_digits s)"

definition scan_frac :: "string \<Rightarrow> string option" where
  "scan_frac s = (case s of c # s' \<Rightarrow> if c = CHR ''.'' then scan_digits s' else Some s | [] \<Rightarrow> Some s)"

definition scan_exp :: "string \<Rightarrow> string option" where
  "scan_exp s = (case s of [] \<Rightarrow> Some s
     | c # s' \<Rightarrow>
         if c \<noteq> CHR ''e'' \<and> c \<noteq> CHR ''E'' then Some s
         else (case s' of [] \<Rightarrow> None
               | d # s'' \<Rightarrow> if d = CHR ''+'' \<or> d = CHR ''-'' then scan_digits s'' else scan_digits s'))"

definition scan_number :: "string \<Rightarrow> string option" where
  "scan_number s =
     Option.bind (scan_int (if has_prefix s ''-'' then tl s else s))
       (\<lambda>t. Option.bind (scan_frac t) scan_exp)"

section \<open>Parsing\<close>

fun parse_value :: "nat \<Rightarrow> string \<Rightarrow> (json \<times> string) option"
  and parse_elems :: "nat \<Rightarrow> string \<Rightarrow> (json list \<times> string) option"
  and parse_members :: "nat \<Rightarrow> string \<Rightarrow> ((string \<times> json) list \<times> string) option" where
  "parse_value 0 s = None"
| "parse_value (Suc n) s =
     (case s of [] \<Rightarrow> None
      | c # s' \<Rightarrow>
          if c = CHR 0x22 then map_option (\<lambda>(x, t). (JStr x, t)) (parse_str s')
          else if c = CHR ''{'' then
            (if has_prefix (json_skip s') ''}'' then Some (JObj [], tl (json_skip s'))
             else map_option (\<lambda>(x, t). (JObj x, t)) (parse_members n (json_skip s')))
          else if c = CHR ''['' then
            (if has_prefix (json_skip s') '']'' then Some (JArr [], tl (json_skip s'))
             else map_option (\<lambda>(x, t). (JArr x, t)) (parse_elems n (json_skip s')))
          else if c = CHR ''t'' then map_option (Pair (JBool True)) (scan_lit ''true'' s)
          else if c = CHR ''f'' then map_option (Pair (JBool False)) (scan_lit ''false'' s)
          else if c = CHR ''n'' then map_option (Pair JNull) (scan_lit ''null'' s)
          else map_option (\<lambda>t. (JNum (take (length s - length t) s), t)) (scan_number s))"
| "parse_elems 0 s = None"
| "parse_elems (Suc n) s =
     (case parse_value n s of None \<Rightarrow> None
      | Some (v, t) \<Rightarrow> (case json_skip t of [] \<Rightarrow> None
          | c # t' \<Rightarrow> if c = CHR '']'' then Some ([v], t')
                    else if c = CHR '','' then
                      map_option (\<lambda>(x, u). (v # x, u)) (parse_elems n (json_skip t'))
                    else None))"
| "parse_members 0 s = None"
| "parse_members (Suc n) s =
     (case s of [] \<Rightarrow> None
      | q # s' \<Rightarrow>
          if q \<noteq> CHR 0x22 then None
          else (case parse_str s' of None \<Rightarrow> None
            | Some (k, t) \<Rightarrow> (case json_skip t of [] \<Rightarrow> None
                | c # t' \<Rightarrow>
                    if c \<noteq> CHR '':'' then None
                    else (case parse_value n (json_skip t') of None \<Rightarrow> None
                      | Some (v, u) \<Rightarrow> (case json_skip u of [] \<Rightarrow> None
                          | d # u' \<Rightarrow> if d = CHR ''}'' then Some ([(k, v)], u')
                                    else if d = CHR '','' then
                                      map_option (\<lambda>(x, y). ((k, v) # x, y)) (parse_members n (json_skip u'))
                                    else None)))))"

text \<open>
  Every second nested call consumes a byte, so \<open>2 * n + 2\<close> calls suffice for \<open>n\<close> bytes; the round
  trip below instantiates this bound.
\<close>

definition json_parse :: "string \<Rightarrow> json option" where
  "json_parse s = (case parse_value (2 * length s + 2) (json_skip s) of
     None \<Rightarrow> None | Some (v, t) \<Rightarrow> if json_skip t = [] then Some v else None)"

definition json_valid :: "string \<Rightarrow> bool" where
  "json_valid s = (json_parse s \<noteq> None)"

text \<open>
  Struct fields match their key without regard to ASCII case and the last match wins; map keys match
  exactly.
\<close>

definition json_field :: "string \<Rightarrow> (string \<times> json) list \<Rightarrow> json option" where
  "json_field k kvs = map_of (rev (map (\<lambda>(a, v). (to_lower a, v)) kvs)) (to_lower k)"

definition json_key :: "string \<Rightarrow> (string \<times> json) list \<Rightarrow> json option" where
  "json_key k kvs = map_of (rev kvs) k"

text \<open>A string or boolean struct field: absent or null leaves the zero value, another type is an error.\<close>

definition field_str :: "string \<Rightarrow> (string \<times> json) list \<Rightarrow> string option" where
  "field_str k kvs = (case json_field k kvs of
     None \<Rightarrow> Some [] | Some JNull \<Rightarrow> Some [] | Some (JStr s) \<Rightarrow> Some s | _ \<Rightarrow> None)"

definition field_bool :: "string \<Rightarrow> (string \<times> json) list \<Rightarrow> bool option" where
  "field_bool k kvs = (case json_field k kvs of
     None \<Rightarrow> Some False | Some JNull \<Rightarrow> Some False | Some (JBool b) \<Rightarrow> Some b | _ \<Rightarrow> None)"

section \<open>Rendering\<close>

definition hex_char :: "nat \<Rightarrow> char" where
  "hex_char d = char_of (if d < 10 then 48 + d else 87 + d)"

definition escape_char :: "char \<Rightarrow> string" where
  "escape_char c =
     (if c = CHR 0x22 \<or> c = CHR 0x5C then [CHR 0x5C, c]
      else if c = CHR 0x08 then CHR 0x5C # ''b''
      else if c = CHR 0x0C then CHR 0x5C # ''f''
      else if c = CHR 0x0A then CHR 0x5C # ''n''
      else if c = CHR 0x0D then CHR 0x5C # ''r''
      else if c = CHR 0x09 then CHR 0x5C # ''t''
      else if (of_char c :: nat) < 32 then
        CHR 0x5C # ''u00'' @ [hex_char (of_char c div 16), hex_char (of_char c mod 16)]
      else [c])"

definition quote :: "string \<Rightarrow> string" where
  "quote s = CHR 0x22 # concat (map escape_char s) @ [CHR 0x22]"

fun json_render :: "json \<Rightarrow> string"
  and render_elems :: "json list \<Rightarrow> string"
  and render_members :: "(string \<times> json) list \<Rightarrow> string" where
  "json_render JNull = ''null''"
| "json_render (JBool b) = (if b then ''true'' else ''false'')"
| "json_render (JNum t) = t"
| "json_render (JStr s) = quote s"
| "json_render (JArr vs) = ''['' @ (if vs = [] then '']'' else render_elems vs)"
| "json_render (JObj kvs) = ''{'' @ (if kvs = [] then ''}'' else render_members kvs)"
| "render_elems [] = []"
| "render_elems (v # vs) = json_render v @ (if vs = [] then '']'' else CHR '','' # render_elems vs)"
| "render_members [] = []"
| "render_members ((k, v) # kvs) =
     quote k @ CHR '':'' # json_render v @ (if kvs = [] then ''}'' else CHR '','' # render_members kvs)"

lemma render_members_last: "kvs \<noteq> [] \<Longrightarrow> last (render_members kvs) = CHR ''}'' \<and> render_members kvs \<noteq> []"
  by (induction kvs) (auto simp: quote_def)

text \<open>A raw field keeps the bytes of its value; here they are re-rendered compactly.\<close>

definition field_raw :: "string \<Rightarrow> (string \<times> json) list \<Rightarrow> string" where
  "field_raw k kvs = (case json_field k kvs of None \<Rightarrow> [] | Some v \<Rightarrow> json_render v)"

text \<open>Numbers must be JSON number texts; the rest of a value is free.\<close>

fun json_ok :: "json \<Rightarrow> bool" where
  "json_ok (JNum t) = (scan_number t = Some [])"
| "json_ok (JArr vs) = list_all json_ok vs"
| "json_ok (JObj kvs) = list_all (\<lambda>(k, v). json_ok v) kvs"
| "json_ok _ = True"

section \<open>Integers\<close>

definition int_text :: "int \<Rightarrow> string" where
  "int_text i = (if i < 0 then ''-'' @ itoa (nat (- i)) else itoa (nat i))"

definition digit_value :: "char \<Rightarrow> nat" where
  "digit_value c = of_char c - 48"

definition nat_of_digits :: "string \<Rightarrow> nat" where
  "nat_of_digits s = foldl (\<lambda>n c. 10 * n + digit_value c) 0 s"

text \<open>Decoding into a Go \<^verbatim>\<open>int\<close> accepts integer literals only.\<close>

definition int_of_text :: "string \<Rightarrow> int option" where
  "int_of_text s =
     (let neg = has_prefix s ''-''; ds = (if neg then tl s else s) in
      if ds \<noteq> [] \<and> list_all is_digit ds
      then Some (if neg then - int (nat_of_digits ds) else int (nat_of_digits ds)) else None)"

definition field_int :: "string \<Rightarrow> (string \<times> json) list \<Rightarrow> int option" where
  "field_int k kvs = (case json_field k kvs of
     None \<Rightarrow> Some 0 | Some JNull \<Rightarrow> Some 0 | Some (JNum t) \<Rightarrow> int_of_text t | _ \<Rightarrow> None)"

lemma digit_char_value: "d < 10 \<Longrightarrow> digit_value (digit_char d) = d \<and> is_digit (digit_char d)"
  by (simp add: digit_value_def is_digit_def)

lemma itoa_digits: "list_all is_digit (itoa n)"
proof (induction n rule: itoa.induct)
  case (1 n)
  show ?case
  proof (cases "n < 10")
    case True
    then show ?thesis using digit_char_value[of n] by (subst itoa.simps) simp
  next
    case False
    with 1 show ?thesis using digit_char_value[of "n mod 10"] by (subst itoa.simps) simp
  qed
qed

lemma nat_of_digits_itoa: "nat_of_digits (itoa n) = n"
proof (induction n rule: itoa.induct)
  case (1 n)
  show ?case
  proof (cases "n < 10")
    case True
    then show ?thesis using digit_char_value[of n] by (subst itoa.simps) (simp add: nat_of_digits_def)
  next
    case False
    with 1 show ?thesis
      using digit_char_value[of "n mod 10"] by (subst itoa.simps) (simp add: nat_of_digits_def)
  qed
qed

lemma itoa_no_minus: "\<not> has_prefix (itoa n) ''-''"
  using itoa_digits[of n] by (cases "itoa n") (auto simp: has_prefix_def is_digit_def)

lemma int_of_int_text: "int_of_text (int_text i) = Some i"
proof (cases "i < 0")
  case True
  then show ?thesis
    using itoa_digits by (simp add: int_of_text_def int_text_def has_prefix_def nat_of_digits_itoa)
next
  case False
  then show ?thesis
    using itoa_no_minus itoa_digits by (simp add: int_of_text_def int_text_def nat_of_digits_itoa)
qed

text \<open>An integer text is a JSON number: no leading zero unless it is zero.\<close>

lemma itoa_hd: "n \<noteq> 0 \<Longrightarrow> hd (itoa n) \<noteq> CHR ''0''"
proof (induction n rule: itoa.induct)
  case (1 n)
  show ?case
  proof (cases "n < 10")
    case True
    have "digit_char n \<noteq> CHR ''0''"
    proof
      assume "digit_char n = CHR ''0''"
      then have "digit_value (digit_char n) = 0" by (simp add: digit_value_def)
      then show False using digit_char_value[of n] True 1 by simp
    qed
    then show ?thesis using True by (subst itoa.simps) simp
  next
    case False
    then have "n div 10 \<noteq> 0" by simp
    with 1 False show ?thesis by (subst itoa.simps) (simp add: hd_append)
  qed
qed

lemma itoa_zero: "itoa 0 = ''0''"
  by code_simp

lemma scan_int_itoa: "scan_int (itoa n) = Some []"
proof (cases "n = 0")
  case True
  then show ?thesis by (simp add: itoa_zero scan_int_def)
next
  case False
  obtain c s where cs: "itoa n = c # s" by (cases "itoa n") auto
  have "is_digit c" "\<forall>x\<in>set s. is_digit x" using itoa_digits[of n] cs by (auto simp: list_all_iff)
  then show ?thesis using itoa_hd[OF False] cs by (simp add: scan_int_def scan_digits_def)
qed

lemma scan_number_int_text: "scan_number (int_text i) = Some []"
  using scan_int_itoa itoa_no_minus
  by (auto simp: int_text_def scan_number_def scan_frac_def scan_exp_def has_prefix_def)

section \<open>Round trip\<close>

declare parse_str.simps [simp del]

lemma parse_str_quote: "parse_str (CHR 0x22 # t) = Some ([], t)"
  by (simp add: parse_str.simps)

lemma hex_digit_char: "d < 16 \<Longrightarrow> hex_digit (hex_char d) = Some d"
  by (auto simp: hex_digit_def hex_char_def Let_def)

lemma hex4_control:
  "n < 256 \<Longrightarrow> hex4 (''00'' @ [hex_char (n div 16), hex_char (n mod 16)] @ t) = Some (n, t)"
  by (simp add: hex_digit_char) (simp add: hex_digit_def Let_def)

lemma parse_str_escape:
  "parse_str (escape_char c @ t) = map_option (\<lambda>(x, y). (c # x, y)) (parse_str t)"
proof -
  consider "c \<in> set [CHR 0x22, CHR 0x5C]" | "c \<in> set [CHR 0x08, CHR 0x0C, CHR 0x0A, CHR 0x0D, CHR 0x09]"
    | (control) "c \<notin> set [CHR 0x22, CHR 0x5C, CHR 0x08, CHR 0x0C, CHR 0x0A, CHR 0x0D, CHR 0x09]"
        "(of_char c :: nat) < 32"
    | (plain) "c \<noteq> CHR 0x22" "c \<noteq> CHR 0x5C" "\<not> (of_char c :: nat) < 32"
    by (cases "(of_char c :: nat) < 32") auto
  then show ?thesis
  proof cases
    case 1
    then show ?thesis
      by (auto simp: escape_char_def parse_str.simps(2)[of "CHR 0x5C"] unescape_char_def)
  next
    case 2
    then show ?thesis
      by (auto simp: escape_char_def parse_str.simps(2)[of "CHR 0x5C"] unescape_char_def)
  next
    case control
    let ?n = "of_char c :: nat"
    have "hex4 (CHR ''0'' # CHR ''0'' # hex_char (?n div 16) # hex_char (?n mod 16) # t) = Some (?n, t)"
      using hex4_control[of ?n t] control(2) by simp
    moreover have "unescape_u ?n t = ([c], t)"
      using control(2) by (simp add: unescape_u_def utf8_def)
    ultimately show ?thesis
      using control by (simp add: escape_char_def parse_str.simps(2)[of "CHR 0x5C"])
  next
    case plain
    moreover from plain have "escape_char c = [c]" by (auto simp: escape_char_def)
    ultimately show ?thesis by (simp add: parse_str.simps(2)[of c])
  qed
qed

lemma parse_str_escaped:
  "parse_str (concat (map escape_char s) @ CHR 0x22 # t) = Some (s, t)"
  by (induction s) (simp_all add: parse_str_quote parse_str_escape)

definition delimited :: "string \<Rightarrow> bool" where
  "delimited s \<longleftrightarrow> s = [] \<or> hd s \<in> set '',]}''"

lemma delimited_not: "delimited (c # s) \<Longrightarrow> \<not> is_digit c \<and> c \<noteq> CHR ''.'' \<and> c \<noteq> CHR ''e'' \<and> c \<noteq> CHR ''E''"
  by (auto simp: delimited_def is_digit_def)

lemma dropWhile_digits_append:
  "delimited t \<Longrightarrow> dropWhile is_digit (s @ t) = dropWhile is_digit s @ t"
  by (induction s) (cases t; auto dest: delimited_not)+

lemma scan_digits_append:
  "delimited t \<Longrightarrow> scan_digits s = Some r \<Longrightarrow> scan_digits (s @ t) = Some (r @ t)"
  by (auto simp: scan_digits_def dropWhile_digits_append split: list.splits if_splits)

lemma scan_int_append:
  "delimited t \<Longrightarrow> scan_int s = Some r \<Longrightarrow> scan_int (s @ t) = Some (r @ t)"
  using scan_digits_append[of t s r] by (auto simp: scan_int_def split: list.splits if_splits)

lemma scan_frac_append:
  "delimited t \<Longrightarrow> scan_frac s = Some r \<Longrightarrow> scan_frac (s @ t) = Some (r @ t)"
  by (cases s; cases t) (auto simp: scan_frac_def scan_digits_append split: if_splits dest: delimited_not)

lemma scan_exp_append:
  "delimited t \<Longrightarrow> scan_exp s = Some r \<Longrightarrow> scan_exp (s @ t) = Some (r @ t)"
  by (cases s; cases "tl s"; cases t)
    (auto simp: scan_exp_def split: if_splits
      dest: delimited_not scan_digits_append scan_digits_append[of _ "_ # _", simplified])

lemma scan_number_append:
  assumes "delimited t" and "scan_number s = Some r"
  shows "scan_number (s @ t) = Some (r @ t)"
proof -
  let ?u = "if has_prefix s ''-'' then tl s else s"
  from assms(2) obtain x y where xy: "scan_int ?u = Some x" "scan_frac x = Some y" "scan_exp y = Some r"
    by (auto simp: scan_number_def bind_eq_Some_conv)
  have "s \<noteq> []"
  proof
    assume "s = []"
    with xy(1) show False by (simp add: scan_int_def has_prefix_def)
  qed
  then have "(if has_prefix (s @ t) ''-'' then tl (s @ t) else s @ t) = ?u @ t"
    by (cases s) (simp_all add: has_prefix_def)
  with scan_int_append[OF assms(1) xy(1)] scan_frac_append[OF assms(1) xy(2)]
    scan_exp_append[OF assms(1) xy(3)]
  show ?thesis by (simp add: scan_number_def)
qed

text \<open>Rendered values start with a byte that is not white space and decides the case.\<close>

lemma scan_number_hd: "scan_number s = Some r \<Longrightarrow> \<exists>c s'. s = c # s' \<and> (c = CHR ''-'' \<or> is_digit c)"
  by (cases s) (auto simp: scan_number_def scan_int_def scan_digits_def has_prefix_def is_digit_def
      bind_eq_Some_conv split: if_splits)

lemma json_skip_id: "\<not> json_space c \<Longrightarrow> json_skip (c # s) = c # s"
  by (simp add: json_skip_def)

lemma not_space [simp]: "\<not> json_space CHR 0x22" "\<not> json_space CHR '',''" "\<not> json_space CHR '':''"
  "\<not> json_space CHR '']''" "\<not> json_space CHR ''}''"
  by (simp_all add: json_space_def)

lemma delimited_simps [simp]: "delimited []" "delimited (CHR '','' # s)" "delimited (CHR '']'' # s)"
  "delimited (CHR ''}'' # s)"
  by (simp_all add: delimited_def)

lemma render_hd:
  assumes "json_ok v"
  shows "\<exists>c s. json_render v = c # s \<and> \<not> json_space c \<and> c \<noteq> CHR ''}'' \<and> c \<noteq> CHR '']''"
proof (cases v)
  case (JNum t)
  with assms scan_number_hd[of t "[]"] show ?thesis
    by (auto simp: json_space_def is_digit_def)
qed (auto simp: quote_def json_space_def)

lemma skip_render: "json_ok v \<Longrightarrow> json_skip (json_render v @ t) = json_render v @ t"
  using render_hd[of v] by (auto simp: json_skip_id)

lemma skip_elems:
  assumes "list_all json_ok vs" and "vs \<noteq> []"
  shows "json_skip (render_elems vs @ t) = render_elems vs @ t \<and> \<not> has_prefix (render_elems vs @ t) '']''"
  using assms render_hd[of "hd vs"] by (cases vs) (auto simp: json_skip_id has_prefix_def)

lemma skip_members:
  assumes "kvs \<noteq> []"
  shows "json_skip (render_members kvs @ t) = render_members kvs @ t \<and>
    \<not> has_prefix (render_members kvs @ t) ''}''"
  using assms by (cases kvs) (auto simp: json_skip_id has_prefix_def quote_def)

lemma parse_num:
  assumes "scan_number s = Some []" and "delimited t"
  shows "parse_value (Suc n) (s @ t) = Some (JNum s, t)"
proof -
  obtain c s' where s: "s = c # s'" "c = CHR ''-'' \<or> is_digit c"
    using scan_number_hd[OF assms(1)] by auto
  have "scan_number (s @ t) = Some t" using scan_number_append[OF assms(2,1)] by simp
  moreover have "c \<noteq> CHR 0x22 \<and> c \<noteq> CHR ''{'' \<and> c \<noteq> CHR ''['' \<and> c \<noteq> CHR ''t'' \<and>
      c \<noteq> CHR ''f'' \<and> c \<noteq> CHR ''n''"
    using s(2) by (auto simp: is_digit_def)
  ultimately show ?thesis using s(1) by simp
qed

lemma parse_render:
  "json_ok v \<Longrightarrow> delimited t \<Longrightarrow> 2 * length (json_render v) \<le> n \<Longrightarrow>
     parse_value n (json_render v @ t) = Some (v, t)"
  "list_all json_ok vs \<Longrightarrow> vs \<noteq> [] \<Longrightarrow> 2 * length (render_elems vs) \<le> n \<Longrightarrow>
     parse_elems n (render_elems vs @ t) = Some (vs, t)"
  "list_all (\<lambda>(k, v). json_ok v) kvs \<Longrightarrow> kvs \<noteq> [] \<Longrightarrow> 2 * length (render_members kvs) \<le> n \<Longrightarrow>
     parse_members n (render_members kvs @ t) = Some (kvs, t)"
proof (induction v and vs and kvs arbitrary: n t and n t and n t
    rule: json_render_render_elems_render_members.induct)
  case 1
  then show ?case by (cases n) (auto simp: scan_lit_def has_prefix_def)
next
  case (2 b)
  then show ?case by (cases n) (auto simp: scan_lit_def has_prefix_def split: if_splits)
next
  case (3 s)
  then have "0 < length s" using scan_number_hd[of s "[]"] by auto
  with 3 show ?case by (cases n) (auto simp del: parse_value.simps simp: parse_num)
next
  case (4 s)
  then show ?case by (cases n) (auto simp: quote_def parse_str_escaped)
next
  case (5 vs)
  show ?case
  proof (cases "vs = []")
    case True
    with 5 show ?thesis by (cases n) (auto simp: json_skip_id has_prefix_def)
  next
    case False
    with 5 obtain m where m: "n = Suc m" "2 * length (render_elems vs) \<le> m" by (cases n) auto
    have "parse_elems m (render_elems vs @ t) = Some (vs, t)"
      using 5 False m(2) by simp
    with skip_elems[of vs t] 5(2) False m show ?thesis by simp
  qed
next
  case (6 kvs)
  show ?case
  proof (cases "kvs = []")
    case True
    with 6 show ?thesis by (cases n) (auto simp: json_skip_id has_prefix_def)
  next
    case False
    with 6 obtain m where m: "n = Suc m" "2 * length (render_members kvs) \<le> m" by (cases n) auto
    have "parse_members m (render_members kvs @ t) = Some (kvs, t)"
      using 6 False m(2) by simp
    with skip_members[of kvs t] False m show ?thesis by simp
  qed
next
  case (8 v vs)
  then obtain m where m: "n = Suc m" "2 * length (json_render v) \<le> m"
    by (cases n) (auto split: if_splits)
  have v: "json_ok v" "list_all json_ok vs" using 8 by auto
  show ?case
  proof (cases "vs = []")
    case True
    have "parse_value m (json_render v @ CHR '']'' # t) = Some (v, CHR '']'' # t)"
      using 8(1)[of "CHR '']'' # t" m] v m by simp
    with True m show ?thesis by (simp add: json_skip_id)
  next
    case False
    let ?t = "CHR '','' # render_elems vs @ t"
    have "parse_value m (json_render v @ ?t) = Some (v, ?t)" using 8(1)[of ?t m] v m by simp
    moreover have "parse_elems m (render_elems vs @ t) = Some (vs, t)" using 8 v m False by auto
    ultimately show ?thesis
      using False m skip_elems[OF v(2) False, of t] by (simp add: json_skip_id)
  qed
next
  case (10 k v kvs)
  then obtain m where m: "n = Suc m" "2 * length (json_render v) \<le> m"
    by (cases n) (auto split: if_splits)
  have v: "json_ok v" "list_all (\<lambda>(k, v). json_ok v) kvs" using 10 by auto
  have k: "parse_str (concat (map escape_char k) @ CHR 0x22 # s) = Some (k, s)" for s
    by (rule parse_str_escaped)
  show ?case
  proof (cases "kvs = []")
    case True
    have "parse_value m (json_render v @ CHR ''}'' # t) = Some (v, CHR ''}'' # t)"
      using 10(1)[of "CHR ''}'' # t" m] v m by simp
    with True m k skip_render[OF v(1)] show ?thesis by (simp add: json_skip_id quote_def)
  next
    case False
    let ?t = "CHR '','' # render_members kvs @ t"
    have "parse_value m (json_render v @ ?t) = Some (v, ?t)" using 10(1)[of ?t m] v m by simp
    moreover have "parse_members m (render_members kvs @ t) = Some (kvs, t)" using 10 v m False by auto
    ultimately show ?thesis
      using False m k skip_render[OF v(1)] skip_members[OF False, of t]
      by (simp add: json_skip_id quote_def)
  qed
qed simp_all

lemma json_parse_render: "json_ok v \<Longrightarrow> json_parse (json_render v) = Some v"
  using parse_render(1)[of v "[]" "2 * length (json_render v) + 2"] skip_render[of v "[]"]
  by (simp add: json_parse_def json_skip_def)

end
