(* ===== verification/Llm.thy ===== *)
theory Llm
  imports TranscriptWf Governor Json
begin

text \<open>
  The client layer: requests and responses (\<^verbatim>\<open>llm/llm.go\<close>), the persisted form of a message,
  prices and prefix lookup (\<^verbatim>\<open>llm/pricing.go\<close>), the retry, validation and routing middleware
  (\<^verbatim>\<open>llm/middleware.go\<close>) and the cost tracker (\<^verbatim>\<open>budget.go\<close>). A client is a function of a
  request and a world. Durations are nanoseconds.
\<close>

section \<open>Requests and responses\<close>

record usage =
  u_input :: int
  u_output :: int
  u_cache_write :: int
  u_cache_read :: int

definition no_usage :: usage where
  "no_usage = \<lparr>u_input = 0, u_output = 0, u_cache_write = 0, u_cache_read = 0\<rparr>"

definition usage_add :: "usage \<Rightarrow> usage \<Rightarrow> usage" where
  "usage_add u v = \<lparr>u_input = u_input u + u_input v, u_output = u_output u + u_output v,
     u_cache_write = u_cache_write u + u_cache_write v,
     u_cache_read = u_cache_read u + u_cache_read v\<rparr>"

definition usage_of_json :: "json \<Rightarrow> usage option" where
  "usage_of_json j = (case j of
     JObj kvs \<Rightarrow>
       (case (field_int ''input_tokens'' kvs, field_int ''output_tokens'' kvs,
              field_int ''cache_creation_input_tokens'' kvs, field_int ''cache_read_input_tokens'' kvs) of
          (Some a, Some b, Some c, Some d) \<Rightarrow>
            Some \<lparr>u_input = a, u_output = b, u_cache_write = c, u_cache_read = d\<rparr>
        | _ \<Rightarrow> None)
   | JNull \<Rightarrow> Some \<lparr>u_input = 0, u_output = 0, u_cache_write = 0, u_cache_read = 0\<rparr>
   | _ \<Rightarrow> None)"

text \<open>A streamed fragment of a reply: visible text, reasoning, or arguments of the call at an index.\<close>

datatype delta =
    TextDelta string
  | ReasoningDelta string
  | ToolArgsDelta int tool_use_id string string

record tool_spec =
  ts_name :: string
  ts_description :: string
  ts_schema :: string

datatype choice_mode = ChoiceAuto | ChoiceAny | ChoiceTool | ChoiceNone

record tool_choice =
  tc_mode :: choice_mode
  tc_name :: string

definition auto_choice :: tool_choice where
  "auto_choice = \<lparr>tc_mode = ChoiceAuto, tc_name = []\<rparr>"

definition force_tool :: "string \<Rightarrow> tool_choice" where
  "force_tool n = \<lparr>tc_mode = ChoiceTool, tc_name = n\<rparr>"

record request =
  rq_system :: string
  rq_messages :: convo
  rq_tools :: "tool_spec list"
  rq_choice :: tool_choice
  rq_model :: string
  rq_max_tokens :: int
  rq_temperature :: "real option"
  rq_top_p :: "real option"

record response =
  rs_content :: "block list"
  rs_stop :: string
  rs_usage :: usage
  rs_model :: string

type_synonym 'w llm_client = "request \<Rightarrow> 'w \<Rightarrow> (err + response) \<times> 'w"

definition chain :: "'c \<Rightarrow> ('c \<Rightarrow> 'c) list \<Rightarrow> 'c" where
  "chain base mws = foldl (\<lambda>b mw. mw b) base mws"

datatype stream_mode = StreamAuto | StreamAlways | StreamNever

fun stream_enabled :: "stream_mode \<Rightarrow> bool \<Rightarrow> bool" where
  "stream_enabled StreamAlways sink = True"
| "stream_enabled StreamNever sink = False"
| "stream_enabled StreamAuto sink = sink"

section \<open>The persisted form of a message\<close>

definition str_field :: "string \<Rightarrow> string \<Rightarrow> (string \<times> json) list" where
  "str_field k s = (if s = [] then [] else [(k, JStr s)])"

text \<open>
  \<^verbatim>\<open>MarshalJSON\<close>: empty fields are left out, and a raw input that is not JSON fails the encoder.
\<close>

fun block_json :: "block \<Rightarrow> json option" where
  "block_json (Text s) = Some (JObj ((''type'', JStr ''text'') # str_field ''text'' s))"
| "block_json (ToolUse u) =
     (let obj = (\<lambda>inp. JObj ((''type'', JStr ''tool_use'') # str_field ''id'' (tu_id u) @
                  str_field ''name'' (tu_name u) @ inp)) in
      if tu_input u = [] then Some (obj [])
      else map_option (\<lambda>v. obj [(''input'', v)]) (json_parse (tu_input u)))"
| "block_json (ToolResult r) =
     Some (JObj ((''type'', JStr ''tool_result'') # str_field ''tool_use_id'' (tr_id r) @
       str_field ''content'' (tr_content r) @
       (if tr_is_error r then [(''is_error'', JBool True)] else [])))"
| "block_json (Thinking s g) =
     Some (JObj ((''type'', JStr ''thinking'') # str_field ''text'' s @ str_field ''signature'' g))"

definition message_json :: "message \<Rightarrow> json option" where
  "message_json m =
     (let bs = map block_json (msg_content m) in
      if None \<in> set bs then None
      else Some (JObj [(''role'', JStr (msg_role m)), (''content'', JArr (map the bs))]))"

definition block_of_json :: "json \<Rightarrow> block option" where
  "block_of_json j = (case j of
     JObj kvs \<Rightarrow>
       (case (field_str ''type'' kvs, field_str ''text'' kvs, field_str ''id'' kvs,
              field_str ''name'' kvs, field_str ''tool_use_id'' kvs, field_str ''content'' kvs,
              field_bool ''is_error'' kvs, field_str ''signature'' kvs) of
          (Some ty, Some tx, Some i, Some n, Some ti, Some c, Some e, Some sg) \<Rightarrow>
            if ty = ''text'' then Some (Text tx)
            else if ty = ''tool_use'' then
              Some (ToolUse \<lparr>tu_id = i, tu_name = n, tu_input = field_raw ''input'' kvs\<rparr>)
            else if ty = ''tool_result'' then
              Some (ToolResult \<lparr>tr_id = ti, tr_content = c, tr_is_error = e\<rparr>)
            else if ty = ''thinking'' then Some (Thinking tx sg)
            else None
        | _ \<Rightarrow> None)
   | _ \<Rightarrow> None)"

definition message_of_json :: "json \<Rightarrow> message option" where
  "message_of_json j = (case j of
     JObj kvs \<Rightarrow>
       (case (field_str ''role'' kvs, json_field ''content'' kvs) of
          (Some r, Some (JArr vs)) \<Rightarrow>
            (let bs = map block_of_json vs in
             if None \<in> set bs then None else Some \<lparr>msg_role = r, msg_content = map the bs\<rparr>)
        | (Some r, None) \<Rightarrow> Some \<lparr>msg_role = r, msg_content = []\<rparr>
        | (Some r, Some JNull) \<Rightarrow> Some \<lparr>msg_role = r, msg_content = []\<rparr>
        | _ \<Rightarrow> None)
   | JNull \<Rightarrow> Some \<lparr>msg_role = [], msg_content = []\<rparr>
   | _ \<Rightarrow> None)"

definition marshal_message :: "message \<Rightarrow> string option" where
  "marshal_message m = map_option json_render (message_json m)"

definition unmarshal_message :: "string \<Rightarrow> message option" where
  "unmarshal_message s = Option.bind (json_parse s) message_of_json"

section \<open>Prices\<close>

record rate =
  rt_in :: real
  rt_out :: real
  rt_cache_write :: real
  rt_cache_read :: real

text \<open>
  A Go map is an association list whose order stands for the random iteration order; the keys are
  distinct. Every lookup below is shown not to depend on that order.
\<close>

definition better_prefix :: "string \<Rightarrow> (string \<times> 'v) option \<Rightarrow> string \<times> 'v \<Rightarrow> (string \<times> 'v) option" where
  "better_prefix model best kv =
     (if (case best of None \<Rightarrow> True | Some (p, _) \<Rightarrow> length (fst kv) > length p) \<and>
         has_prefix model (fst kv) then Some kv else best)"

definition table_lookup :: "(string \<times> 'v) list \<Rightarrow> string \<Rightarrow> 'v option" where
  "table_lookup t model = (case map_of t model of
     Some r \<Rightarrow> Some r
   | None \<Rightarrow> map_option snd (foldl (better_prefix model) None t))"

definition priced :: "(string \<times> rate) list \<Rightarrow> string \<Rightarrow> bool" where
  "priced t model = (table_lookup t model \<noteq> None)"

definition cost_usd :: "(string \<times> rate) list \<Rightarrow> string \<Rightarrow> usage \<Rightarrow> real" where
  "cost_usd t model u = (case table_lookup t model of
     None \<Rightarrow> 0
   | Some r \<Rightarrow> of_int (u_input u) * rt_in r / 1000000 + of_int (u_output u) * rt_out r / 1000000 +
       of_int (u_cache_write u) * rt_cache_write r / 1000000 +
       of_int (u_cache_read u) * rt_cache_read r / 1000000)"

section \<open>Routing\<close>

text \<open>
  \<^verbatim>\<open>longestPrefixMatch\<close>: the empty key of the table never matches and neither does an empty model.
\<close>

definition longest_prefix_match :: "(string \<times> 'v) list \<Rightarrow> string \<Rightarrow> 'v option" where
  "longest_prefix_match m key =
     (if key = [] then None
      else case map_of m key of
        Some v \<Rightarrow> Some v
      | None \<Rightarrow> map_option snd
          (foldl (better_prefix key) None (filter (\<lambda>(p, _). p \<noteq> []) m)))"

definition with_model_routing :: "(string \<times> 'w llm_client) list \<Rightarrow> 'w llm_client \<Rightarrow> 'w llm_client" where
  "with_model_routing routes nxt req w =
     (case longest_prefix_match routes (rq_model req) of
        Some c \<Rightarrow> c req w
      | None \<Rightarrow> nxt req w)"

section \<open>Retry\<close>

text \<open>
  Durations of the policy are 64-bit, so the shifts of \<^verbatim>\<open>Backoff\<close> are the machine's.
\<close>

record retry_policy =
  rp_max_attempts :: int
  rp_base :: "64 word"
  rp_max :: "64 word"
  rp_jitter :: real

definition default_retry_policy :: retry_policy where
  "default_retry_policy = \<lparr>rp_max_attempts = 4, rp_base = 1000000000, rp_max = 30000000000,
     rp_jitter = 1 / 2\<rparr>"

definition normalized :: "retry_policy \<Rightarrow> retry_policy" where
  "normalized p =
     (let p = (if rp_base p \<le>s 0 then p\<lparr>rp_base := rp_base default_retry_policy\<rparr> else p);
          p = (if rp_max p \<le>s 0 then p\<lparr>rp_max := rp_max default_retry_policy\<rparr> else p);
          p = (if rp_max p <s rp_base p then p\<lparr>rp_max := rp_base p\<rparr> else p)
      in if rp_jitter p < 0 then p\<lparr>rp_jitter := 0\<rparr>
         else if rp_jitter p > 1 then p\<lparr>rp_jitter := 1\<rparr> else p)"

definition backoff :: "retry_policy \<Rightarrow> int \<Rightarrow> 64 word" where
  "backoff p attempt =
     (let p = normalized p in
      if attempt \<le> 0 then rp_base p
      else if attempt \<ge> 63 \<or> signed_drop_bit (nat attempt) (rp_max p) <s rp_base p then rp_max p
      else push_bit (nat attempt) (rp_base p))"

text \<open>
  The wait actually slept. \<open>rnd\<close> is the random draw in \<open>[0, 1)\<close>; the addition is exact here.
\<close>

definition retry_delay :: "retry_policy \<Rightarrow> int \<Rightarrow> int \<Rightarrow> real \<Rightarrow> int" where
  "retry_delay p attempt hint rnd =
     (let d = sint (backoff p attempt);
          d = (if hint > d then hint else d)
      in if rp_jitter p > 0 then d + \<lfloor>rnd * rp_jitter p * of_int d\<rfloor> else d)"

text \<open>
  What the loop sees of the rest of the process: the cause of its context, a random draw, and a
  timer that either fires or loses to the context.
\<close>

record 'w env =
  env_cause :: "'w \<Rightarrow> err option"
  env_rand :: "'w \<Rightarrow> real \<times> 'w"
  env_timer :: "int \<Rightarrow> 'w \<Rightarrow> err option \<times> 'w"

definition sleep_ctx :: "'w env \<Rightarrow> int \<Rightarrow> 'w \<Rightarrow> err option \<times> 'w" where
  "sleep_ctx env d w = (if d \<le> 0 then (None, w) else env_timer env d w)"

text \<open>The last component is a ghost: what the client answered at each attempt, oldest first.\<close>

function retry_loop :: "'w env \<Rightarrow> retry_policy \<Rightarrow> 'w llm_client \<Rightarrow> request \<Rightarrow> int \<Rightarrow> 'w
    \<Rightarrow> (err + response) \<times> 'w \<times> (err + response) list" where
  "retry_loop env p nxt req attempt w =
     (case nxt req w of
        (Inr r, w1) \<Rightarrow> (Inr r, w1, [Inr r])
      | (Inl e, w1) \<Rightarrow>
          if attempt + 1 \<ge> rp_max_attempts p \<or> \<not> retryable e then (Inl e, w1, [Inl e])
          else case env_cause env w1 of
            Some c \<Rightarrow> (Inl c, w1, [Inl e])
          | None \<Rightarrow>
              (case env_rand env w1 of (rnd, w2) \<Rightarrow>
                (case sleep_ctx env (retry_delay p attempt (retry_after e) rnd) w2 of
                   (Some c, w3) \<Rightarrow> (Inl c, w3, [Inl e])
                 | (None, w3) \<Rightarrow>
                     (case retry_loop env p nxt req (attempt + 1) w3 of
                        (out, w4, tries) \<Rightarrow> (out, w4, Inl e # tries)))))"
  by pat_completeness auto
termination
  by (relation "measure (\<lambda>(env, p, nxt, req, attempt, w). nat (rp_max_attempts p - attempt))") auto

declare retry_loop.simps [simp del] retryable.simps [simp del]

definition with_retry :: "'w env \<Rightarrow> retry_policy \<Rightarrow> 'w llm_client \<Rightarrow> 'w llm_client" where
  "with_retry env p nxt req w =
     (case retry_loop env (normalized p) nxt req 0 w of (out, w', _) \<Rightarrow> (out, w'))"

section \<open>Validation\<close>

definition bad_request :: "string \<Rightarrow> err" where
  "bad_request m = Wrapf m [ErrBadRequest]"

definition is_json_object :: "string \<Rightarrow> bool" where
  "is_json_object b = (let t = trim_space b in has_prefix t ''{'' \<and> json_valid t)"

fun check_tools :: "tool_spec list \<Rightarrow> err option" where
  "check_tools [] = None"
| "check_tools (t # ts) =
     (if ts_name t = [] then Some (bad_request ''tool has an empty name'')
      else if ts_schema t \<noteq> [] \<and> \<not> is_json_object (ts_schema t)
        then Some (bad_request ''tool has an input schema that is not a JSON object'')
      else check_tools ts)"

definition validate_request :: "request \<Rightarrow> err option" where
  "validate_request req =
     (if rq_messages req = [] then Some (bad_request ''request has no messages'')
      else if list_ex (\<lambda>m. msg_content m = []) (rq_messages req)
        then Some (bad_request ''message has no content blocks'')
      else case check_tools (rq_tools req) of
        Some e \<Rightarrow> Some e
      | None \<Rightarrow>
          (case tc_mode (rq_choice req) of
             ChoiceTool \<Rightarrow>
               if tc_name (rq_choice req) = [] then Some (bad_request ''tool_choice needs a tool name'')
               else if tc_name (rq_choice req) \<notin> set (map ts_name (rq_tools req))
                 then Some (bad_request ''tool_choice names a tool that is not offered'')
               else None
           | ChoiceAny \<Rightarrow>
               if rq_tools req = [] then Some (bad_request ''tool_choice with no tools offered'')
               else None
           | _ \<Rightarrow> None))"

abbreviation StopEndTurn :: string where "StopEndTurn \<equiv> ''end_turn''"
abbreviation StopToolUse :: string where "StopToolUse \<equiv> ''tool_use''"
abbreviation StopMaxTokens :: string where "StopMaxTokens \<equiv> ''max_tokens''"
abbreviation StopStopSequence :: string where "StopStopSequence \<equiv> ''stop_sequence''"
abbreviation StopRefusal :: string where "StopRefusal \<equiv> ''refusal''"

definition validate_response :: "response \<Rightarrow> err option" where
  "validate_response resp =
     (if rs_stop resp \<noteq> StopToolUse then None
      else if tool_uses (rs_content resp) = []
        then Some (ApiErr ErrServer 0 ''provider returned stop_reason=tool_use with no tool_use block'' 0 None)
      else if list_ex (\<lambda>u. tu_name u = [] \<or> tu_id u = []) (tool_uses (rs_content resp))
        then Some (ApiErr ErrServer 0
               ''provider returned a tool_use block with an empty id or name'' 0 None)
      else None)"

definition with_validation :: "'w llm_client \<Rightarrow> 'w llm_client" where
  "with_validation nxt req w =
     (case validate_request req of
        Some e \<Rightarrow> (Inl e, w)
      | None \<Rightarrow>
          (case nxt req w of
             (Inl e, w') \<Rightarrow> (Inl e, w')
           | (Inr r, w') \<Rightarrow> (case validate_response r of Some e \<Rightarrow> (Inl e, w') | None \<Rightarrow> (Inr r, w'))))"

section \<open>Charging the budget (budget.go)\<close>

text \<open>The client runs over a budget and a rest of the world; the spend event is left out.\<close>

definition track_cost :: "(string \<times> rate) list \<Rightarrow> (budget \<times> 'w) llm_client \<Rightarrow> (budget \<times> 'w) llm_client" where
  "track_cost t nxt req st =
     (case nxt req st of
        (Inl e, st') \<Rightarrow> (Inl e, st')
      | (Inr r, (b, w)) \<Rightarrow>
          (let model = (if rs_model r = [] then rq_model req else rs_model r);
               u = rs_usage r
           in (Inr r,
               add_call (cost_usd t model u)
                 \<lparr>t_in = u_input u, t_out = u_output u, t_cache_write = u_cache_write u,
                  t_cache_read = u_cache_read u\<rparr> b, w)))"

section \<open>Backoff\<close>

lemma sint_bounds: "- (2 ^ 63) \<le> sint (w :: 64 word)" "sint (w :: 64 word) < 2 ^ 63"
  using sint_greater_eq[of w] sint_less[of w] by simp_all

lemma normalized_base: "0 < sint (rp_base (normalized p))"
  by (auto simp: normalized_def Let_def default_retry_policy_def word_sle_eq word_sless_alt)

lemma normalized_le: "sint (rp_base (normalized p)) \<le> sint (rp_max (normalized p))"
  by (auto simp: normalized_def Let_def word_sle_eq word_sless_alt)

lemma normalized_id:
  "0 < sint (rp_base p) \<Longrightarrow> sint (rp_base p) \<le> sint (rp_max p) \<Longrightarrow>
   0 \<le> rp_jitter p \<Longrightarrow> rp_jitter p \<le> 1 \<Longrightarrow> normalized p = p"
  by (simp add: normalized_def Let_def word_sle_eq word_sless_alt)

lemma normalized_attempts: "rp_max_attempts (normalized p) = rp_max_attempts p"
  by (simp add: normalized_def Let_def)

lemma normalized_jitter: "0 \<le> rp_jitter (normalized p)" "rp_jitter (normalized p) \<le> 1"
  by (simp_all add: normalized_def Let_def)

lemma normalized_idem: "normalized (normalized p) = normalized p"
  using normalized_base normalized_le normalized_jitter by (rule normalized_id)

lemma sint_signed_drop_bit: "sint (signed_drop_bit n (w :: 64 word)) = sint w div 2 ^ n"
  by (simp add: sint_signed_drop_bit_eq drop_bit_eq_div)

lemma sint_push_bit:
  fixes w :: "64 word"
  assumes "0 \<le> sint w" and "sint w * 2 ^ n < 2 ^ 63"
  shows "sint (push_bit n w) = sint w * 2 ^ n"
proof -
  have "sint (push_bit n w) = signed_take_bit 63 (push_bit n (sint w))"
    using signed_push_bit_eq[of n w, where 'a = int] by simp
  moreover have "0 \<le> sint w * 2 ^ n" using assms(1) by simp
  ultimately show ?thesis
    using assms(2) signed_take_bit_int_eq_self[of 63 "sint w * 2 ^ n"] by (simp add: push_bit_eq_mult)
qed

lemma backoff_value:
  fixes p :: retry_policy
  defines "q \<equiv> normalized p"
  shows "sint (backoff p attempt) =
    min (sint (rp_max q)) (sint (rp_base q) * 2 ^ nat attempt)"
proof (cases "attempt \<le> 0")
  case True
  then show ?thesis using normalized_le[of p] by (simp add: backoff_def q_def)
next
  case False
  have q: "0 < sint (rp_base q)" "sint (rp_base q) \<le> sint (rp_max q)" "sint (rp_max q) < 2 ^ 63"
    using normalized_base normalized_le sint_bounds by (simp_all add: q_def)
  show ?thesis
  proof (cases "attempt \<ge> 63")
    case True
    have "(2::int) ^ 63 \<le> 2 ^ nat attempt" using True by (intro power_increasing) auto
    also have "\<dots> \<le> sint (rp_base q) * 2 ^ nat attempt" using q(1) by simp
    finally show ?thesis using True q(3) by (simp add: backoff_def q_def)
  next
    case small: False
    have div: "sint (rp_max q) div 2 ^ nat attempt < sint (rp_base q) \<longleftrightarrow>
        sint (rp_max q) < sint (rp_base q) * 2 ^ nat attempt"
      by (rule int_div_less_iff) simp
    show ?thesis
    proof (cases "sint (rp_max q) < sint (rp_base q) * 2 ^ nat attempt")
      case True
      then show ?thesis using False div
        by (simp add: backoff_def q_def[symmetric] word_sless_alt sint_signed_drop_bit)
    next
      case le: False
      then have "sint (push_bit (nat attempt) (rp_base q)) = sint (rp_base q) * 2 ^ nat attempt"
        using q by (intro sint_push_bit) auto
      then show ?thesis using False small div le
        by (simp add: backoff_def q_def[symmetric] word_sless_alt sint_signed_drop_bit)
    qed
  qed
qed

section \<open>The retry loop\<close>

lemma retry_loop_log:
  assumes "retry_loop env p nxt req attempt w = (out, w', tries)"
  shows "tries \<noteq> [] \<and> int (length tries) \<le> max 1 (rp_max_attempts p - attempt) \<and>
    (\<forall>t\<in>set (butlast tries). \<exists>e. t = Inl e \<and> retryable e) \<and>
    (\<forall>r. last tries = Inr r \<longleftrightarrow> out = Inr r)"
  using assms
proof (induction "nat (rp_max_attempts p - attempt)" arbitrary: attempt w out w' tries rule: less_induct)
  case less
  note unfold = retry_loop.simps[of env p nxt req attempt w]
  show ?case
  proof (cases "nxt req w")
    case (Pair res w1)
    show ?thesis
    proof (cases res)
      case (Inr r)
      with less.prems Pair unfold show ?thesis by auto
    next
      case (Inl e)
      show ?thesis
      proof (cases "attempt + 1 \<ge> rp_max_attempts p \<or> \<not> retryable e \<or> env_cause env w1 \<noteq> None")
        case True
        then show ?thesis using less.prems Pair Inl unfold by (auto split: if_splits option.splits)
      next
        case False
        obtain rnd w2 where rnd: "env_rand env w1 = (rnd, w2)" by (cases "env_rand env w1")
        obtain c w3 where slp: "sleep_ctx env (retry_delay p attempt (retry_after e) rnd) w2 = (c, w3)"
          by (cases "sleep_ctx env (retry_delay p attempt (retry_after e) rnd) w2")
        show ?thesis
        proof (cases c)
          case (Some c')
          with less.prems Pair Inl False rnd slp unfold show ?thesis by (auto split: if_splits)
        next
          case None
          obtain out' w4 tries' where rec: "retry_loop env p nxt req (attempt + 1) w3 = (out', w4, tries')"
            by (cases "retry_loop env p nxt req (attempt + 1) w3")
          have "nat (rp_max_attempts p - (attempt + 1)) < nat (rp_max_attempts p - attempt)"
            using False by auto
          note ih = less.hyps[OF this rec]
          have ne: "tries' \<noteq> []" using ih by (rule conjunct1)
          have ihlen: "int (length tries') \<le> max 1 (rp_max_attempts p - (attempt + 1))"
            using ih by (elim conjE)
          have "out = out' \<and> tries = Inl e # tries'"
            using less.prems Pair Inl False rnd slp None rec unfold by simp
          moreover have "int (length (Inl e # tries')) \<le> max 1 (rp_max_attempts p - attempt)"
            using ihlen False by simp
          moreover have "butlast (Inl e # tries') = Inl e # butlast tries'" "last (Inl e # tries') = last tries'"
            using ne by simp_all
          moreover have "\<forall>t\<in>set (Inl e # butlast tries'). \<exists>e. t = Inl e \<and> retryable e"
            using ih False by simp
          moreover have "\<forall>r. last tries' = Inr r \<longleftrightarrow> out' = Inr r"
            using ih by (elim conjE)
          ultimately show ?thesis by simp
        qed
      qed
    qed
  qed
qed

lemma retryable_overflow:
  "classify_status st b ra = Some e \<Longrightarrow> errors_is e ErrContextWindow \<Longrightarrow> \<not> retryable e"
  using classify_status_retryable classify_status_overflow by fastforce

section \<open>Prefix lookup\<close>

text \<open>The specification of a prefix lookup: the value of the longest key that is a prefix.\<close>

definition is_longest :: "(string \<times> 'v) list \<Rightarrow> string \<Rightarrow> string \<Rightarrow> 'v \<Rightarrow> bool" where
  "is_longest t key p v \<longleftrightarrow> (p, v) \<in> set t \<and> has_prefix key p \<and>
     (\<forall>(q, u)\<in>set t. has_prefix key q \<longrightarrow> length q \<le> length p)"

lemma is_longest_snoc:
  "is_longest (t @ [(k, x)]) key p v \<longleftrightarrow>
     (if has_prefix key k then
        is_longest t key p v \<and> length k \<le> length p \<or>
        (p, v) = (k, x) \<and> (\<forall>(q, u)\<in>set t. has_prefix key q \<longrightarrow> length q \<le> length k)
      else is_longest t key p v)"
  by (auto simp: is_longest_def)

lemma better_prefix_simps [simp]:
  "better_prefix key None (k, x) = (if has_prefix key k then Some (k, x) else None)"
  "better_prefix key (Some (p, v)) (k, x) =
     (if length p < length k \<and> has_prefix key k then Some (k, x) else Some (p, v))"
  by (simp_all add: better_prefix_def)

lemma better_prefix_fold:
  "(foldl (better_prefix key) None t = None \<longleftrightarrow> (\<forall>(q, u)\<in>set t. \<not> has_prefix key q)) \<and>
   (\<forall>p v. foldl (better_prefix key) None t = Some (p, v) \<longrightarrow> is_longest t key p v)"
proof (induction t rule: rev_induct)
  case (snoc kv t)
  obtain k x where kv: "kv = (k, x)" by (cases kv)
  show ?case
  proof (cases "foldl (better_prefix key) None t")
    case None
    with snoc.IH have none: "\<forall>(q, u)\<in>set t. \<not> has_prefix key q" by simp
    then have "\<forall>(q, u)\<in>set t. has_prefix key q \<longrightarrow> length q \<le> length k" by blast
    with none None kv show ?thesis by (auto simp: is_longest_snoc)
  next
    case (Some pv)
    obtain p v where pv: "pv = (p, v)" by (cases pv)
    from snoc.IH Some pv have l: "is_longest t key p v" by simp
    then have some: "\<not> (\<forall>(q, u)\<in>set t. \<not> has_prefix key q)"
      "length p < length k \<Longrightarrow> \<forall>(q, u)\<in>set t. has_prefix key q \<longrightarrow> length q \<le> length k"
      by (fastforce simp: is_longest_def)+
    show ?thesis
      using Some pv kv l some by (auto simp: is_longest_snoc not_less)
  qed
qed simp

lemma better_prefix_best:
  "foldl (better_prefix key) None t = Some (p, v) \<Longrightarrow> is_longest t key p v"
  using better_prefix_fold[of key t] by simp

lemma better_prefix_none:
  "foldl (better_prefix key) None t = None \<longleftrightarrow> (\<forall>(q, u)\<in>set t. \<not> has_prefix key q)"
  using better_prefix_fold[of key t] by simp

lemma table_lookup_longest:
  assumes "distinct (map fst t)"
  shows "table_lookup t key = Some v \<longleftrightarrow> (\<exists>p. is_longest t key p v)"
proof -
  have unique: "v = v'" if "is_longest t key p v" "is_longest t key p' v'" for p p' v v'
  proof -
    have "length p = length p'" using that by (fastforce simp: is_longest_def)
    then have "p = p'" using that has_prefix_same_length[of key p p'] by (auto simp: is_longest_def)
    then show ?thesis using that assms by (auto simp: is_longest_def eq_key_imp_eq_value)
  qed
  show ?thesis
  proof (cases "map_of t key")
    case (Some w)
    then have "is_longest t key key w"
      using has_prefix_length by (auto simp: is_longest_def map_of_SomeD has_prefix_def)
    then show ?thesis using Some unique by (auto simp: table_lookup_def)
  next
    case None
    show ?thesis
    proof (cases "foldl (better_prefix key) None t")
      case (Some pv)
      obtain p w where pv: "pv = (p, w)" by (cases pv)
      have "is_longest t key p w" using better_prefix_best[of key t p w] Some pv by simp
      then show ?thesis using None Some pv unique by (auto simp: table_lookup_def)
    next
      case none: None
      then show ?thesis using None better_prefix_none[of key t]
        by (auto simp: table_lookup_def is_longest_def)
    qed
  qed
qed

section \<open>Persisted messages\<close>

lemma json_field_simps [simp]:
  "json_field k [] = None"
  "json_field k ((a, v) # kvs) =
     (case json_field k kvs of Some w \<Rightarrow> Some w
      | None \<Rightarrow> if to_lower a = to_lower k then Some v else None)"
  by (auto simp: json_field_def map_add_def split: option.splits)

lemma lower_keys [simp]:
  "to_lower ''type'' = ''type''" "to_lower ''text'' = ''text''" "to_lower ''id'' = ''id''"
  "to_lower ''name'' = ''name''" "to_lower ''input'' = ''input''"
  "to_lower ''tool_use_id'' = ''tool_use_id''" "to_lower ''content'' = ''content''"
  "to_lower ''is_error'' = ''is_error''" "to_lower ''signature'' = ''signature''"
  "to_lower ''role'' = ''role''" "to_lower ''model'' = ''model''" "to_lower ''usage'' = ''usage''"
  "to_lower ''stop_reason'' = ''stop_reason''"
  "to_lower ''input_tokens'' = ''input_tokens''" "to_lower ''output_tokens'' = ''output_tokens''"
  "to_lower ''cache_creation_input_tokens'' = ''cache_creation_input_tokens''"
  "to_lower ''cache_read_input_tokens'' = ''cache_read_input_tokens''"
  by (simp_all add: to_lower_def to_lower_char_def)

text \<open>A raw input that is already compact survives byte for byte; any other is compacted.\<close>

definition raw_ok :: "string \<Rightarrow> bool" where
  "raw_ok s = (s = [] \<or> (case json_parse s of Some v \<Rightarrow> json_ok v \<and> json_render v = s | None \<Rightarrow> False))"

fun block_ok :: "block \<Rightarrow> bool" where
  "block_ok (ToolUse u) = raw_ok (tu_input u)"
| "block_ok _ = True"

lemma block_round_trip:
  "block_ok b \<Longrightarrow> \<exists>j. block_json b = Some j \<and> json_ok j \<and> block_of_json j = Some b"
proof (induction b)
  case (ToolUse u)
  show ?case
  proof (cases "tu_input u = []")
    case True
    then show ?thesis
      by (cases "tu_id u = []"; cases "tu_name u = []")
        (simp_all add: block_of_json_def field_str_def field_bool_def field_raw_def str_field_def)
  next
    case False
    with ToolUse obtain v where v: "json_parse (tu_input u) = Some v" "json_ok v" "json_render v = tu_input u"
      by (auto simp: raw_ok_def split: option.splits)
    with False show ?thesis
      by (cases "tu_id u = []"; cases "tu_name u = []")
        (simp_all add: block_of_json_def field_str_def field_bool_def field_raw_def str_field_def)
  qed
next
  case (Text s)
  then show ?case
    by (cases "s = []") (simp_all add: block_of_json_def field_str_def field_bool_def str_field_def)
next
  case (ToolResult r)
  then show ?case
    by (cases "tr_id r = []"; cases "tr_content r = []"; cases "tr_is_error r")
      (simp_all add: block_of_json_def field_str_def field_bool_def str_field_def)
next
  case (Thinking s g)
  then show ?case
    by (cases "s = []"; cases "g = []")
      (simp_all add: block_of_json_def field_str_def field_bool_def str_field_def)
qed

lemma blocks_round_trip:
  assumes "list_all block_ok bs"
  shows "\<exists>js. map block_json bs = map Some js \<and> list_all json_ok js \<and> map block_of_json js = map Some bs"
  using assms
proof (induction bs)
  case (Cons b bs)
  then obtain js where "map block_json bs = map Some js" "list_all json_ok js"
    "map block_of_json js = map Some bs" by auto
  moreover from Cons.prems obtain j where "block_json b = Some j" "json_ok j" "block_of_json j = Some b"
    using block_round_trip[of b] by auto
  ultimately show ?case by (intro exI[of _ "j # js"]) simp
qed simp

lemma message_json_round_trip:
  assumes "list_all block_ok (msg_content m)"
  shows "\<exists>j. message_json m = Some j \<and> json_ok j \<and> message_of_json j = Some m"
proof -
  obtain js where js: "map block_json (msg_content m) = map Some js" "list_all json_ok js"
    "map block_of_json js = map Some (msg_content m)"
    using blocks_round_trip[OF assms] by blast
  let ?j = "JObj [(''role'', JStr (msg_role m)), (''content'', JArr js)]"
  have none: "None \<notin> set (map Some xs)" "map the (map Some xs) = xs" for xs :: "'z list"
    by (induction xs) auto
  have "message_json m = Some ?j"
    unfolding message_json_def Let_def js(1) using none[of js] by simp
  moreover have "message_of_json ?j = Some m"
    using none[of "msg_content m"]
    by (simp add: message_of_json_def field_str_def Let_def js(3))
  ultimately show ?thesis using js(2) by simp
qed

lemma message_round_trip:
  assumes "list_all block_ok (msg_content m)"
  shows "Option.bind (marshal_message m) unmarshal_message = Some m"
  using message_json_round_trip[OF assms] json_parse_render
  by (auto simp: marshal_message_def unmarshal_message_def)

section \<open>Properties\<close>

text \<open>The backoff computed with 64-bit shifts is the doubling of the base capped at the maximum,
  with no wrap-around at any attempt number: min(Max, Base * 2 ^ attempt) of the normalized policy.\<close>

theorem backoff_capped_doubling:
  "sint (backoff p attempt) =
     min (sint (rp_max (normalized p))) (sint (rp_base (normalized p)) * 2 ^ nat attempt)"
  by (rule backoff_value)

text \<open>C40: A retried call makes at least one and at most max(1, MaxAttempts) attempts, every attempt
  but the last failed with a retryable error, and the call succeeds exactly when its last attempt
  did, with that answer.\<close>

theorem retry_bounded:
  assumes "retry_loop env p nxt req 0 w = (out, w', tries)"
  shows "1 \<le> length tries \<and> int (length tries) \<le> max 1 (rp_max_attempts p) \<and>
    (\<forall>t\<in>set (butlast tries). \<exists>e. t = Inl e \<and> retryable e) \<and>
    (\<forall>r. last tries = Inr r \<longleftrightarrow> out = Inr r)"
  using retry_loop_log[OF assms] by (cases tries) simp_all

definition calm_env :: "unit env" where
  "calm_env = \<lparr>env_cause = (\<lambda>_. None), env_rand = (\<lambda>w. (0, w)), env_timer = (\<lambda>_ w. (None, w))\<rparr>"

definition empty_request :: request where
  "empty_request = \<lparr>rq_system = [], rq_messages = [], rq_tools = [], rq_choice = auto_choice,
     rq_model = [], rq_max_tokens = 0, rq_temperature = None, rq_top_p = None\<rparr>"

theorem retry_bounded_witness:
  "int (length [Inl ErrAuth :: err + response]) \<le> max 1 (rp_max_attempts default_retry_policy)"
  using retry_bounded[of calm_env default_retry_policy "\<lambda>_ w. (Inl ErrAuth, w)" empty_request "()"
      "Inl ErrAuth" "()" "[Inl ErrAuth]"]
  by (simp add: retry_loop.simps retryable.simps ErrAuth_def)

text \<open>The price of a model is that of the longest table key that is a prefix of its id, whatever
  order the map is walked in; a model is unpriced exactly when no key is a prefix of its id.\<close>

theorem price_longest_prefix:
  assumes "distinct (map fst t)"
  shows "(table_lookup t model = Some r \<longleftrightarrow> (\<exists>p. is_longest t model p r)) \<and>
    (priced t model \<longleftrightarrow> (\<exists>(p, r)\<in>set t. has_prefix model p))"
proof
  show "table_lookup t model = Some r \<longleftrightarrow> (\<exists>p. is_longest t model p r)"
    by (rule table_lookup_longest[OF assms])
  have "table_lookup t model = None \<longleftrightarrow> (\<forall>(q, u)\<in>set t. \<not> has_prefix model q)"
  proof (cases "map_of t model")
    case (Some v)
    then have "(model, v) \<in> set t" "has_prefix model model"
      by (auto simp: has_prefix_def dest: map_of_SomeD)
    with Some show ?thesis by (auto simp: table_lookup_def)
  qed (use better_prefix_none[of model t] in \<open>simp add: table_lookup_def\<close>)
  then show "priced t model \<longleftrightarrow> (\<exists>(p, r)\<in>set t. has_prefix model p)"
    by (auto simp: priced_def)
qed

definition flat_rate :: "real \<Rightarrow> rate" where
  "flat_rate x = \<lparr>rt_in = x, rt_out = 5 * x, rt_cache_write = x, rt_cache_read = x\<rparr>"

theorem price_longest_prefix_witness:
  "table_lookup [(''claude-'', flat_rate 3), (''claude-haiku'', flat_rate 1)] ''claude-haiku-4-5''
     = Some (flat_rate 1)"
proof -
  let ?t = "[(''claude-'', flat_rate 3), (''claude-haiku'', flat_rate 1)]"
  have "is_longest ?t ''claude-haiku-4-5'' ''claude-haiku'' (flat_rate 1)"
    by (simp add: is_longest_def has_prefix_def)
  then show ?thesis
    using price_longest_prefix[of ?t "''claude-haiku-4-5''" "flat_rate 1"] by auto
qed

text \<open>A message whose tool inputs are compact JSON survives persistence: encoding it to text and
  decoding that text gives the same message back, every block and field included.\<close>

theorem persisted_message_round_trip:
  assumes "list_all block_ok (msg_content m)"
  shows "Option.bind (marshal_message m) unmarshal_message = Some m"
  by (rule message_round_trip[OF assms])

theorem persisted_message_round_trip_witness:
  "Option.bind (marshal_message \<lparr>msg_role = ''user'', msg_content = [Text ''hi'']\<rparr>) unmarshal_message
     = Some \<lparr>msg_role = ''user'', msg_content = [Text ''hi'']\<rparr>"
  by (rule persisted_message_round_trip) simp

text \<open>Cost is charged per answered call only: a failed call leaves the budget exactly as the
  client left it, and an answered one adds its price and one call.\<close>

theorem track_cost_charges_answers:
  assumes "nxt req st = (out, (b, w))"
  shows "track_cost t nxt req st =
    (case out of
       Inl e \<Rightarrow> (Inl e, (b, w))
     | Inr r \<Rightarrow> (Inr r, (snd (track_cost t nxt req st)))) \<and>
    b_usd (fst (snd (track_cost t nxt req st))) = b_usd b +
      (case out of Inl _ \<Rightarrow> 0
       | Inr r \<Rightarrow> cost_usd t (if rs_model r = [] then rq_model req else rs_model r) (rs_usage r)) \<and>
    b_calls (fst (snd (track_cost t nxt req st))) = b_calls b + (case out of Inl _ \<Rightarrow> 0 | Inr _ \<Rightarrow> 1)"
  using assms by (cases out) (simp_all add: track_cost_def Let_def add_call_def)

theorem track_cost_charges_answers_witness:
  "b_calls (fst (snd (track_cost [] (\<lambda>_ st. (Inl ErrServer, st)) empty_request
     (with_budget two_step_limits 0, ())))) = 0"
  using track_cost_charges_answers[of "\<lambda>_ st. (Inl ErrServer, st)" empty_request
      "(with_budget two_step_limits 0, ())" "Inl ErrServer" "with_budget two_step_limits 0" "()" "[]"]
  by (simp add: with_budget_def)

end
