(* ===== verification/Tool.thy ===== *)
theory Tool
  imports TranscriptWf Llm "HOL-Library.Word"
begin

unbundle bit_operations_syntax

text \<open>
  Tools (\<^verbatim>\<open>tool/tool.go\<close>): definitions with capability and need bits, static sets, the
  filters over them, and the searches for a pausing or terminal call; and dispatch
  (\<^verbatim>\<open>tool/dispatch.go\<close>, \<^verbatim>\<open>tool/recover.go\<close>): one result per call, in call order, with a
  handler panic turned into an error. The handler \<^verbatim>\<open>Fn\<close> of a definition is kept apart, as
  the handler argument of dispatch. Durations of results are not modelled.
\<close>

section \<open>Definitions and sets\<close>

definition CapReadOnly :: "32 word" where "CapReadOnly = 1"
definition CapMutating :: "32 word" where "CapMutating = 2"
definition CapExec :: "32 word" where "CapExec = 4"
definition CapNetwork :: "32 word" where "CapNetwork = 8"
definition CapMeta :: "32 word" where "CapMeta = 16"
definition CapPause :: "32 word" where "CapPause = 32"
definition CapTerminal :: "32 word" where "CapTerminal = 64"
definition NeedFSRead :: "32 word" where "NeedFSRead = 1"
definition NeedFSWrite :: "32 word" where "NeedFSWrite = 2"
definition NeedExec :: "32 word" where "NeedExec = 4"
definition NeedNetwork :: "32 word" where "NeedNetwork = 8"

lemmas cap_defs = CapReadOnly_def CapMutating_def CapExec_def CapNetwork_def CapMeta_def CapPause_def
  CapTerminal_def NeedFSRead_def NeedFSWrite_def NeedExec_def NeedNetwork_def

record tool_def =
  td_name :: string
  td_description :: string
  td_schema :: string
  td_caps :: "32 word"
  td_needs :: "32 word"
  td_idempotent :: bool
  td_timeout :: int
  td_category :: string
  td_retryable :: "(err \<Rightarrow> bool) option"

definition spec_of :: "tool_def \<Rightarrow> tool_spec" where
  "spec_of d = \<lparr>ts_name = td_name d, ts_description = td_description d, ts_schema = td_schema d\<rparr>"

definition specs_of :: "tool_def list \<Rightarrow> tool_spec list" where
  "specs_of ds = map spec_of ds"

definition has_cap :: "tool_def \<Rightarrow> 32 word \<Rightarrow> bool" where
  "has_cap d c = (td_caps d AND c = c)"

record tool_set =
  set_visible :: "tool_def list"
  set_find :: "string \<Rightarrow> tool_def option"

text \<open>\<^verbatim>\<open>NewSet\<close> panics on a repeated name; the panic is \<^const>\<open>None\<close>.\<close>

definition new_set :: "tool_def list \<Rightarrow> tool_set option" where
  "new_set ds =
     (if distinct (map td_name ds)
      then Some \<lparr>set_visible = ds, set_find = (\<lambda>n. List.find (\<lambda>d. td_name d = n) ds)\<rparr>
      else None)"

definition filter_tools :: "tool_def list \<Rightarrow> (tool_def \<Rightarrow> bool) \<Rightarrow> tool_def list" where
  "filter_tools ds p = filter p ds"

definition only_caps :: "32 word \<Rightarrow> tool_def \<Rightarrow> bool" where
  "only_caps allowed d = (td_caps d AND NOT allowed = 0)"

definition provided :: "32 word \<Rightarrow> tool_def \<Rightarrow> bool" where
  "provided have d = (td_needs d AND NOT have = 0)"

fun find_cap :: "32 word \<Rightarrow> tool_set \<Rightarrow> tool_use list \<Rightarrow> tool_use option" where
  "find_cap c s [] = None"
| "find_cap c s (u # us) =
     (case set_find s (tu_name u) of
        Some d \<Rightarrow> if has_cap d c then Some u else find_cap c s us
      | None \<Rightarrow> find_cap c s us)"

definition find_pause :: "tool_set \<Rightarrow> tool_use list \<Rightarrow> tool_use option" where
  "find_pause = find_cap CapPause"

definition find_terminal :: "tool_set \<Rightarrow> tool_use list \<Rightarrow> tool_use option" where
  "find_terminal = find_cap CapTerminal"

section \<open>Previews (tool/middleware.go)\<close>

definition rune_start :: "char \<Rightarrow> bool" where
  "rune_start c = (\<not> (128 \<le> (of_char c :: nat) \<and> (of_char c :: nat) < 192))"

fun boundary_from :: "string \<Rightarrow> nat \<Rightarrow> nat" where
  "boundary_from s 0 = 0"
| "boundary_from s (Suc n) = (if rune_start (s ! Suc n) then Suc n else boundary_from s n)"

definition boundary :: "string \<Rightarrow> nat \<Rightarrow> nat" where
  "boundary s n = (if n \<ge> length s then length s else boundary_from s n)"

definition preview :: "string \<Rightarrow> nat \<Rightarrow> string" where
  "preview s n = (if length s \<le> n then s else take (boundary s n) s @ ''...'')"

section \<open>Calling one tool\<close>

text \<open>
  A handler call ends in a value, an error, or a panic carrying the formatted panic value and stack;
  \<open>tags\<close> are what \<^verbatim>\<open>Annotate\<close> collected meanwhile.
\<close>

datatype call_end = Returned "err + string" | Panicked string string

type_synonym 'w handler = "tool_def \<Rightarrow> tool_use \<Rightarrow> 'w \<Rightarrow> call_end \<times> 'w"

definition direct :: "(tool_def \<Rightarrow> (string \<Rightarrow> 'w \<Rightarrow> call_end \<times> 'w) option) \<Rightarrow> 'w handler" where
  "direct fn d u w = (case fn d of
     None \<Rightarrow> (Returned (Inl (Sentinel (''tool: '' @ td_name d @ '' has no handler''))), w)
   | Some f \<Rightarrow> f (tu_input u) w)"

definition recovered :: "string \<Rightarrow> string \<Rightarrow> string \<Rightarrow> err" where
  "recovered name v stack = PanicErr name (preview v 200) (preview stack 4096)"

definition with_recovery :: "'w handler \<Rightarrow> 'w handler" where
  "with_recovery nxt d u w = (case nxt d u w of
     (Panicked v st, w') \<Rightarrow> (Returned (Inl (recovered (td_name d) v st)), w')
   | (Returned r, w') \<Rightarrow> (Returned r, w'))"

definition ErrUnknownTool :: err where
  "ErrUnknownTool = CallerErr (Sentinel ''tool: unknown tool'')"

record call_result =
  cr_use_id :: tool_use_id
  cr_name :: string
  cr_output :: string
  cr_err :: "err option"
  cr_tags :: "string list"

definition no_result :: "tool_use \<Rightarrow> call_result" where
  "no_result u = \<lparr>cr_use_id = tu_id u, cr_name = tu_name u, cr_output = [], cr_err = None, cr_tags = []\<rparr>"

text \<open>\<open>settle\<close> is the body of \<^verbatim>\<open>run\<close> after the handler, its deferred recovery included.\<close>

definition settle_call :: "tool_use \<Rightarrow> call_end \<Rightarrow> string list \<Rightarrow> call_result" where
  "settle_call u fin tags = (case fin of
     Returned (Inr s) \<Rightarrow> (no_result u)\<lparr>cr_output := s, cr_tags := tags\<rparr>
   | Returned (Inl e) \<Rightarrow> (no_result u)\<lparr>cr_err := Some e, cr_tags := tags\<rparr>
   | Panicked v st \<Rightarrow> (no_result u)\<lparr>cr_err := Some (recovered (tu_name u) v st)\<rparr>)"

definition unknown_tool :: "tool_use \<Rightarrow> call_result" where
  "unknown_tool u = (no_result u)\<lparr>cr_err := Some ErrUnknownTool\<rparr>"

type_synonym 'w tagged_handler = "tool_def \<Rightarrow> tool_use \<Rightarrow> 'w \<Rightarrow> call_end \<times> string list \<times> 'w"

definition run_call :: "tool_set \<Rightarrow> 'w tagged_handler \<Rightarrow> tool_use \<Rightarrow> 'w \<Rightarrow> call_result \<times> 'w" where
  "run_call s h u w = (case set_find s (tu_name u) of
     None \<Rightarrow> (unknown_tool u, w)
   | Some d \<Rightarrow> (case h d u w of (fin, tags, w') \<Rightarrow> (settle_call u fin tags, w')))"

text \<open>The sequential path: parallelism at most one, or a single call.\<close>

fun dispatch_seq :: "tool_set \<Rightarrow> 'w tagged_handler \<Rightarrow> tool_use list \<Rightarrow> 'w \<Rightarrow> call_result list \<times> 'w" where
  "dispatch_seq s h [] w = ([], w)"
| "dispatch_seq s h (u # us) w =
     (case run_call s h u w of (r, w1) \<Rightarrow>
       (case dispatch_seq s h us w1 of (rs, w2) \<Rightarrow> (r # rs, w2)))"

text \<open>
  A result becomes the tool-result block of its call; \<open>show\<close> is \<^verbatim>\<open>Error()\<close>.
\<close>

definition result_block :: "(err \<Rightarrow> string) \<Rightarrow> call_result \<Rightarrow> block" where
  "result_block shw r = (case cr_err r of
     Some e \<Rightarrow> ToolResult \<lparr>tr_id = cr_use_id r, tr_content = shw e, tr_is_error = True\<rparr>
   | None \<Rightarrow> ToolResult \<lparr>tr_id = cr_use_id r, tr_content = cr_output r, tr_is_error = False\<rparr>)"

definition result_blocks :: "(err \<Rightarrow> string) \<Rightarrow> call_result list \<Rightarrow> block list" where
  "result_blocks shw rs = map (result_block shw) rs"

section \<open>Dispatch in parallel\<close>

text \<open>
  One goroutine per call and a semaphore of \<open>limit\<close> slots. A call waits, runs once it holds a slot,
  and is done with the result its handler produced; the handlers may end in any order.
\<close>

datatype slot = Waiting | Running | Done call_result

definition running :: "slot list \<Rightarrow> nat" where
  "running sl = length (filter (\<lambda>x. x = Running) sl)"

inductive dispatch_step :: "tool_set \<Rightarrow> nat \<Rightarrow> tool_use list \<Rightarrow> slot list \<Rightarrow> slot list \<Rightarrow> bool"
  for s limit uses where
  acquire: "i < length sl \<Longrightarrow> sl ! i = Waiting \<Longrightarrow> running sl < limit \<Longrightarrow>
    dispatch_step s limit uses sl (sl[i := Running])"
| unknown: "i < length sl \<Longrightarrow> sl ! i = Running \<Longrightarrow> set_find s (tu_name (uses ! i)) = None \<Longrightarrow>
    dispatch_step s limit uses sl (sl[i := Done (unknown_tool (uses ! i))])"
| finish: "i < length sl \<Longrightarrow> sl ! i = Running \<Longrightarrow> set_find s (tu_name (uses ! i)) = Some d \<Longrightarrow>
    dispatch_step s limit uses sl (sl[i := Done (settle_call (uses ! i) fin tags)])"

inductive_cases dispatch_stepE: "dispatch_step s limit uses sl sl'"

section \<open>Facts\<close>

lemma word_and_not_zero:
  fixes a b :: "32 word"
  shows "a AND NOT b = 0 \<longleftrightarrow> (\<forall>n. bit a n \<longrightarrow> bit b n)"
proof
  assume zero: "a AND NOT b = 0"
  show "\<forall>n. bit a n \<longrightarrow> bit b n"
  proof (intro allI impI)
    fix n assume a: "bit a n"
    then have "n < 32" by (auto dest: bit_imp_le_length)
    have "\<not> bit (a AND NOT b) n" using zero by simp
    with a \<open>n < 32\<close> show "bit b n" by (simp add: bit_simps)
  qed
next
  assume "\<forall>n. bit a n \<longrightarrow> bit b n"
  then show "a AND NOT b = 0" by (intro bit_word_eqI) (simp add: bit_simps)
qed

lemma boundary_le: "boundary s n \<le> length s \<and> boundary s n \<le> n"
proof -
  have "boundary_from s m \<le> m" for m by (induction m) auto
  from this[of n] show ?thesis by (auto simp: boundary_def)
qed

lemma boundary_rune:
  "boundary s n = 0 \<or> boundary s n = length s \<or> rune_start (s ! boundary s n)"
proof -
  have "boundary_from s m = 0 \<or> rune_start (s ! boundary_from s m)" for m by (induction m) auto
  from this[of n] show ?thesis by (auto simp: boundary_def)
qed

lemma find_cap_in: "find_cap c s us = Some u \<Longrightarrow> u \<in> set us"
  by (induction us) (auto split: option.splits if_splits)

lemma find_cap_iff:
  "find_cap c s us = Some u \<longleftrightarrow>
     (\<exists>pre post. us = pre @ u # post \<and> (\<exists>d. set_find s (tu_name u) = Some d \<and> has_cap d c) \<and>
        (\<forall>v\<in>set pre. \<forall>d. set_find s (tu_name v) = Some d \<longrightarrow> \<not> has_cap d c))"
proof (induction us)
  case (Cons v us)
  show ?case
  proof (cases "\<exists>d. set_find s (tu_name v) = Some d \<and> has_cap d c")
    case True
    then show ?thesis by (auto simp: Cons_eq_append_conv intro: exI[of _ "[]"])
  next
    case False
    then have skip: "find_cap c s (v # us) = find_cap c s us" by (auto split: option.splits)
    show ?thesis
    proof
      assume "find_cap c s (v # us) = Some u"
      with skip Cons.IH obtain pre post where "us = pre @ u # post"
        "\<exists>d. set_find s (tu_name u) = Some d \<and> has_cap d c"
        "\<forall>v\<in>set pre. \<forall>d. set_find s (tu_name v) = Some d \<longrightarrow> \<not> has_cap d c" by auto
      with False show "\<exists>pre post. v # us = pre @ u # post \<and>
          (\<exists>d. set_find s (tu_name u) = Some d \<and> has_cap d c) \<and>
          (\<forall>v\<in>set pre. \<forall>d. set_find s (tu_name v) = Some d \<longrightarrow> \<not> has_cap d c)"
        by (intro exI[of _ "v # pre"] exI[of _ post]) auto
    next
      assume "\<exists>pre post. v # us = pre @ u # post \<and>
          (\<exists>d. set_find s (tu_name u) = Some d \<and> has_cap d c) \<and>
          (\<forall>v\<in>set pre. \<forall>d. set_find s (tu_name v) = Some d \<longrightarrow> \<not> has_cap d c)"
      then show "find_cap c s (v # us) = Some u"
        using False skip Cons.IH by (auto simp: Cons_eq_append_conv)
    qed
  qed
qed simp

lemma new_set_find:
  assumes "new_set ds = Some s"
  shows "set_find s n = Some d \<longleftrightarrow> d \<in> set ds \<and> td_name d = n"
proof -
  from assms have s: "set_find s = (\<lambda>n. List.find (\<lambda>d. td_name d = n) ds)" "distinct (map td_name ds)"
    by (auto simp: new_set_def split: if_splits)
  have "distinct (map td_name xs) \<Longrightarrow>
      List.find (\<lambda>d. td_name d = n) xs = Some d \<longleftrightarrow> d \<in> set xs \<and> td_name d = n" for xs
    by (induction xs) (auto simp: image_iff)
  with s show ?thesis by simp
qed

lemma settle_call_ids [simp]:
  "cr_use_id (settle_call u fin tags) = tu_id u" "cr_name (settle_call u fin tags) = tu_name u"
  "cr_use_id (unknown_tool u) = tu_id u" "cr_name (unknown_tool u) = tu_name u"
  by (auto simp: settle_call_def no_result_def unknown_tool_def split: call_end.splits sum.splits)

lemma run_call_ids:
  "run_call s h u w = (r, w') \<Longrightarrow> cr_use_id r = tu_id u \<and> cr_name r = tu_name u"
  by (auto simp: run_call_def split: option.splits prod.splits)

lemma dispatch_seq_ids:
  "dispatch_seq s h us w = (rs, w') \<Longrightarrow>
   map cr_use_id rs = map tu_id us \<and> map cr_name rs = map tu_name us"
  by (induction us arbitrary: w rs w') (auto split: prod.splits dest: run_call_ids)

lemma result_block_ids [simp]: "result_ids (result_blocks shw rs) = map cr_use_id rs"
  "use_ids (result_blocks shw rs) = []"
  by (induction rs) (auto simp: result_blocks_def result_block_def split: option.splits)

subsection \<open>Parallel dispatch\<close>

definition slots_ok :: "nat \<Rightarrow> tool_use list \<Rightarrow> slot list \<Rightarrow> bool" where
  "slots_ok limit uses sl \<longleftrightarrow> length sl = length uses \<and> running sl \<le> limit \<and>
     (\<forall>i<length sl. \<forall>r. sl ! i = Done r \<longrightarrow> cr_use_id r = tu_id (uses ! i) \<and> cr_name r = tu_name (uses ! i))"

lemma running_update:
  "i < length sl \<Longrightarrow>
   running (sl[i := x]) + (if sl ! i = Running then 1 else 0) = running sl + (if x = Running then 1 else 0)"
  unfolding running_def using filter_update_length[of i sl "\<lambda>x. x = Running" x] by simp

lemma dispatch_step_ok:
  "dispatch_step s limit uses sl sl' \<Longrightarrow> slots_ok limit uses sl \<Longrightarrow> slots_ok limit uses sl'"
proof (induction rule: dispatch_step.induct)
  case (acquire i sl)
  with running_update[of i sl Running] show ?case by (auto simp: slots_ok_def nth_list_update)
next
  case (unknown i sl)
  with running_update[of i sl "Done (unknown_tool (uses ! i))"] show ?case
    by (auto simp: slots_ok_def nth_list_update)
next
  case (finish i sl d fin tags)
  with running_update[of i sl "Done (settle_call (uses ! i) fin tags)"] show ?case
    by (auto simp: slots_ok_def nth_list_update)
qed

lemma dispatch_reach_ok:
  assumes "(dispatch_step s limit uses)\<^sup>*\<^sup>* (replicate (length uses) Waiting) sl"
  shows "slots_ok limit uses sl"
  using assms
proof (induction rule: rtranclp_induct)
  case base
  show ?case by (simp add: slots_ok_def running_def)
qed (rule dispatch_step_ok)

text \<open>Work left: two for a waiting call, one for a running one.\<close>

fun slot_work :: "slot \<Rightarrow> nat" where
  "slot_work Waiting = 2"
| "slot_work Running = 1"
| "slot_work (Done _) = 0"

definition work_left :: "slot list \<Rightarrow> nat" where
  "work_left sl = sum_list (map slot_work sl)"

lemma work_update:
  "i < length sl \<Longrightarrow> work_left (sl[i := x]) + slot_work (sl ! i) = work_left sl + slot_work x"
  unfolding work_left_def
proof (induction sl arbitrary: i)
  case (Cons a sl)
  then show ?case by (cases i) auto
qed simp

lemma dispatch_step_work: "dispatch_step s limit uses sl sl' \<Longrightarrow> work_left sl' < work_left sl"
proof (induction rule: dispatch_step.induct)
  case (acquire i sl)
  with work_update[of i sl Running] show ?case by simp
next
  case (unknown i sl)
  with work_update[of i sl "Done (unknown_tool (uses ! i))"] show ?case by simp
next
  case (finish i sl d fin tags)
  with work_update[of i sl "Done (settle_call (uses ! i) fin tags)"] show ?case by simp
qed

lemma dispatch_enabled:
  assumes "0 < limit" and "length sl = length uses" and "0 < work_left sl"
  shows "\<exists>sl'. dispatch_step s limit uses sl sl'"
proof -
  have "\<exists>i<length sl. slot_work (sl ! i) > 0"
  proof (rule ccontr)
    assume "\<not> ?thesis"
    then have "\<forall>x\<in>set sl. slot_work x = 0" by (metis in_set_conv_nth not_gr_zero)
    then have "work_left sl = 0" unfolding work_left_def by (induction sl) auto
    with assms(3) show False by simp
  qed
  then obtain i where i: "i < length sl" "slot_work (sl ! i) > 0" by blast
  show ?thesis
  proof (cases "\<exists>j<length sl. sl ! j = Running")
    case True
    then obtain j where j: "j < length sl" "sl ! j = Running" by blast
    show ?thesis
    proof (cases "set_find s (tu_name (uses ! j))")
      case None
      from dispatch_step.unknown[OF j None] show ?thesis by blast
    next
      case (Some d)
      from dispatch_step.finish[OF j Some] show ?thesis by blast
    qed
  next
    case False
    then have "\<forall>x\<in>set sl. x \<noteq> Running" by (metis in_set_conv_nth)
    then have "running sl = 0" by (simp add: running_def filter_empty_conv)
    then have free: "running sl < limit" using assms(1) by simp
    from i False have "sl ! i = Waiting" by (cases "sl ! i") auto
    from dispatch_step.acquire[OF i(1) this free] show ?thesis by blast
  qed
qed

section \<open>Properties\<close>

text \<open>A capability filter admits exactly the tools whose every capability bit is allowed, and a
  need filter exactly those whose every need is provided.\<close>

theorem filters_are_subset_tests:
  "(only_caps allowed d \<longleftrightarrow> {n. bit (td_caps d) n} \<subseteq> {n. bit allowed n}) \<and>
   (provided have d \<longleftrightarrow> {n. bit (td_needs d) n} \<subseteq> {n. bit have n})"
  by (auto simp: only_caps_def provided_def word_and_not_zero)

text \<open>C31: Dispatch in parallel, from all calls waiting: whatever the interleaving, no more handlers run
  at once than there are slots, there is one slot per call, and every finished one holds a result
  with the id and the name of the call at its position.\<close>

theorem parallel_dispatch_aligned:
  assumes "(dispatch_step s limit uses)\<^sup>*\<^sup>* (replicate (length uses) Waiting) sl"
  shows "length sl = length uses \<and> running sl \<le> limit \<and>
    (\<forall>i<length sl. \<forall>r. sl ! i = Done r \<longrightarrow>
       cr_use_id r = tu_id (uses ! i) \<and> cr_name r = tu_name (uses ! i))"
  using dispatch_reach_ok[OF assms] by (simp add: slots_ok_def)

definition no_tools :: tool_set where
  "no_tools = \<lparr>set_visible = [], set_find = (\<lambda>_. None)\<rparr>"

definition call_a :: tool_use where
  "call_a = \<lparr>tu_id = ''a'', tu_name = ''ls'', tu_input = []\<rparr>"

lemma call_a_runs:
  "(dispatch_step no_tools 1 [call_a])\<^sup>*\<^sup>* (replicate (length [call_a]) Waiting) [Done (unknown_tool call_a)]"
proof -
  have "dispatch_step no_tools 1 [call_a] [Waiting] [Running]"
    using dispatch_step.acquire[of 0 "[Waiting]" 1] by (simp add: running_def)
  moreover have "dispatch_step no_tools 1 [call_a] [Running] [Done (unknown_tool call_a)]"
    using dispatch_step.unknown[of 0 "[Running]" no_tools "[call_a]" 1] by (simp add: no_tools_def)
  ultimately show ?thesis by (simp add: converse_rtranclp_into_rtranclp)
qed

theorem parallel_dispatch_aligned_witness: "cr_use_id (unknown_tool call_a) = ''a''"
  using parallel_dispatch_aligned[OF call_a_runs] by (simp add: call_a_def)

text \<open>Parallel dispatch ends: while any call is not finished some call can advance, and every step
  uses up one of the two units of work each call has, so after at most twice the number of calls
  every call has its result.\<close>

theorem parallel_dispatch_terminates:
  assumes "(dispatch_step s limit uses)\<^sup>*\<^sup>* (replicate (length uses) Waiting) sl" and "0 < limit"
  shows "(work_left sl = 0 \<or> (\<exists>sl'. dispatch_step s limit uses sl sl')) \<and>
    (\<forall>sl'. dispatch_step s limit uses sl sl' \<longrightarrow> work_left sl' < work_left sl) \<and>
    work_left sl \<le> 2 * length uses"
proof -
  have "work_left sl \<le> work_left (replicate (length uses) Waiting)"
    using assms(1) by (induction rule: rtranclp_induct) (auto dest: dispatch_step_work)
  moreover have "work_left (replicate n Waiting) = 2 * n" for n
    by (induction n) (auto simp: work_left_def)
  ultimately show ?thesis
    using dispatch_enabled[OF assms(2), of sl uses s] dispatch_reach_ok[OF assms(1)]
    by (auto simp: slots_ok_def dest: dispatch_step_work)
qed

theorem parallel_dispatch_terminates_witness: "work_left [Done (unknown_tool call_a)] \<le> 2"
  using parallel_dispatch_terminates[OF call_a_runs] by simp

end
