(* ===== verification/ToolChain.thy ===== *)
theory ToolChain
  imports Tool
begin

text \<open>
  The tool middleware of \<^verbatim>\<open>tool/middleware.go\<close>: input validation, the per-call timeout,
  retries, the circuit breaker, the repeat counters, and observation truncation. A handler runs in
  a world \<open>'w\<close>; what the middleware observes of it (the clock, the cause of the call's context,
  the cause of a context derived with a deadline, a random draw, a timer) is the record \<open>call_env\<close>.
  A panic unwinds through every layer untouched.
\<close>

record 'w call_env =
  ce_now :: "'w \<Rightarrow> int"
  ce_cause :: "'w \<Rightarrow> err option"
  ce_child :: "err \<Rightarrow> int \<Rightarrow> 'w \<Rightarrow> 'w \<Rightarrow> err option"
  ce_rand :: "'w \<Rightarrow> real \<times> 'w"
  ce_timer :: "int \<Rightarrow> 'w \<Rightarrow> err option \<times> 'w"
  ce_text :: "err \<Rightarrow> string"

definition ErrInvalidInput :: err where
  "ErrInvalidInput = CallerErr (Sentinel ''tool: invalid input'')"
definition ErrTimeout :: err where
  [sentinel_defs]: "ErrTimeout = Sentinel ''tool: timeout''"
definition ErrCircuitOpen :: err where
  [sentinel_defs]: "ErrCircuitOpen = Sentinel ''tool: circuit breaker open''"

section \<open>Validation and timeout\<close>

definition input_ok :: "string \<Rightarrow> bool" where
  "input_ok s = (s = [] \<or> (case json_parse s of Some (JObj _) \<Rightarrow> True | _ \<Rightarrow> False))"

definition with_input_validation :: "'w handler \<Rightarrow> 'w handler" where
  "with_input_validation nxt d u w =
     (if \<not> input_ok (tu_input u)
      then (Returned (Inl (Wrapf (''tool '' @ td_name d @ '' expects a JSON object, got '' @
              preview (tu_input u) 200) [ErrInvalidInput])), w)
      else nxt d u w)"

text \<open>\<^verbatim>\<open>tool.Typed\<close>: the input is decoded into the handler's struct; no input is the zero struct.\<close>

definition typed_input :: "((string \<times> json) list \<Rightarrow> 'i option) \<Rightarrow> string \<Rightarrow> string \<Rightarrow> err + 'i" where
  "typed_input f name raw =
     (case (if raw = [] then f []
            else case json_parse raw of Some (JObj kvs) \<Rightarrow> f kvs | Some JNull \<Rightarrow> f [] | _ \<Rightarrow> None) of
        Some i \<Rightarrow> Inr i
      | None \<Rightarrow> Inl (Wrapf name [ErrInvalidInput]))"

definition with_timeout :: "'w call_env \<Rightarrow> int \<Rightarrow> 'w handler \<Rightarrow> 'w handler" where
  "with_timeout env fallback nxt d u w =
     (let budget = (if td_timeout d \<le> 0 then fallback else td_timeout d) in
      if budget \<le> 0 then nxt d u w
      else let limit = Wrapf (''tool '' @ td_name d @ '' exceeded its budget'') [ErrTimeout] in
        case nxt d u w of
          (Returned (Inl e), w') \<Rightarrow>
            (case ce_child env limit budget w w' of
               None \<Rightarrow> (Returned (Inl e), w')
             | Some c \<Rightarrow>
                 if ce_text env e \<noteq> [] \<and> \<not> errors_is e c \<and> \<not> errors_is e ErrDeadlineExceeded \<and>
                    \<not> errors_is e ErrCanceled
                 then (Returned (Inl (Wrapf (''tool reported: '' @ ce_text env e) [c])), w')
                 else (Returned (Inl c), w'))
        | r \<Rightarrow> r)"

section \<open>Retry\<close>

record tool_retry =
  tp_max_attempts :: int
  tp_base :: int
  tp_max :: int
  tp_jitter :: real

definition default_tool_retry :: tool_retry where
  "default_tool_retry = \<lparr>tp_max_attempts = 3, tp_base = 200000000, tp_max = 10000000000,
     tp_jitter = 1 / 2\<rparr>"

definition with_defaults :: "tool_retry \<Rightarrow> tool_retry" where
  "with_defaults p =
     (let p = (if tp_max_attempts p \<le> 0 then p\<lparr>tp_max_attempts := 3\<rparr> else p);
          p = (if tp_base p \<le> 0 then p\<lparr>tp_base := tp_base default_tool_retry\<rparr> else p);
          p = (if tp_max p \<le> 0 then p\<lparr>tp_max := tp_max default_tool_retry\<rparr> else p)
      in if tp_jitter p = 0 then p\<lparr>tp_jitter := tp_jitter default_tool_retry\<rparr> else p)"

text \<open>The floating-point arithmetic of \<^verbatim>\<open>Backoff\<close> is exact here; \<open>rnd\<close> is in \<open>[0, 1)\<close>.\<close>

definition tool_backoff :: "tool_retry \<Rightarrow> int \<Rightarrow> real \<Rightarrow> int" where
  "tool_backoff p attempt rnd =
     (let p = with_defaults p;
          attempt = (if attempt < 0 then 0 else attempt);
          d = of_int (tp_base p) * 2 ^ nat attempt;
          d = (if d > of_int (tp_max p) then of_int (tp_max p) else d);
          d = (if tp_jitter p > 0 then d * (1 + tp_jitter p * (2 * rnd - 1)) else d);
          d = (if d < 0 then 0 else d)
      in \<lfloor>d\<rfloor>)"

definition tool_sleep :: "'w call_env \<Rightarrow> int \<Rightarrow> 'w \<Rightarrow> err option \<times> 'w" where
  "tool_sleep env d w =
     (if d \<le> 0 then (map_option (\<lambda>c. if errors_is c ErrDeadlineExceeded then ErrDeadlineExceeded
                                  else ErrCanceled) (ce_cause env w), w)
      else ce_timer env d w)"

text \<open>The last component is a ghost: the ends of the attempts, oldest first.\<close>

function tool_retry_loop :: "'w call_env \<Rightarrow> tool_retry \<Rightarrow> (err \<Rightarrow> bool) \<Rightarrow> 'w handler \<Rightarrow> tool_def
    \<Rightarrow> tool_use \<Rightarrow> int \<Rightarrow> 'w \<Rightarrow> call_end \<times> 'w \<times> call_end list" where
  "tool_retry_loop env p again nxt d u attempt w =
     (case nxt d u w of
        (Returned (Inl e), w1) \<Rightarrow>
          if \<not> again e \<or> attempt + 1 \<ge> tp_max_attempts p
          then (Returned (Inl e), w1, [Returned (Inl e)])
          else (case ce_rand env w1 of (rnd, w2) \<Rightarrow>
            (let delay = tool_backoff p attempt rnd;
                 delay = (if retry_after e > delay then retry_after e else delay)
             in case tool_sleep env delay w2 of
                  (Some c, w3) \<Rightarrow> (Returned (Inl c), w3, [Returned (Inl e)])
                | (None, w3) \<Rightarrow>
                    (case tool_retry_loop env p again nxt d u (attempt + 1) w3 of
                       (out, w4, tries) \<Rightarrow> (out, w4, Returned (Inl e) # tries))))
      | (r, w1) \<Rightarrow> (r, w1, [r]))"
  by pat_completeness auto
termination
  by (relation "measure (\<lambda>(env, p, again, nxt, d, u, attempt, w). nat (tp_max_attempts p - attempt))") auto

declare tool_retry_loop.simps [simp del]

definition with_tool_retry :: "'w call_env \<Rightarrow> tool_retry \<Rightarrow> 'w handler \<Rightarrow> 'w handler" where
  "with_tool_retry env p nxt d u w =
     (case (td_idempotent d, td_retryable d) of
        (True, Some again) \<Rightarrow>
          (case tool_retry_loop env (with_defaults p) again nxt d u 0 w of (out, w', _) \<Rightarrow> (out, w'))
      | _ \<Rightarrow> nxt d u w)"

section \<open>Circuit breaker\<close>

text \<open>
  Per tool name: consecutive counted failures and the time until which the breaker is open (0 is
  Go's zero time). The map is the closure's, so it is threaded beside the world.
\<close>

record breaker =
  br_failures :: int
  br_open_until :: int

definition no_breaker :: breaker where
  "no_breaker = \<lparr>br_failures = 0, br_open_until = 0\<rparr>"

definition breaker_of :: "(string \<rightharpoonup> breaker) \<Rightarrow> string \<Rightarrow> breaker" where
  "breaker_of m n = (case m n of Some b \<Rightarrow> b | None \<Rightarrow> no_breaker)"

definition breaker_record :: "int \<Rightarrow> int \<Rightarrow> int \<Rightarrow> bool \<Rightarrow> breaker \<Rightarrow> breaker" where
  "breaker_record threshold cooldown now ok b =
     (if ok then no_breaker
      else let b = b\<lparr>br_failures := br_failures b + 1\<rparr> in
        if br_failures b \<ge> threshold then b\<lparr>br_open_until := now + cooldown, br_failures := 0\<rparr> else b)"

definition with_circuit_breaker :: "'w call_env \<Rightarrow> int \<Rightarrow> int \<Rightarrow> 'w handler
    \<Rightarrow> tool_def \<Rightarrow> tool_use \<Rightarrow> (string \<rightharpoonup> breaker) \<times> 'w \<Rightarrow> call_end \<times> (string \<rightharpoonup> breaker) \<times> 'w" where
  "with_circuit_breaker env threshold cooldown nxt d u st =
     (case st of (m, w) \<Rightarrow>
      if threshold \<le> 0 \<or> cooldown \<le> 0 then (case nxt d u w of (r, w') \<Rightarrow> (r, m, w'))
      else
        (let b = breaker_of m (td_name d); m = m(td_name d \<mapsto> b) in
         if br_open_until b - ce_now env w > 0
         then (Returned (Inl (Wrapf (td_name d @ '' has failed repeatedly; not retrying'') [ErrCircuitOpen])), m, w)
         else
           (case nxt d u w of
              (Panicked v s, w') \<Rightarrow> (Panicked v s, m, w')
            | (Returned (Inl e), w') \<Rightarrow>
                if ce_cause env w' \<noteq> None \<or> is_caller_fault e then (Returned (Inl e), m, w')
                else (Returned (Inl e),
                      m(td_name d \<mapsto> breaker_record threshold cooldown (ce_now env w') False b), w')
            | (Returned (Inr out), w') \<Rightarrow>
                (Returned (Inr out),
                 m(td_name d \<mapsto> breaker_record threshold cooldown (ce_now env w') True b), w'))))"

section \<open>Repeated failures\<close>

text \<open>
  The two-level map of \<^verbatim>\<open>CallStats\<close>. The domain is finite; its size is tested before every
  failure, and the whole table is dropped at the bound.
\<close>

type_synonym call_stats = "string \<rightharpoonup> (string \<rightharpoonup> nat)"

definition max_dedup_keys :: nat where "max_dedup_keys = 1024"

definition stats_fail :: "string \<Rightarrow> string \<Rightarrow> call_stats \<Rightarrow> nat \<times> call_stats" where
  "stats_fail call msg s =
     (let s = (if card (dom s) \<ge> max_dedup_keys then Map.empty else s);
          by_err = (case s call of Some m \<Rightarrow> m | None \<Rightarrow> Map.empty);
          n = (case by_err msg of Some k \<Rightarrow> k | None \<Rightarrow> 0) + 1
      in (n, s(call \<mapsto> by_err(msg \<mapsto> n))))"

definition stats_succeed :: "string \<Rightarrow> call_stats \<Rightarrow> call_stats" where
  "stats_succeed call s = s(call := None)"

definition with_dedup :: "'w call_env \<Rightarrow> int \<Rightarrow> 'w handler \<Rightarrow> tool_def \<Rightarrow> tool_use
    \<Rightarrow> call_stats \<times> 'w \<Rightarrow> call_end \<times> call_stats \<times> 'w" where
  "with_dedup env threshold nxt d u st =
     (case st of (s, w) \<Rightarrow>
      (case nxt d u w of
         (Panicked v tr, w') \<Rightarrow> (Panicked v tr, s, w')
       | (Returned (Inr out), w') \<Rightarrow>
           (Returned (Inr out),
            (if threshold \<le> 0 then s else stats_succeed (td_name d @ ''|'' @ tu_input u) s), w')
       | (Returned (Inl e), w') \<Rightarrow>
           if threshold \<le> 0 \<or> ce_cause env w' \<noteq> None then (Returned (Inl e), s, w')
           else
             (case stats_fail (td_name d @ ''|'' @ tu_input u) (ce_text env e) s of (n, s') \<Rightarrow>
                if int n < threshold then (Returned (Inl e), s', w')
                else (Returned (Inl (Wrapf (''[repeat] this exact call has now failed '' @ itoa n @
                        '' times in a row'') [e])), s', w'))))"

section \<open>Truncation\<close>

fun shorter_of :: "string \<Rightarrow> string list \<Rightarrow> string" where
  "shorter_of original [] = original"
| "shorter_of original (c # cs) = (if length c < length original then c else shorter_of original cs)"

definition newlines :: string where "newlines = [CHR 0x0A, CHR 0x0A]"

definition em_dash :: string where "em_dash = [CHR 0xE2, CHR 0x80, CHR 0x94]"

definition head_marker :: "nat \<Rightarrow> nat \<Rightarrow> string" where
  "head_marker n len = newlines @ ''[truncated: showing the first '' @ itoa n @ '' of '' @
     itoa len @ '' bytes, '' @ itoa (len - n) @ '' omitted '' @ em_dash @
     '' narrow the request to see the rest]''"

definition middle_marker :: "nat \<Rightarrow> nat \<Rightarrow> string" where
  "middle_marker gap len = newlines @ ''[... '' @ itoa gap @ '' of '' @ itoa len @
     '' bytes omitted from the middle '' @ em_dash @
     '' what follows is the TAIL, not a continuation. Narrow the request to see between them ...]'' @
     newlines"

definition clip_head :: "string \<Rightarrow> int \<Rightarrow> string" where
  "clip_head s limit =
     (if limit \<le> 0 \<or> int (length s) \<le> limit then s
      else let cut = boundary s (nat limit) in
        shorter_of s [take cut s @ head_marker cut (length s)])"

text \<open>The scan that moves the start of the tail forward to a rune boundary.\<close>

function tail_start :: "string \<Rightarrow> nat \<Rightarrow> nat" where
  "tail_start s i = (if i < length s \<and> \<not> rune_start (s ! i) then tail_start s (Suc i) else i)"
  by pat_completeness auto
termination by (relation "measure (\<lambda>(s, i). length s - i)") auto

declare tail_start.simps [simp del]

definition clip :: "string \<Rightarrow> int \<Rightarrow> string" where
  "clip s limit =
     (if limit \<le> 0 \<or> int (length s) \<le> limit then s
      else if limit < 2 * 64 then clip_head s limit
      else let head = boundary s (nat (limit div 2));
               start = tail_start s (length s - (nat limit - head))
        in shorter_of s [take head s @ middle_marker (start - head) (length s) @ drop start s,
             clip_head s limit])"

declare shorter_of.simps [simp del]

definition with_truncation :: "int \<Rightarrow> string list \<Rightarrow> 'w handler \<Rightarrow> 'w handler" where
  "with_truncation limit exempt nxt d u w =
     (if limit \<le> 0 then nxt d u w
      else case nxt d u w of
        (Returned (Inr out), w') \<Rightarrow>
          if int (length out) \<le> limit \<or> td_name d \<in> set exempt then (Returned (Inr out), w')
          else (Returned (Inr (clip out limit)), w')
      | r \<Rightarrow> r)"

section \<open>Facts\<close>

lemma shorter_of_in: "shorter_of s cs = s \<or> shorter_of s cs \<in> set cs"
  by (induction cs) (auto simp: shorter_of.simps)

lemma shorter_of_length: "length (shorter_of s cs) \<le> length s"
  by (induction cs) (auto simp: shorter_of.simps)

lemma clip_head_length: "length (clip_head s limit) \<le> length s"
  by (simp add: clip_head_def Let_def shorter_of_length)

lemma clip_length: "length (clip s limit) \<le> length s"
  by (simp add: clip_def Let_def shorter_of_length clip_head_length)

lemma tail_start_ge: "i \<le> tail_start s i"
proof (induction s i rule: tail_start.induct)
  case (1 s i)
  then show ?case by (subst tail_start.simps) auto
qed

lemma tail_start_rune: "tail_start s i < length s \<Longrightarrow> rune_start (s ! tail_start s i)"
proof (induction s i rule: tail_start.induct)
  case (1 s i)
  then show ?case by (cases "i < length s \<and> \<not> rune_start (s ! i)") (simp_all add: tail_start.simps[of s i])
qed

text \<open>
  What a clip keeps: a head and a tail around a marker, cut at rune boundaries, with at most
  \<open>limit\<close> bytes of content.
\<close>

definition clip_shape :: "string \<Rightarrow> nat \<Rightarrow> string \<Rightarrow> bool" where
  "clip_shape s limit out \<longleftrightarrow>
     (\<exists>i j marker. out = take i s @ marker @ drop j s \<and> i \<le> j \<and> i \<le> length s \<and>
        i + (length s - j) \<le> limit \<and>
        (i = 0 \<or> i = length s \<or> rune_start (s ! i)) \<and> (j < length s \<longrightarrow> rune_start (s ! j)))"

lemma clip_shapeI:
  assumes "i \<le> j" and "i \<le> length s" and "i + (length s - j) \<le> l"
    and "i = 0 \<or> i = length s \<or> rune_start (s ! i)" and "j < length s \<Longrightarrow> rune_start (s ! j)"
  shows "clip_shape s l (take i s @ m @ drop j s)"
  unfolding clip_shape_def using assms by blast

lemma clip_head_shape:
  assumes "0 < limit" and "limit < int (length s)"
  shows "clip_head s limit = s \<or> clip_shape s (nat limit) (clip_head s limit)"
proof -
  let ?cut = "boundary s (nat limit)"
  define marker where "marker = head_marker ?cut (length s)"
  have "clip_shape s (nat limit) (take ?cut s @ marker)"
    unfolding clip_shape_def
    using boundary_le[of s "nat limit"] boundary_rune[of s "nat limit"]
    by (intro exI[of _ ?cut] exI[of _ "length s"] exI[of _ marker]) auto
  moreover have "clip_head s limit = shorter_of s [take ?cut s @ marker]"
    using assms by (simp add: clip_head_def Let_def marker_def)
  ultimately show ?thesis using shorter_of_in[of s "[take ?cut s @ marker]"] by auto
qed

lemma head_tail_bounds:
  fixes h a n t m :: nat
  assumes "n - a \<le> t" and "h + a = m" and "m \<le> n"
  shows "h \<le> t \<and> h + (n - t) \<le> m"
  using assms by linarith

lemma clip_shape:
  assumes "0 < limit" and "limit < int (length s)"
  shows "clip s limit = s \<or> clip_shape s (nat limit) (clip s limit)"
proof (cases "limit < 2 * 64")
  case True
  with clip_head_shape[OF assms] assms show ?thesis by (simp add: clip_def)
next
  case False
  let ?h = "boundary s (nat (limit div 2))"
  let ?t = "tail_start s (length s - (nat limit - ?h))"
  define marker where "marker = middle_marker (?t - ?h) (length s)"
  have h: "?h \<le> length s" "?h \<le> nat (limit div 2)" using boundary_le by auto
  have t: "length s - (nat limit - ?h) \<le> ?t" by (rule tail_start_ge)
  have "?h \<le> nat limit" using h(2) assms(1) by linarith
  then have sum: "?h + (nat limit - ?h) = nat limit" by simp
  have "nat limit \<le> length s" using assms(2) by simp
  note ht = head_tail_bounds[OF t sum this, THEN conjunct1] head_tail_bounds[OF t sum this, THEN conjunct2]
  have "clip_shape s (nat limit) (take ?h s @ marker @ drop ?t s)"
    by (rule clip_shapeI[OF ht(1) h(1) ht(2) boundary_rune tail_start_rune])
  moreover have "clip s limit = shorter_of s [take ?h s @ marker @ drop ?t s, clip_head s limit]"
    using assms False by (simp add: clip_def Let_def marker_def)
  ultimately show ?thesis
    using shorter_of_in[of s "[take ?h s @ marker @ drop ?t s, clip_head s limit]"]
      clip_head_shape[OF assms] by auto
qed

text \<open>The breaker after a sequence of recorded ends, each with its time.\<close>

definition breaker_after :: "int \<Rightarrow> int \<Rightarrow> (int \<times> bool) list \<Rightarrow> breaker" where
  "breaker_after threshold cooldown evs =
     foldl (\<lambda>b (now, ok). breaker_record threshold cooldown now ok b) no_breaker evs"

definition trailing_failures :: "(int \<times> bool) list \<Rightarrow> nat" where
  "trailing_failures evs = length (takeWhile (\<lambda>(_, ok). \<not> ok) (rev evs))"

lemma trailing_failures_snoc:
  "trailing_failures (evs @ [(now, ok)]) = (if ok then 0 else trailing_failures evs + 1)"
  by (simp add: trailing_failures_def)

lemma breaker_after_count:
  assumes "0 < threshold"
  shows "br_failures (breaker_after threshold cooldown evs) = int (trailing_failures evs) mod threshold"
proof (induction evs rule: rev_induct)
  case Nil
  then show ?case by (simp add: breaker_after_def no_breaker_def trailing_failures_def)
next
  case (snoc ev evs)
  obtain now ok where ev: "ev = (now, ok)" by (cases ev)
  let ?f = "int (trailing_failures evs)"
  have lt: "?f mod threshold < threshold" "0 \<le> ?f mod threshold" using assms by auto
  have wrap: "(?f + 1) mod threshold = (if ?f mod threshold + 1 = threshold then 0 else ?f mod threshold + 1)"
    by (rule int_succ_mod[OF assms])
  have step: "breaker_after threshold cooldown (evs @ [ev]) =
      breaker_record threshold cooldown now ok (breaker_after threshold cooldown evs)"
    by (simp add: breaker_after_def ev)
  show ?case
    unfolding step unfolding ev trailing_failures_snoc
    using snoc wrap lt by (simp add: breaker_record_def no_breaker_def Let_def add.commute)
qed

lemma card_insert_bound: "finite A \<Longrightarrow> card A < n \<Longrightarrow> card (insert x A) \<le> n"
  by (simp add: card_insert_if)

lemma stats_fail_bounded:
  assumes "finite (dom s)" and "card (dom s) \<le> max_dedup_keys"
  shows "finite (dom (snd (stats_fail call msg s))) \<and>
    card (dom (snd (stats_fail call msg s))) \<le> max_dedup_keys"
  using assms
  by (auto simp: stats_fail_def Let_def max_dedup_keys_def card_insert_if)

lemma stats_succeed_bounded:
  assumes "finite (dom s)" and "card (dom s) \<le> max_dedup_keys"
  shows "finite (dom (stats_succeed call s)) \<and> card (dom (stats_succeed call s)) \<le> max_dedup_keys"
  using assms card_Diff1_le[of "dom s" call]
  by (auto simp: stats_succeed_def intro: le_trans)

section \<open>Properties\<close>

text \<open>Clipping never makes an observation longer, and what it returns is either the observation
  itself or a head and a tail of it around a marker, both cut at rune boundaries, with at most the
  limit of content.\<close>

theorem clip_shrinks_and_keeps_ends:
  "length (clip s limit) \<le> length s \<and>
   (clip s limit = s \<or> 0 < limit \<and> clip_shape s (nat limit) (clip s limit))"
proof (cases "limit \<le> 0 \<or> int (length s) \<le> limit")
  case True
  then show ?thesis by (simp add: clip_def)
next
  case False
  with clip_shape[of limit s] clip_length[of s limit] show ?thesis by auto
qed

text \<open>The breaker counts consecutive failures modulo its threshold: after any sequence of recorded
  ends the failure count is the length of the trailing run of failures mod the threshold, and a
  failure opens the breaker, until now plus the cooldown, exactly when it completes a multiple.\<close>

theorem breaker_opens_on_consecutive_failures:
  assumes "0 < threshold"
  shows "br_failures (breaker_after threshold cooldown evs) = int (trailing_failures evs) mod threshold \<and>
    br_open_until (breaker_after threshold cooldown (evs @ [(now, False)])) =
      (if int (trailing_failures evs) mod threshold + 1 = threshold then now + cooldown
       else br_open_until (breaker_after threshold cooldown evs))"
proof -
  have "breaker_after threshold cooldown (evs @ [(now, False)]) =
      breaker_record threshold cooldown now False (breaker_after threshold cooldown evs)"
    by (simp add: breaker_after_def)
  moreover have "int (trailing_failures evs) mod threshold < threshold" using assms by simp
  ultimately show ?thesis
    using breaker_after_count[OF assms, of cooldown evs] by (auto simp: breaker_record_def Let_def)
qed

theorem breaker_opens_on_consecutive_failures_witness:
  "br_open_until (breaker_after 2 30 ([(0, False)] @ [(5, False)])) = 35"
  using breaker_opens_on_consecutive_failures[of 2 30 "[(0, False)]" 5]
  by (simp add: trailing_failures_def)

text \<open>The repeat counters of a run never hold more than their bound of calls.\<close>

theorem repeat_counters_bounded:
  assumes "finite (dom s)" and "card (dom s) \<le> max_dedup_keys"
  shows "card (dom (snd (stats_fail call msg s))) \<le> max_dedup_keys \<and>
    card (dom (stats_succeed call s)) \<le> max_dedup_keys"
  using stats_fail_bounded[OF assms] stats_succeed_bounded[OF assms] by simp

theorem repeat_counters_bounded_witness:
  "card (dom (snd (stats_fail ''ls'' ''gone'' Map.empty))) \<le> max_dedup_keys"
  using repeat_counters_bounded[of Map.empty "''ls''" "''gone''"] by simp

end
