(* ===== verification/Permission.thy ===== *)
theory Permission
  imports Paths ToolChain
begin

text \<open>
  The permission layer: policies and rules (\<^verbatim>\<open>permission/policy.go\<close>,
  \<^verbatim>\<open>permission/rules.go\<close>), the command allowlist (\<^verbatim>\<open>permission/safe.go\<close>), grants
  (\<^verbatim>\<open>permission/grants.go\<close>) and the gate in front of a tool handler
  (\<^verbatim>\<open>permission/gate.go\<close>). The prose reasons of a decision are not modelled. A rule built
  over a root directory takes the cleaned absolute path \<open>base\<close> its constructor computes.
\<close>

section \<open>Policies\<close>

datatype decision = Undecided | Allow | Deny | Ask

record perm_request =
  pr_tool :: tool_def
  pr_use :: tool_use

type_synonym rule = "perm_request \<Rightarrow> decision"

record policy =
  pol_rules :: "rule option list"
  pol_default :: decision

text \<open>A nil rule is \<^const>\<open>None\<close> and is skipped.\<close>

fun decide_rules :: "rule option list \<Rightarrow> decision \<Rightarrow> perm_request \<Rightarrow> decision" where
  "decide_rules [] dflt r = (if dflt = Undecided then Deny else dflt)"
| "decide_rules (None # rs) dflt r = decide_rules rs dflt r"
| "decide_rules (Some f # rs) dflt r = (if f r \<noteq> Undecided then f r else decide_rules rs dflt r)"

definition decide :: "policy \<Rightarrow> perm_request \<Rightarrow> decision" where
  "decide p r = decide_rules (pol_rules p) (pol_default p) r"

definition allow_tools :: "string list \<Rightarrow> rule" where
  "allow_tools names r = (if td_name (pr_tool r) \<in> set names then Allow else Undecided)"

definition deny_tools :: "string list \<Rightarrow> rule" where
  "deny_tools names r = (if td_name (pr_tool r) \<in> set names then Deny else Undecided)"

definition ask_for :: "32 word \<Rightarrow> rule" where
  "ask_for caps r = (if td_caps (pr_tool r) AND caps \<noteq> 0 then Ask else Undecided)"

definition deny_caps :: "32 word \<Rightarrow> rule" where
  "deny_caps caps r = (if td_caps (pr_tool r) AND caps \<noteq> 0 then Deny else Undecided)"

definition allow_caps :: "32 word \<Rightarrow> rule" where
  "allow_caps caps r = (if td_caps (pr_tool r) AND caps \<noteq> 0 then Allow else Undecided)"

definition self_contained :: rule where
  "self_contained r =
     (if td_caps (pr_tool r) = CapReadOnly \<and> td_needs (pr_tool r) = 0 then Allow else Undecided)"

definition only_reads :: rule where
  "only_reads r = (if td_caps (pr_tool r) = CapReadOnly then Allow else Undecided)"

definition read_only :: policy where
  "read_only = \<lparr>pol_rules = [Some only_reads], pol_default = Deny\<rparr>"

definition ask_everything :: policy where
  "ask_everything = \<lparr>pol_rules = [], pol_default = Ask\<rparr>"

section \<open>Arguments\<close>

definition input_object :: "string \<Rightarrow> (string \<times> json) list" where
  "input_object s = (case json_parse s of Some (JObj kvs) \<Rightarrow> kvs | _ \<Rightarrow> [])"

definition string_arg :: "string \<Rightarrow> string \<Rightarrow> string option" where
  "string_arg inp key = (case json_key key (input_object inp) of
     Some (JStr s) \<Rightarrow> (let t = trim_space s in if t = [] then None else Some t)
   | _ \<Rightarrow> None)"

definition path_args :: "string list" where
  "path_args = [''path'', ''file'', ''dir'', ''exec_dir'', ''cwd'', ''dest'', ''src'']"

definition extract_paths :: "string \<Rightarrow> string list" where
  "extract_paths inp = List.map_filter (string_arg inp) path_args"

section \<open>The file-system root\<close>

text \<open>The constructor: an empty root panics, which is \<^const>\<open>None\<close>.\<close>

definition root_dir :: "string \<Rightarrow> string \<Rightarrow> string option" where
  "root_dir cwd dir = (if trim_space dir = [] then None else Some (clean_path (abs_path cwd dir)))"

definition fs_root :: "string \<Rightarrow> rule" where
  "fs_root base r =
     (if td_caps (pr_tool r) AND CapExec \<noteq> 0 then Ask
      else if td_needs (pr_tool r) AND (NeedFSRead OR NeedFSWrite) = 0 then Undecided
      else
        (let paths = extract_paths (tu_input (pr_use r)) in
         if paths = [] then Undecided
         else if list_ex (\<lambda>p. \<not> path_contains base (resolve_path base p)) paths then Deny
         else Allow))"

definition inside_root :: "string \<Rightarrow> rule" where
  "inside_root base r = (if fs_root base r = Deny then Ask else fs_root base r)"

section \<open>Hosts\<close>

definition host_matches :: "string \<Rightarrow> string \<Rightarrow> bool" where
  "host_matches host pat =
     (if has_prefix pat ''.'' then host = tl pat \<or> has_suffix host pat else host = pat)"

definition allowed_hosts :: "string list \<Rightarrow> string list" where
  "allowed_hosts hs = filter (\<lambda>h. h \<noteq> []) (map (\<lambda>h. to_lower (trim_space h)) hs)"

text \<open>The verdict once \<^verbatim>\<open>url.Parse\<close> has split the URL into scheme and host name.\<close>

definition host_verdict :: "string list \<Rightarrow> string \<Rightarrow> string \<Rightarrow> decision" where
  "host_verdict hosts scheme hostname =
     (if to_lower scheme \<notin> {''http'', ''https''} then Deny
      else let host = to_lower hostname in
        if host = [] then Deny
        else if list_ex (host_matches host) (allowed_hosts hosts) then Allow else Deny)"

section \<open>Safe commands\<close>

definition default_safe_commands :: "string list" where
  "default_safe_commands =
     [''go build'', ''go test'', ''go vet'', ''go fmt'', ''go list'', ''go doc'', ''go env'', ''gofmt'',
      ''ls'', ''pwd'', ''cat'', ''head'', ''tail'', ''wc'', ''find'', ''grep'', ''stat'', ''file'',
      ''du'', ''df'', ''date'', ''echo'', ''which'', ''git status'', ''git log'', ''git diff'',
      ''git show'', ''git branch'']"

definition unsafe_flags :: "string list" where
  "unsafe_flags = [''-exec'', ''-execdir'', ''-ok'', ''-okdir'', ''-delete'', ''-fprint'', ''-fprintf'',
     ''-fls'']"

definition shell_metacharacters_no_pipe :: string where
  "shell_metacharacters_no_pipe = '';&'' @ [CHR 0x60] @ ''$()<>'' @ [CHR 0x0A, CHR 0x0D]"

definition path_expansion_chars :: string where "path_expansion_chars = ''~''"

definition is_blank :: "char \<Rightarrow> bool" where "is_blank c = (c = CHR '' '' \<or> c = CHR 0x09)"

definition is_quote :: "char \<Rightarrow> bool" where "is_quote c = (c = CHR 0x27 \<or> c = CHR 0x22)"

definition shell_words :: "string \<Rightarrow> string list" where
  "shell_words s = fields_func is_blank s"

definition pipeline :: "string \<Rightarrow> string list option" where
  "pipeline cmd =
     (if contains_sub cmd ''||'' then None
      else let stripped = join_with '' '' (filter (\<lambda>f. f \<noteq> ''2>&1'') (fields_func is_blank cmd)) in
        if contains_any stripped path_expansion_chars then None
        else if contains_any stripped shell_metacharacters_no_pipe then None
        else let segs = map trim_space (split_on CHR ''|'' stripped) in
          if [] \<in> set segs then None else Some segs)"

definition longer_entry :: "string list \<Rightarrow> string list option \<Rightarrow> string list \<Rightarrow> string list option" where
  "longer_entry words best entry =
     (if length entry > length words \<or>
         length entry \<le> (case best of None \<Rightarrow> 0 | Some b \<Rightarrow> length b) then best
      else if has_prefix words entry then Some entry else best)"

definition longest_entry :: "string list list \<Rightarrow> string list \<Rightarrow> string list option" where
  "longest_entry allow words = foldl (longer_entry words) None allow"

definition path_candidates :: "string \<Rightarrow> string list" where
  "path_candidates bare =
     bare # (if CHR ''='' \<in> set bare
             then [trim_by is_quote (tl (dropWhile (\<lambda>c. c \<noteq> CHR ''='') bare))] else [])"

definition safe_word :: "string \<Rightarrow> string \<Rightarrow> bool" where
  "safe_word base word =
     (let bare = trim_by is_quote word in
      bare \<notin> set unsafe_flags \<and>
      list_all (\<lambda>cand. cand = [] \<or>
        ''..'' \<notin> set (split_on CHR ''/'' cand) \<and>
        (is_abs cand \<longrightarrow> path_contains base (clean_path cand))) (path_candidates bare))"

definition allow_entries :: "string list \<Rightarrow> string list list" where
  "allow_entries extra =
     filter (\<lambda>ws. ws \<noteq> []) (map shell_words (default_safe_commands @ extra))"

definition safe_stage :: "string \<Rightarrow> string list list \<Rightarrow> string \<Rightarrow> bool" where
  "safe_stage base allow seg =
     (let words = shell_words seg in
      longest_entry allow words \<noteq> None \<and> list_all (safe_word base) words)"

definition safe_commands :: "string \<Rightarrow> string list \<Rightarrow> rule" where
  "safe_commands base extra r =
     (if td_caps (pr_tool r) AND CapExec = 0 then Undecided
      else case string_arg (tu_input (pr_use r)) ''command'' of
        None \<Rightarrow> Undecided
      | Some cmd \<Rightarrow>
          (case pipeline cmd of
             None \<Rightarrow> Undecided
           | Some segs \<Rightarrow>
               if \<not> list_all (safe_stage base (allow_entries extra)) segs then Undecided
               else case string_arg (tu_input (pr_use r)) ''exec_dir'' of
                 None \<Rightarrow> Allow
               | Some dir \<Rightarrow>
                   if path_contains base (resolve_path base dir) then Allow else Undecided))"

definition workspace :: "string \<Rightarrow> policy" where
  "workspace base =
     \<lparr>pol_rules = [Some (allow_caps CapMeta), Some self_contained, Some (safe_commands base []),
        Some (ask_for CapExec), Some (inside_root base)],
      pol_default = Ask\<rparr>"

section \<open>Grants\<close>

text \<open>\<^verbatim>\<open>json.Compact\<close>: white space outside strings goes, everything else stays byte for byte.\<close>

fun compact_scan :: "bool \<Rightarrow> bool \<Rightarrow> string \<Rightarrow> string" where
  "compact_scan in_str esc [] = []"
| "compact_scan in_str esc (c # s) =
     (if in_str then
        c # compact_scan (esc \<or> c \<noteq> CHR 0x22) (\<not> esc \<and> c = CHR 0x5C) s
      else if json_space c then compact_scan False False s
      else c # compact_scan (c = CHR 0x22) False s)"

definition grant_key :: "tool_def \<Rightarrow> tool_use \<Rightarrow> string" where
  "grant_key d u = td_name d @ [CHR 0x00] @
     (if json_valid (tu_input u) then compact_scan False False (tu_input u) else tu_input u)"

type_synonym grants = "string set"

definition grant_remember :: "string \<Rightarrow> grants \<Rightarrow> grants" where
  "grant_remember key g = insert key g"

definition grant_has :: "string \<Rightarrow> grants \<Rightarrow> bool" where
  "grant_has key g = (key \<in> g)"

section \<open>The gate\<close>

definition ErrDenied :: err where "ErrDenied = CallerErr (Sentinel ''permission: denied'')"
definition ErrNoApprover :: err where
  "ErrNoApprover = Sentinel ''permission: approval required but no approver is installed''"

datatype source = SourcePolicy | SourceGrant | SourceNoApprover | SourceApprover

datatype perm_event =
    Requested tool_use_id string string
  | Decided tool_use_id string bool source

record gate_state =
  gs_grants :: grants
  gs_events :: "perm_event list"

definition emit_event :: "perm_event \<Rightarrow> gate_state \<Rightarrow> gate_state" where
  "emit_event ev st = st\<lparr>gs_events := gs_events st @ [ev]\<rparr>"

definition settle :: "tool_def \<Rightarrow> tool_use \<Rightarrow> bool \<Rightarrow> source \<Rightarrow> gate_state \<Rightarrow> gate_state" where
  "settle d u allowed src st = emit_event (Decided (tu_id u) (td_name d) allowed src) st"

text \<open>
  An approver answers yes, no, or an error. The handler below the gate runs in the world alone.
\<close>

type_synonym 'w approver = "perm_request \<Rightarrow> 'w \<Rightarrow> (err + bool) \<times> 'w"

definition run_next :: "'w handler \<Rightarrow> tool_def \<Rightarrow> tool_use \<Rightarrow> gate_state \<Rightarrow> 'w \<Rightarrow> call_end \<times> gate_state \<times> 'w" where
  "run_next nxt d u st w = (case nxt d u w of (r, w') \<Rightarrow> (r, st, w'))"

definition ask_person :: "'w call_env \<Rightarrow> 'w handler \<Rightarrow> 'w approver option \<Rightarrow> tool_def \<Rightarrow> tool_use
    \<Rightarrow> gate_state \<Rightarrow> 'w \<Rightarrow> call_end \<times> gate_state \<times> 'w" where
  "ask_person env nxt a d u st w =
     (let key = grant_key d u in
      if grant_has key (gs_grants st) then run_next nxt d u (settle d u True SourceGrant st) w
      else case a of
        None \<Rightarrow> (Returned (Inl (Wrapf ''the tool needs a person to approve it'' [ErrDenied, ErrNoApprover])),
                  settle d u False SourceNoApprover st, w)
      | Some ap \<Rightarrow>
          (let st1 = emit_event (Requested (tu_id u) (td_name d) (tu_input u)) st in
           case ap \<lparr>pr_tool = d, pr_use = u\<rparr> w of
             (Inl e, w1) \<Rightarrow>
               (let st2 = settle d u False SourceApprover st1 in
                (case ce_cause env w1 of
                   Some c \<Rightarrow> (Returned (Inl (Wrapf ''permission: the approval was abandoned'' [c])), st2, w1)
                 | None \<Rightarrow> (Returned (Inl (Wrapf ''none could be collected'' [ErrDenied, e])), st2, w1)))
           | (Inr False, w1) \<Rightarrow>
               (Returned (Inl (Wrapf ''the person supervising this run refused'' [ErrDenied])),
                settle d u False SourceApprover st1, w1)
           | (Inr True, w1) \<Rightarrow>
               run_next nxt d u
                 (settle d u True SourceApprover
                    (st1\<lparr>gs_grants := grant_remember key (gs_grants st1)\<rparr>)) w1))"

definition gate :: "'w call_env \<Rightarrow> policy \<Rightarrow> 'w approver option \<Rightarrow> 'w handler \<Rightarrow> tool_def \<Rightarrow> tool_use
    \<Rightarrow> gate_state \<Rightarrow> 'w \<Rightarrow> call_end \<times> gate_state \<times> 'w" where
  "gate env p a nxt d u st w =
     (case decide p \<lparr>pr_tool = d, pr_use = u\<rparr> of
        Allow \<Rightarrow> run_next nxt d u (settle d u True SourcePolicy st) w
      | Deny \<Rightarrow> (Returned (Inl (Wrapf ''the tool was refused'' [ErrDenied])),
                  settle d u False SourcePolicy st, w)
      | Ask \<Rightarrow> ask_person env nxt a d u st w
      | Undecided \<Rightarrow> (Returned (Inl (Wrapf ''the policy produced no verdict'' [ErrDenied])),
                  settle d u False SourcePolicy st, w))"

section \<open>Facts\<close>

lemma decide_rules_not_undecided: "decide_rules rs dflt r \<noteq> Undecided"
  by (induction rs dflt r rule: decide_rules.induct) auto

definition no_opinion :: "perm_request \<Rightarrow> rule option \<Rightarrow> bool" where
  "no_opinion r f = (case f of None \<Rightarrow> True | Some g \<Rightarrow> g r = Undecided)"

lemma decide_rules_skip:
  "list_all (no_opinion r) pre \<Longrightarrow> decide_rules (pre @ rs) dflt r = decide_rules rs dflt r"
proof (induction pre)
  case (Cons f pre)
  then show ?case by (cases f) (auto simp: no_opinion_def)
qed simp

lemma decide_rules_first:
  "decide_rules rs dflt r = d \<longleftrightarrow>
     (\<exists>pre f post. rs = pre @ Some f # post \<and> list_all (no_opinion r) pre \<and> f r = d \<and> d \<noteq> Undecided) \<or>
     list_all (no_opinion r) rs \<and> d = (if dflt = Undecided then Deny else dflt)"
proof -
  define pre where "pre = takeWhile (no_opinion r) rs"
  have pre: "list_all (no_opinion r) pre"
    by (auto simp: pre_def list_all_iff dest: set_takeWhileD)
  show ?thesis
  proof (cases "dropWhile (no_opinion r) rs")
    case Nil
    then have all: "list_all (no_opinion r) rs" by (simp add: dropWhile_eq_Nil_conv list_all_iff)
    have "\<not> (rs = xs @ Some f # post \<and> f r \<noteq> Undecided)" for xs f post
      using all by (auto simp: no_opinion_def)
    with all decide_rules_skip[OF all, of "[]" dflt] show ?thesis by auto
  next
    case (Cons x post)
    have rs: "rs = pre @ x # post" using Cons by (metis pre_def takeWhile_dropWhile_id)
    have "\<not> no_opinion r x" using Cons by (metis hd_dropWhile list.distinct(1) list.sel(1))
    then obtain f where f: "x = Some f" "f r \<noteq> Undecided" by (cases x) (auto simp: no_opinion_def)
    have dec: "decide_rules rs dflt r = f r" using decide_rules_skip[OF pre] rs f by simp
    have no: "\<not> list_all (no_opinion r) rs" using rs f by (simp add: no_opinion_def)
    have "decide_rules rs dflt r = d"
      if "rs = pre' @ Some f' # post'" "list_all (no_opinion r) pre'" "f' r = d" "d \<noteq> Undecided" for pre' f' post'
      using decide_rules_skip[OF that(2)] that by simp
    moreover have "\<exists>pre' f' post'. rs = pre' @ Some f' # post' \<and> list_all (no_opinion r) pre' \<and>
        f' r = d \<and> d \<noteq> Undecided" if "decide_rules rs dflt r = d"
      using rs f pre dec that by (intro exI[of _ pre] exI[of _ f] exI[of _ post]) simp
    ultimately show ?thesis using no by (metis (no_types))
  qed
qed

lemma resolve_path_plain:
  assumes "is_abs base"
  shows "\<exists>ps. list_all plain_name ps \<and> resolve_path base p = rooted_path ps"
proof (cases "is_abs p")
  case True
  then show ?thesis
    using clean_elems_plain clean_path_rooted by (auto simp: resolve_path_def)
next
  case False
  have "base \<noteq> []" using assms by (auto simp: is_abs_def has_prefix_def)
  then have "resolve_path base p = clean_path (if p = [] then base else base @ ''/'' @ p)"
    using False by (simp add: resolve_path_def join_path_def)
  moreover have "is_abs (if p = [] then base else base @ ''/'' @ p)"
    using assms \<open>base \<noteq> []\<close> by (cases base) (auto simp: is_abs_def has_prefix_def)
  ultimately show ?thesis using clean_elems_plain clean_path_rooted by metis
qed

lemma fs_root_allow:
  assumes "fs_root (rooted_path names) r = Allow" and "list_all plain_name names" and "names \<noteq> []"
    and "p \<in> set (extract_paths (tu_input (pr_use r)))"
  shows "\<exists>below. list_all plain_name below \<and>
    resolve_path (rooted_path names) p = rooted_path (names @ below)"
proof -
  have "path_contains (rooted_path names) (resolve_path (rooted_path names) p)"
    using assms(1,4) by (auto simp: fs_root_def Let_def list_ex_iff split: if_splits)
  moreover obtain ps where ps: "list_all plain_name ps" "resolve_path (rooted_path names) p = rooted_path ps"
    using resolve_path_plain[of "rooted_path names" p] by auto
  ultimately obtain qs where "ps = names @ qs"
    using path_contains_names[OF assms(2) ps(1) assms(3)] by auto
  with ps show ?thesis by auto
qed

lemma safe_commands_cases: "safe_commands base extra r = Allow \<or> safe_commands base extra r = Undecided"
  by (simp add: safe_commands_def split: option.splits)

text \<open>Longest entry: found exactly when some entry starts the command.\<close>

lemma longest_entry_some:
  "longest_entry allow words = Some e \<Longrightarrow> e \<in> set allow \<and> has_prefix words e"
proof -
  have "foldl (longer_entry words) best allow = Some e \<Longrightarrow>
      best = Some e \<or> e \<in> set allow \<and> has_prefix words e" for best
    by (induction allow arbitrary: best) (auto simp: longer_entry_def split: if_splits)
  from this[of None] show "longest_entry allow words = Some e \<Longrightarrow> ?thesis"
    by (simp add: longest_entry_def)
qed

lemma pipeline_clean:
  assumes "pipeline cmd = Some segs" and "seg \<in> set segs"
  shows "seg \<noteq> [] \<and> CHR ''|'' \<notin> set seg \<and> set seg \<inter> set shell_metacharacters_no_pipe = {} \<and>
    set seg \<inter> set path_expansion_chars = {}"
proof -
  define stripped where
    "stripped = join_with '' '' (filter (\<lambda>f. f \<noteq> ''2>&1'') (fields_func is_blank cmd))"
  from assms(1) have ok: "\<not> contains_any stripped path_expansion_chars"
    "\<not> contains_any stripped shell_metacharacters_no_pipe"
    "segs = map trim_space (split_on CHR ''|'' stripped)" "[] \<notin> set segs"
    by (auto simp: pipeline_def Let_def stripped_def split: if_splits)
  from assms(2) ok(3) obtain w where w: "w \<in> set (split_on CHR ''|'' stripped)" "seg = trim_space w"
    by auto
  have "set seg \<subseteq> set w" using w(2) trim_by_subset by (simp add: trim_space_def)
  moreover have "set w \<subseteq> set stripped" using split_on_subset[OF w(1)] .
  moreover have "CHR ''|'' \<notin> set w" by (rule split_on_no_sep[OF w(1)])
  ultimately have "CHR ''|'' \<notin> set seg" "set seg \<subseteq> set stripped" by blast+
  then show ?thesis
    using ok(1,2,4) assms(2) unfolding contains_any_iff by blast
qed

text \<open>When the handler runs: allowed by policy, by an earlier grant, or by the approver just now.\<close>

definition permitted :: "policy \<Rightarrow> 'w approver option \<Rightarrow> tool_def \<Rightarrow> tool_use \<Rightarrow> gate_state \<Rightarrow> 'w \<Rightarrow> bool" where
  "permitted p a d u st w \<longleftrightarrow>
     decide p \<lparr>pr_tool = d, pr_use = u\<rparr> = Allow \<or>
     decide p \<lparr>pr_tool = d, pr_use = u\<rparr> = Ask \<and>
       (grant_key d u \<in> gs_grants st \<or>
        (\<exists>ap. a = Some ap \<and> fst (ap \<lparr>pr_tool = d, pr_use = u\<rparr> w) = Inr True))"

lemma gate_refuses:
  assumes "\<not> permitted p a d u st w"
  shows "\<exists>e st' w'. (\<forall>nxt. gate env p a nxt d u st w = (Returned (Inl e), st', w')) \<and>
    gs_grants st' = gs_grants st \<and> last (gs_events st') = Decided (tu_id u) (td_name d) False
      (case decide p \<lparr>pr_tool = d, pr_use = u\<rparr> of Ask \<Rightarrow> (if a = None then SourceNoApprover else SourceApprover)
         | _ \<Rightarrow> SourcePolicy)"
proof (cases "decide p \<lparr>pr_tool = d, pr_use = u\<rparr>")
  case Ask
  with assms have g: "\<not> grant_has (grant_key d u) (gs_grants st)"
    by (simp add: permitted_def grant_has_def)
  show ?thesis
  proof (cases a)
    case None
    with Ask g show ?thesis
      by (simp add: gate_def ask_person_def Let_def settle_def emit_event_def)
  next
    case (Some ap)
    obtain ans w1 where ans: "ap \<lparr>pr_tool = d, pr_use = u\<rparr> w = (ans, w1)" by (cases "ap \<lparr>pr_tool = d, pr_use = u\<rparr> w")
    show ?thesis
    proof (cases ans)
      case (Inl e)
      with Ask g Some ans show ?thesis
        by (cases "ce_cause env w1") (simp_all add: gate_def ask_person_def Let_def settle_def emit_event_def)
    next
      case (Inr b)
      with assms Ask Some ans have "\<not> b" by (auto simp: permitted_def)
      with Inr Ask g Some ans show ?thesis
        by (simp add: gate_def ask_person_def Let_def settle_def emit_event_def)
    qed
  qed
qed (use assms in \<open>auto simp: permitted_def gate_def settle_def emit_event_def\<close>)

lemma gate_runs:
  assumes "permitted p a d u st w"
  shows "\<exists>st' w1. gate env p a nxt d u st w = run_next nxt d u st' w1 \<and>
    gs_grants st \<subseteq> gs_grants st' \<and> (\<exists>src. last (gs_events st') = Decided (tu_id u) (td_name d) True src)"
proof -
  consider (policy) "decide p \<lparr>pr_tool = d, pr_use = u\<rparr> = Allow"
    | (grant) "decide p \<lparr>pr_tool = d, pr_use = u\<rparr> = Ask" "grant_key d u \<in> gs_grants st"
    | (person) ap w1 where "decide p \<lparr>pr_tool = d, pr_use = u\<rparr> = Ask" "grant_key d u \<notin> gs_grants st"
        "a = Some ap" "ap \<lparr>pr_tool = d, pr_use = u\<rparr> w = (Inr True, w1)"
    using assms unfolding permitted_def by (metis prod.collapse)
  then show ?thesis
  proof cases
    case policy
    then have "gate env p a nxt d u st w = run_next nxt d u (settle d u True SourcePolicy st) w"
      by (simp add: gate_def)
    then show ?thesis by (intro exI conjI) (assumption, auto simp: settle_def emit_event_def)
  next
    case grant
    then have "gate env p a nxt d u st w = run_next nxt d u (settle d u True SourceGrant st) w"
      by (simp add: gate_def ask_person_def grant_has_def)
    then show ?thesis by (intro exI conjI) (assumption, auto simp: settle_def emit_event_def)
  next
    case person
    let ?st = "emit_event (Requested (tu_id u) (td_name d) (tu_input u)) st"
    have "gate env p a nxt d u st w =
        run_next nxt d u (settle d u True SourceApprover
          (?st\<lparr>gs_grants := grant_remember (grant_key d u) (gs_grants ?st)\<rparr>)) w1"
      using person by (simp add: gate_def ask_person_def grant_has_def Let_def)
    then show ?thesis
      by (intro exI conjI) (assumption, auto simp: settle_def emit_event_def grant_remember_def)
  qed
qed

section \<open>Properties\<close>

text \<open>A policy answers with the first rule that has an opinion and otherwise with its default, where
  a missing default is a refusal: it never leaves a call undecided, and it allows one only if the
  first opinion is to allow it or the default is.\<close>

theorem policy_first_opinion_fails_closed:
  "decide p r = d \<longleftrightarrow>
     (\<exists>pre f post. pol_rules p = pre @ Some f # post \<and> list_all (no_opinion r) pre \<and> f r = d \<and> d \<noteq> Undecided) \<or>
     list_all (no_opinion r) (pol_rules p) \<and>
       d = (if pol_default p = Undecided then Deny else pol_default p)"
  unfolding decide_def by (rule decide_rules_first)

text \<open>C23: Below a root directory other than /, a file-system rule that allows a call has resolved every
  path argument it reads to a path whose names extend the names of the root, none of them a dot or
  a double dot.\<close>

theorem fs_root_confines_paths:
  assumes "fs_root (rooted_path names) r = Allow" and "list_all plain_name names" and "names \<noteq> []"
    and "p \<in> set (extract_paths (tu_input (pr_use r)))"
  shows "\<exists>below. list_all plain_name below \<and>
    resolve_path (rooted_path names) p = rooted_path (names @ below)"
  by (rule fs_root_allow[OF assms])

definition reader :: tool_def where
  "reader = \<lparr>td_name = ''read_file'', td_description = [], td_schema = [], td_caps = CapReadOnly,
     td_needs = NeedFSRead, td_idempotent = True, td_timeout = 0, td_category = [], td_retryable = None\<rparr>"

definition shell :: tool_def where
  "shell = \<lparr>td_name = ''bash'', td_description = [], td_schema = [], td_caps = CapExec,
     td_needs = NeedExec, td_idempotent = False, td_timeout = 0, td_category = [], td_retryable = None\<rparr>"

definition call_with :: "tool_def \<Rightarrow> (string \<times> json) list \<Rightarrow> perm_request" where
  "call_with d kvs = \<lparr>pr_tool = d,
     pr_use = \<lparr>tu_id = ''a'', tu_name = td_name d, tu_input = json_render (JObj kvs)\<rparr>\<rparr>"

lemma call_with_object:
  "list_all (\<lambda>(k, v). json_ok v) kvs \<Longrightarrow> input_object (tu_input (pr_use (call_with d kvs))) = kvs"
  using json_parse_render[of "JObj kvs"] by (simp add: call_with_def input_object_def)

lemma call_with_tool [simp]: "pr_tool (call_with d kvs) = d"
  by (simp add: call_with_def)

theorem fs_root_confines_paths_witness:
  "\<exists>below. list_all plain_name below \<and>
    resolve_path (rooted_path [''w'']) ''a/../b'' = rooted_path ([''w''] @ below)"
proof (rule fs_root_confines_paths)
  let ?r = "call_with reader [(''path'', JStr ''a/../b'')]"
  have paths: "extract_paths (tu_input (pr_use ?r)) = [''a/../b'']"
    by (simp add: extract_paths_def path_args_def string_arg_def call_with_object json_key_def
        List.map_filter_simps trim_space_def trim_by_def trim_left_by_def trim_right_by_def is_space_def)
  then show "''a/../b'' \<in> set (extract_paths (tu_input (pr_use ?r)))" by simp
  have "path_contains (rooted_path [''w'']) (resolve_path (rooted_path [''w'']) ''a/../b'')" by code_simp
  then show "fs_root (rooted_path [''w'']) ?r = Allow"
    using paths by (simp add: fs_root_def reader_def cap_defs)
qed (simp_all add: plain_name_def)

text \<open>C24: The command allowlist never refuses: it allows or stays silent. When it allows a call, the
  command is cut at pipes into non-empty stages without any shell metacharacter, each stage starts
  with the words of an allowlisted entry, and no word of a stage (quotes at its ends removed) is an
  unsafe flag or contains a parent-directory element.\<close>

theorem safe_commands_only_remove_noise:
  assumes "safe_commands base extra r \<noteq> Undecided"
  shows "safe_commands base extra r = Allow \<and>
    (\<exists>cmd segs. string_arg (tu_input (pr_use r)) ''command'' = Some cmd \<and> pipeline cmd = Some segs \<and>
      (\<forall>seg\<in>set segs. seg \<noteq> [] \<and> set seg \<inter> set shell_metacharacters_no_pipe = {} \<and>
         CHR ''|'' \<notin> set seg \<and>
         (\<exists>e\<in>set (allow_entries extra). has_prefix (shell_words seg) e) \<and>
         (\<forall>w\<in>set (shell_words seg). trim_by is_quote w \<notin> set unsafe_flags \<and>
            ''..'' \<notin> set (split_on CHR ''/'' (trim_by is_quote w)))))"
proof -
  have allow: "safe_commands base extra r = Allow" using assms safe_commands_cases by metis
  then obtain cmd segs where cmd: "string_arg (tu_input (pr_use r)) ''command'' = Some cmd"
    and segs: "pipeline cmd = Some segs" and ok: "list_all (safe_stage base (allow_entries extra)) segs"
    by (auto simp: safe_commands_def split: option.splits if_splits)
  have "\<exists>e\<in>set (allow_entries extra). has_prefix (shell_words seg) e" if "seg \<in> set segs" for seg
    using ok that longest_entry_some by (fastforce simp: list_all_iff safe_stage_def Let_def)
  moreover have "trim_by is_quote w \<notin> set unsafe_flags \<and>
      ''..'' \<notin> set (split_on CHR ''/'' (trim_by is_quote w))"
    if "seg \<in> set segs" "w \<in> set (shell_words seg)" for seg w
  proof -
    have "safe_word base w" using ok that by (simp add: list_all_iff safe_stage_def Let_def)
    then show ?thesis by (cases "trim_by is_quote w = []") (auto simp: safe_word_def Let_def path_candidates_def)
  qed
  ultimately show ?thesis
    using allow cmd segs pipeline_clean[OF segs] by blast
qed

lemma ls_is_safe:
  "safe_commands ''/w'' [] (call_with shell [(''command'', JStr ''ls''), (''Command'', JStr ''rm -rf .'')]) = Allow"
proof -
  let ?r = "call_with shell [(''command'', JStr ''ls''), (''Command'', JStr ''rm -rf .'')]"
  have "string_arg (tu_input (pr_use ?r)) ''command'' = Some ''ls''"
    "string_arg (tu_input (pr_use ?r)) ''exec_dir'' = None"
    by (simp_all add: string_arg_def call_with_object json_key_def trim_space_def trim_by_def
        trim_left_by_def trim_right_by_def is_space_def)
  moreover have "pipeline ''ls'' = Some [''ls'']" by code_simp
  moreover have "safe_stage ''/w'' (allow_entries []) ''ls''" by code_simp
  ultimately show ?thesis by (simp add: safe_commands_def shell_def cap_defs)
qed

theorem safe_commands_only_remove_noise_witness:
  "safe_commands ''/w'' [] (call_with shell [(''command'', JStr ''ls''), (''Command'', JStr ''rm -rf .'')]) = Allow"
  using safe_commands_only_remove_noise[of "''/w''" "[]"
      "call_with shell [(''command'', JStr ''ls''), (''Command'', JStr ''rm -rf .'')]"] ls_is_safe
  by simp

lemma lower_command: "to_lower ''Command'' = ''command''" "to_lower ''command'' = ''command''"
  by code_simp+

text \<open>The workspace policy and the tool read different commands out of one input: keys match exactly
  for the policy and without regard to case for the tool's struct, so a call the policy allows for
  its ls runs the rm under a second spelling of the key.\<close>

theorem workspace_case_bypass:
  "\<exists>r. decide (workspace ''/w'') r = Allow \<and> td_caps (pr_tool r) = CapExec \<and>
     string_arg (tu_input (pr_use r)) ''command'' = Some ''ls'' \<and>
     field_str ''command'' (input_object (tu_input (pr_use r))) = Some ''rm -rf .''"
proof -
  let ?r = "call_with shell [(''command'', JStr ''ls''), (''Command'', JStr ''rm -rf .'')]"
  have "decide (workspace ''/w'') ?r = Allow"
    using ls_is_safe
    by (simp add: decide_def workspace_def allow_caps_def self_contained_def shell_def cap_defs)
  moreover have "string_arg (tu_input (pr_use ?r)) ''command'' = Some ''ls''"
    by (simp add: string_arg_def call_with_object json_key_def trim_space_def trim_by_def
        trim_left_by_def trim_right_by_def is_space_def)
  moreover have "field_str ''command'' (input_object (tu_input (pr_use ?r))) = Some ''rm -rf .''"
    by (simp add: call_with_object field_str_def lower_command)
  ultimately show ?thesis by (intro exI[of _ ?r]) (simp add: shell_def)
qed

text \<open>A backslash hides an absolute path from the allowlist: the word the shell reads as /etc/passwd
  does not start with a slash, so the workspace policy allows reading it without asking.\<close>

theorem workspace_backslash_bypass:
  "decide (workspace ''/w'')
     (call_with shell [(''command'', JStr (''cat '' @ [CHR 0x5C] @ ''/etc/passwd''))]) = Allow"
proof -
  let ?c = "''cat '' @ [CHR 0x5C] @ ''/etc/passwd''"
  let ?r = "call_with shell [(''command'', JStr ?c)]"
  have "string_arg (tu_input (pr_use ?r)) ''command'' = Some ?c"
    "string_arg (tu_input (pr_use ?r)) ''exec_dir'' = None"
    by (simp_all add: string_arg_def call_with_object json_key_def trim_space_def trim_by_def
        trim_left_by_def trim_right_by_def is_space_def)
  moreover have "pipeline ?c = Some [?c]" by code_simp
  moreover have "safe_stage ''/w'' (allow_entries []) ?c" by code_simp
  ultimately show ?thesis
    by (simp add: decide_def workspace_def allow_caps_def self_contained_def safe_commands_def
        shell_def cap_defs)
qed

text \<open>C3: The gate lets a call through only if the policy allows it, or asks and the call was granted
  before or is approved now. Otherwise the handler has no influence on anything: the answer is an
  error, no grant is added and the refusal is on record; and if it is let through the handler runs
  once, with the approval on record before it starts.\<close>

theorem gate_runs_only_permitted_calls:
  "if permitted p a d u st w
   then \<forall>nxt. \<exists>st' w1. gate env p a nxt d u st w = run_next nxt d u st' w1 \<and>
       gs_grants st \<subseteq> gs_grants st' \<and>
       (\<exists>src. last (gs_events st') = Decided (tu_id u) (td_name d) True src)
   else \<exists>e st' w'. (\<forall>nxt. gate env p a nxt d u st w = (Returned (Inl e), st', w')) \<and>
       gs_grants st' = gs_grants st \<and>
       (\<exists>src. last (gs_events st') = Decided (tu_id u) (td_name d) False src)"
proof (cases "permitted p a d u st w")
  case True
  then show ?thesis using gate_runs[of p a d u st w env] by simp
next
  case False
  then show ?thesis using gate_refuses[of p a d u st w env] by (simp only: if_False) blast
qed

end
