(* ===== verification/Tape.thy ===== *)
theory Tape
  imports Llm
begin

text \<open>
  Recording and replaying model calls: the tape (\<^verbatim>\<open>tape/tape.go\<close>), its canonical encodings
  (\<^verbatim>\<open>tape/codec.go\<close>) and the client middleware (\<^verbatim>\<open>tape/middleware.go\<close>). The file is its
  list of lines; writes succeed as long as the handle is open. The digest (SHA-256) is a parameter:
  nothing here depends on more of it than that equal bytes have equal digests. Replayed deltas are
  not modelled.
\<close>

section \<open>State\<close>

datatype tape_mode = Auto | Record | Replay

datatype entry_kind = KindLLM | KindTool

type_synonym rec_key = "entry_kind \<times> string"

record tape_stats =
  st_hits :: nat
  st_misses :: nat
  st_recorded :: nat

record tape =
  tp_mode :: tape_mode
  tp_loaded :: "rec_key \<Rightarrow> json list"
  tp_cursor :: "rec_key \<Rightarrow> nat"
  tp_next :: "rec_key \<Rightarrow> nat"
  tp_stats :: tape_stats
  tp_handle :: bool
  tp_lines :: "string list"
  tp_write_err :: "err option"

definition ErrTapeMiss :: err where
  [sentinel_defs]: "ErrTapeMiss = Sentinel ''tape: no recorded entry''"
definition ErrTapeClosed :: err where
  [sentinel_defs]: "ErrTapeClosed = Sentinel ''tape: closed''"

section \<open>Lines\<close>

record entry =
  en_kind :: entry_kind
  en_key :: string
  en_seq :: int
  en_request :: json
  en_response :: json

definition kind_text :: "entry_kind \<Rightarrow> string" where
  "kind_text k = (case k of KindLLM \<Rightarrow> ''llm'' | KindTool \<Rightarrow> ''tool'')"

definition entry_json :: "entry \<Rightarrow> json" where
  "entry_json e = JObj
     [(''kind'', JStr (kind_text (en_kind e))), (''key'', JStr (en_key e)),
      (''seq'', JNum (int_text (en_seq e))), (''request'', en_request e), (''response'', en_response e)]"

definition entry_line :: "entry \<Rightarrow> string" where
  "entry_line e = json_render (entry_json e)"

text \<open>
  \<^verbatim>\<open>loadLine\<close>: a blank line is skipped (\<^term>\<open>Inr None\<close>), anything else must be an entry of a known
  kind with a key. An absent response is the JSON null its raw field would decode to.
\<close>

datatype load_error = NotAnEntry nat | UnknownKind nat | NoKey nat

definition load_line :: "nat \<Rightarrow> string \<Rightarrow> load_error + entry option" where
  "load_line n line =
     (let t = trim_by json_space line in
      if t = [] then Inr None
      else case json_parse t of
        Some (JObj kvs) \<Rightarrow>
          (case (field_str ''kind'' kvs, field_str ''key'' kvs, field_int ''seq'' kvs) of
             (Some kd, Some ky, Some sq) \<Rightarrow>
               if kd \<noteq> ''llm'' \<and> kd \<noteq> ''tool'' then Inl (UnknownKind n)
               else if ky = [] then Inl (NoKey n)
               else Inr (Some \<lparr>en_kind = (if kd = ''llm'' then KindLLM else KindTool), en_key = ky,
                 en_seq = sq,
                 en_request = (case json_field ''request'' kvs of Some v \<Rightarrow> v | None \<Rightarrow> JNull),
                 en_response = (case json_field ''response'' kvs of Some v \<Rightarrow> v | None \<Rightarrow> JNull)\<rparr>)
           | _ \<Rightarrow> Inl (NotAnEntry n))
      | Some JNull \<Rightarrow> Inl (UnknownKind n)
      | _ \<Rightarrow> Inl (NotAnEntry n))"

fun load_lines :: "nat \<Rightarrow> string list \<Rightarrow> load_error + entry list" where
  "load_lines n [] = Inr []"
| "load_lines n (l # ls) =
     (case load_line n l of
        Inl e \<Rightarrow> Inl e
      | Inr x \<Rightarrow>
          (case load_lines (Suc n) ls of
             Inl e \<Rightarrow> Inl e
           | Inr es \<Rightarrow> Inr (case x of None \<Rightarrow> es | Some e \<Rightarrow> e # es)))"

definition entry_key :: "entry \<Rightarrow> rec_key" where
  "entry_key e = (en_kind e, en_key e)"

text \<open>The replay pool: per key the responses in stable order of their sequence numbers.\<close>

definition load_pool :: "entry list \<Rightarrow> rec_key \<Rightarrow> json list" where
  "load_pool es k = map en_response (sort_key en_seq (filter (\<lambda>e. entry_key e = k) es))"

definition open_tape :: "tape_mode \<Rightarrow> string list \<Rightarrow> load_error + tape" where
  "open_tape mode ls =
     (case load_lines 1 ls of
        Inl e \<Rightarrow> Inl e
      | Inr es \<Rightarrow> Inr
          \<lparr>tp_mode = mode, tp_loaded = load_pool es, tp_cursor = (\<lambda>_. 0),
           tp_next = (\<lambda>k. length (load_pool es k)),
           tp_stats = \<lparr>st_hits = 0, st_misses = 0, st_recorded = 0\<rparr>,
           tp_handle = (mode \<noteq> Replay), tp_lines = ls, tp_write_err = None\<rparr>)"

section \<open>Operations\<close>

definition count_miss :: "tape \<Rightarrow> tape" where
  "count_miss t = t\<lparr>tp_stats := (tp_stats t)\<lparr>st_misses := st_misses (tp_stats t) + 1\<rparr>\<rparr>"

definition take_entry :: "rec_key \<Rightarrow> tape \<Rightarrow> json option \<times> tape" where
  "take_entry k t =
     (let seq = tp_loaded t k in
      if seq = [] then (None, count_miss t)
      else
        (let i = tp_cursor t k;
             (j, t') = (if i \<ge> length seq then (length seq - 1, t)
                        else (i, t\<lparr>tp_cursor := (tp_cursor t)(k := i + 1)\<rparr>))
         in (Some (seq ! j),
             t'\<lparr>tp_stats := (tp_stats t')\<lparr>st_hits := st_hits (tp_stats t') + 1\<rparr>\<rparr>)))"

definition set_write_err :: "err \<Rightarrow> tape \<Rightarrow> tape" where
  "set_write_err e t = (case tp_write_err t of None \<Rightarrow> t\<lparr>tp_write_err := Some e\<rparr> | Some _ \<Rightarrow> t)"

definition record_entry :: "rec_key \<Rightarrow> json \<Rightarrow> json \<Rightarrow> tape \<Rightarrow> tape" where
  "record_entry k req resp t =
     (if \<not> tp_handle t then set_write_err (Wrapf ''tape: record'' [ErrTapeClosed]) t
      else
        (let seq = tp_next t k;
             t = t\<lparr>tp_next := (tp_next t)(k := seq + 1)\<rparr>
         in t\<lparr>tp_lines := tp_lines t @ [entry_line \<lparr>en_kind = fst k, en_key = snd k, en_seq = int seq,
                en_request = req, en_response = resp\<rparr>],
              tp_stats := (tp_stats t)\<lparr>st_recorded := st_recorded (tp_stats t) + 1\<rparr>\<rparr>))"

definition close_tape :: "tape \<Rightarrow> err option \<times> tape" where
  "close_tape t = (tp_write_err t, t\<lparr>tp_handle := False\<rparr>)"

section \<open>Canonical requests and recorded replies\<close>

definition choice_text :: "choice_mode \<Rightarrow> string" where
  "choice_text m = (case m of ChoiceAuto \<Rightarrow> [] | ChoiceAny \<Rightarrow> ''any'' | ChoiceTool \<Rightarrow> ''tool''
     | ChoiceNone \<Rightarrow> ''none'')"

definition spec_json :: "tool_spec \<Rightarrow> json option" where
  "spec_json s =
     (let obj = (\<lambda>sch. JObj ((''name'', JStr (ts_name s)) # str_field ''description'' (ts_description s) @ sch)) in
      if ts_schema s = [] then Some (obj [])
      else map_option (\<lambda>v. obj [(''input_schema'', v)]) (json_parse (ts_schema s)))"

definition canon_llm :: "request \<Rightarrow> json option" where
  "canon_llm req =
     (let ms = map message_json (rq_messages req); ts = map spec_json (rq_tools req) in
      if None \<in> set ms \<or> None \<in> set ts then None
      else Some (JObj
        (str_field ''model'' (rq_model req) @ str_field ''system'' (rq_system req) @
         [(''messages'', JArr (map the ms))] @
         (if ts = [] then [] else [(''tools'', JArr (map the ts))]) @
         (if tc_mode (rq_choice req) = ChoiceAuto \<and> tc_name (rq_choice req) = [] then []
          else [(''tool_choice'', JObj ((''mode'', JStr (choice_text (tc_mode (rq_choice req)))) #
                 str_field ''name'' (tc_name (rq_choice req))))]) @
         (if rq_max_tokens req = 0 then []
          else [(''max_tokens'', JNum (int_text (rq_max_tokens req)))]))))"

definition int_field :: "string \<Rightarrow> int \<Rightarrow> (string \<times> json) list" where
  "int_field k i = (if i = 0 then [] else [(k, JNum (int_text i))])"

definition usage_json :: "usage \<Rightarrow> json" where
  "usage_json u = JObj
     ((''input_tokens'', JNum (int_text (u_input u))) #
      (''output_tokens'', JNum (int_text (u_output u))) #
      int_field ''cache_creation_input_tokens'' (u_cache_write u) @
      int_field ''cache_read_input_tokens'' (u_cache_read u))"

definition encode_llm_response :: "response \<Rightarrow> bool \<Rightarrow> json option" where
  "encode_llm_response r streamed =
     map_option (\<lambda>m. JObj
       ((''content'', m) # str_field ''stop_reason'' (rs_stop r) @
        (''usage'', usage_json (rs_usage r)) # str_field ''model'' (rs_model r) @
        (if streamed then [(''streamed'', JBool True)] else [])))
      (message_json \<lparr>msg_role = RoleAssistant, msg_content = rs_content r\<rparr>)"

text \<open>An absent message or usage leaves the zero value, as null does.\<close>

definition decode_llm_response :: "json \<Rightarrow> (response \<times> bool) option" where
  "decode_llm_response j = (case j of
     JObj kvs \<Rightarrow>
       (case (message_of_json (case json_field ''content'' kvs of Some v \<Rightarrow> v | None \<Rightarrow> JNull),
              field_str ''stop_reason'' kvs,
              usage_of_json (case json_field ''usage'' kvs of Some v \<Rightarrow> v | None \<Rightarrow> JNull),
              field_str ''model'' kvs, field_bool ''streamed'' kvs) of
          (Some m, Some sr, Some u, Some mo, Some st) \<Rightarrow>
            Some (\<lparr>rs_content = msg_content m, rs_stop = sr, rs_usage = u, rs_model = mo\<rparr>, st)
        | _ \<Rightarrow> None)
   | JNull \<Rightarrow> Some (\<lparr>rs_content = [], rs_stop = [],
       rs_usage = \<lparr>u_input = 0, u_output = 0, u_cache_write = 0, u_cache_read = 0\<rparr>, rs_model = []\<rparr>, False)
   | _ \<Rightarrow> None)"

section \<open>The client middleware\<close>

text \<open>
  The live client also reports whether it streamed; \<open>ended\<close> is the error of the caller's context.
\<close>

type_synonym 'w live_client = "request \<Rightarrow> 'w \<Rightarrow> (err + response) \<times> bool \<times> 'w"

definition tape_live :: "rec_key \<Rightarrow> json \<Rightarrow> 'w live_client \<Rightarrow> request \<Rightarrow> tape \<Rightarrow> 'w
    \<Rightarrow> (err + response) \<times> tape \<times> 'w" where
  "tape_live k canon nxt req t w =
     (case nxt req w of
        (Inl e, _, w') \<Rightarrow> (Inl e, t, w')
      | (Inr r, streamed, w') \<Rightarrow>
          (case encode_llm_response r streamed of
             None \<Rightarrow> (Inr r, set_write_err (Sentinel ''tape: encode llm response'') t, w')
           | Some enc \<Rightarrow> (Inr r, record_entry k canon enc t, w')))"

definition tape_llm :: "(string \<Rightarrow> string) \<Rightarrow> ('w \<Rightarrow> err option) \<Rightarrow> 'w live_client \<Rightarrow> request \<Rightarrow> tape \<Rightarrow> 'w
    \<Rightarrow> (err + response) \<times> tape \<times> 'w" where
  "tape_llm digest ended nxt req t w =
     (case canon_llm req of
        None \<Rightarrow> (Inl (Sentinel ''tape: canonicalise llm request''), t, w)
      | Some canon \<Rightarrow>
          (let k = (KindLLM, digest (json_render canon)) in
           if tp_mode t = Record then tape_live k canon nxt req (count_miss t) w
           else case take_entry k t of
             (Some raw, t') \<Rightarrow>
               (case ended w of
                  Some e \<Rightarrow> (Inl e, t', w)
                | None \<Rightarrow>
                    (case decode_llm_response raw of
                       None \<Rightarrow> (Inl (Sentinel ''tape: decode recorded llm response''), t', w)
                     | Some (r, _) \<Rightarrow> (Inr r, t', w)))
           | (None, t') \<Rightarrow>
               if tp_mode t = Replay then (Inl (Wrapf ''tape'' [ErrTapeMiss]), t', w)
               else tape_live k canon nxt req t' w))"

section \<open>Round trips\<close>

lemma lower_tape_keys [simp]:
  "to_lower ''kind'' = ''kind''" "to_lower ''key'' = ''key''" "to_lower ''seq'' = ''seq''"
  "to_lower ''request'' = ''request''" "to_lower ''response'' = ''response''"
  "to_lower ''streamed'' = ''streamed''"
  by (simp_all add: to_lower_def to_lower_char_def)

lemma render_object_trim: "trim_by json_space (json_render (JObj kvs)) = json_render (JObj kvs)"
  using render_members_last[of kvs]
  by (intro trim_by_id) (auto simp: json_space_def)

definition entry_ok :: "entry \<Rightarrow> bool" where
  "entry_ok e \<longleftrightarrow> en_key e \<noteq> [] \<and> json_ok (en_request e) \<and> json_ok (en_response e)"

lemma load_entry_line:
  assumes "entry_ok e"
  shows "load_line n (entry_line e) = Inr (Some e)"
proof -
  have "json_ok (entry_json e)"
    using assms by (simp add: entry_ok_def entry_json_def scan_number_int_text)
  then have parse: "json_parse (entry_line e) = Some (entry_json e)"
    unfolding entry_line_def by (rule json_parse_render)
  have trim: "trim_by json_space (entry_line e) = entry_line e" "entry_line e \<noteq> []"
    by (simp_all add: entry_line_def entry_json_def render_object_trim del: json_render.simps)
       (simp add: json_render.simps)
  show ?thesis
    using assms parse trim
    by (cases "en_kind e")
      (simp_all add: load_line_def Let_def entry_json_def kind_text_def field_str_def field_int_def
        int_of_int_text entry_ok_def)
qed

lemma load_entry_lines:
  "\<forall>e\<in>set es. entry_ok e \<Longrightarrow> load_lines n (map entry_line es) = Inr es"
  by (induction es arbitrary: n) (simp_all add: load_entry_line)

lemma usage_round_trip: "usage_of_json (usage_json u) = Some u"
  by (cases "u_cache_write u = 0"; cases "u_cache_read u = 0")
    (simp_all add: usage_json_def usage_of_json_def int_field_def field_int_def int_of_int_text)

lemma usage_json_ok: "json_ok (usage_json u)"
  by (simp add: usage_json_def int_field_def scan_number_int_text)

lemma llm_response_round_trip:
  assumes "list_all block_ok (rs_content r)"
  shows "\<exists>j. encode_llm_response r streamed = Some j \<and> json_ok j \<and>
    decode_llm_response j = Some (r, streamed)"
proof -
  let ?m = "\<lparr>msg_role = RoleAssistant, msg_content = rs_content r\<rparr> :: message"
  obtain mj where mj: "message_json ?m = Some mj" "json_ok mj" "message_of_json mj = Some ?m"
    using message_json_round_trip[of ?m] assms by auto
  define j where "j = JObj ((''content'', mj) # str_field ''stop_reason'' (rs_stop r) @
      (''usage'', usage_json (rs_usage r)) # str_field ''model'' (rs_model r) @
      (if streamed then [(''streamed'', JBool True)] else []))"
  have "encode_llm_response r streamed = Some j"
    by (simp add: encode_llm_response_def mj(1) j_def)
  moreover have "json_ok j" using mj(2) by (simp add: j_def str_field_def usage_json_ok)
  moreover have "decode_llm_response j = Some (r, streamed)"
    using mj(3) usage_round_trip[of "rs_usage r"]
    by (cases "rs_stop r = []"; cases "rs_model r = []"; cases streamed)
      (simp_all add: decode_llm_response_def j_def str_field_def field_str_def field_bool_def)
  ultimately show ?thesis by blast
qed

section \<open>A recorded session\<close>

text \<open>Requests one after another through the middleware; the results in order.\<close>

fun tape_session :: "(string \<Rightarrow> string) \<Rightarrow> ('w \<Rightarrow> err option) \<Rightarrow> 'w live_client \<Rightarrow> request list \<Rightarrow> tape \<Rightarrow> 'w
    \<Rightarrow> (err + response) list \<times> tape \<times> 'w" where
  "tape_session digest ended nxt [] t w = ([], t, w)"
| "tape_session digest ended nxt (q # qs) t w =
     (case tape_llm digest ended nxt q t w of
        (r, t1, w1) \<Rightarrow>
          (case tape_session digest ended nxt qs t1 w1 of (rs, t2, w2) \<Rightarrow> (r # rs, t2, w2)))"

definition request_ok :: "request \<Rightarrow> bool" where
  "request_ok q = (case canon_llm q of None \<Rightarrow> False | Some c \<Rightarrow> json_ok c)"

definition answer_ok :: "err + response \<Rightarrow> bool" where
  "answer_ok x = (case x of Inl _ \<Rightarrow> False | Inr r \<Rightarrow> list_all block_ok (rs_content r))"

abbreviation under :: "rec_key \<Rightarrow> entry list \<Rightarrow> entry list" where
  "under k es \<equiv> filter (\<lambda>e. entry_key e = k) es"

text \<open>A tape whose file holds exactly \<open>es\<close>, numbered from zero under each key.\<close>

definition tape_holds :: "tape \<Rightarrow> entry list \<Rightarrow> bool" where
  "tape_holds t es \<longleftrightarrow> tp_lines t = map entry_line es \<and> (\<forall>e\<in>set es. entry_ok e) \<and>
     (\<forall>k. tp_next t k = length (under k es)) \<and>
     (\<forall>k. map en_seq (under k es) = map int [0..<length (under k es)])"

lemma record_entry_holds:
  assumes "tape_holds t es" and "tp_handle t" and "snd k \<noteq> []" and "json_ok req" and "json_ok resp"
  shows "\<exists>e. tape_holds (record_entry k req resp t) (es @ [e]) \<and> entry_key e = k \<and> en_response e = resp \<and>
    tp_handle (record_entry k req resp t) \<and> tp_mode (record_entry k req resp t) = tp_mode t"
proof -
  let ?e = "\<lparr>en_kind = fst k, en_key = snd k, en_seq = int (tp_next t k), en_request = req,
      en_response = resp\<rparr> :: entry"
  have key: "entry_key ?e = k" by (simp add: entry_key_def)
  have "entry_ok ?e" using assms(3-5) by (simp add: entry_ok_def)
  then have "tape_holds (record_entry k req resp t) (es @ [?e])"
    using assms(1,2) key by (auto simp: tape_holds_def record_entry_def Let_def)
  then show ?thesis using assms(2) key
    by (intro exI[of _ ?e]) (simp add: record_entry_def Let_def)
qed

lemma open_held:
  assumes "tape_holds t es"
  shows "\<exists>t'. open_tape mode (tp_lines t) = Inr t' \<and> tp_mode t' = mode \<and>
    (\<forall>k. tp_loaded t' k = map en_response (under k es)) \<and> (\<forall>k. tp_cursor t' k = 0)"
proof -
  have load: "load_lines 1 (tp_lines t) = Inr es"
    using assms load_entry_lines by (simp add: tape_holds_def)
  have "sort_key en_seq (under k es) = under k es" for k
  proof (rule sort_key_id_if_sorted)
    have "map en_seq (under k es) = map int [0..<length (under k es)]"
      using assms unfolding tape_holds_def by blast
    then show "sorted (map en_seq (under k es))"
      by (simp only:) (simp add: sorted_iff_nth_mono)
  qed
  with load show ?thesis by (simp add: open_tape_def load_pool_def)
qed

definition llm_key :: "(string \<Rightarrow> string) \<Rightarrow> request \<Rightarrow> rec_key" where
  "llm_key digest q = (KindLLM, digest (json_render (the (canon_llm q))))"

definition replays_as :: "err + response \<Rightarrow> entry \<Rightarrow> bool" where
  "replays_as x e \<longleftrightarrow> (\<exists>r s. x = Inr r \<and> decode_llm_response (en_response e) = Some (r, s))"

lemma count_miss_holds [simp]: "tape_holds (count_miss t) es = tape_holds t es"
  by (simp add: tape_holds_def count_miss_def)

lemma tape_llm_records:
  assumes "tape_holds t es" and "tp_handle t" and "tp_mode t = Record" and "request_ok q"
    and "\<And>x. digest x \<noteq> []" and "tape_llm digest ended nxt q t w = (x, t', w')" and "answer_ok x"
  shows "\<exists>e. tape_holds t' (es @ [e]) \<and> tp_handle t' \<and> tp_mode t' = Record \<and>
    entry_key e = llm_key digest q \<and> replays_as x e"
proof -
  obtain c where c: "canon_llm q = Some c" "json_ok c"
    using assms(4) by (auto simp: request_ok_def split: option.splits)
  obtain y st w1 where nx: "nxt q w = (y, st, w1)" by (metis prod_cases3)
  have live: "tape_live (llm_key digest q) c nxt q (count_miss t) w = (x, t', w')"
    using assms(3,6) c(1) by (simp add: tape_llm_def llm_key_def)
  have "y = x" using live nx by (auto simp: tape_live_def split: sum.splits option.splits)
  with assms(7) obtain r where r: "x = Inr r" "list_all block_ok (rs_content r)"
    by (auto simp: answer_ok_def split: sum.splits)
  from llm_response_round_trip[OF r(2), of st] obtain j where
    j: "encode_llm_response r st = Some j" "json_ok j" "decode_llm_response j = Some (r, st)" by blast
  have t': "t' = record_entry (llm_key digest q) c j (count_miss t)"
    using live nx \<open>y = x\<close> r(1) j(1) by (simp add: tape_live_def)
  have "tape_holds (count_miss t) es" "tp_handle (count_miss t)" "tp_mode (count_miss t) = Record"
    "snd (llm_key digest q) \<noteq> []"
    using assms(1-3,5) by (simp_all add: llm_key_def) (simp_all add: count_miss_def)
  from record_entry_holds[OF this(1,2,4) c(2) j(2)] this(3)
  show ?thesis using t' r(1) j(3) by (auto simp: replays_as_def)
qed

lemma tape_session_records:
  assumes "tape_holds t es" and "tp_handle t" and "tp_mode t = Record" and "list_all request_ok qs"
    and "\<And>x. digest x \<noteq> []" and "tape_session digest ended nxt qs t w = (rs, t', w')"
    and "list_all answer_ok rs"
  shows "\<exists>new. tape_holds t' (es @ new) \<and> map entry_key new = map (llm_key digest) qs \<and>
    list_all2 replays_as rs new"
  using assms
proof (induction qs arbitrary: t es w rs t' w')
  case Nil
  then show ?case by (intro exI[of _ "[]"]) simp
next
  case (Cons q qs)
  obtain x t1 w1 where one: "tape_llm digest ended nxt q t w = (x, t1, w1)" by (metis prod_cases3)
  obtain rs1 t2 w2 where more: "tape_session digest ended nxt qs t1 w1 = (rs1, t2, w2)" by (metis prod_cases3)
  have eq: "rs = x # rs1" "t' = t2" using Cons.prems(6) one more by auto
  have ok: "request_ok q" "answer_ok x" "list_all request_ok qs" "list_all answer_ok rs1"
    using Cons.prems(4,7) eq by auto
  from tape_llm_records[OF Cons.prems(1-3) ok(1) Cons.prems(5) one ok(2)] obtain e where
    e: "tape_holds t1 (es @ [e])" "tp_handle t1" "tp_mode t1 = Record" "entry_key e = llm_key digest q"
    "replays_as x e" by blast
  from Cons.IH[OF e(1-3) ok(3) Cons.prems(5) more ok(4)] obtain new where
    "tape_holds t2 ((es @ [e]) @ new)" "map entry_key new = map (llm_key digest) qs"
    "list_all2 replays_as rs1 new" by blast
  with e eq show ?case by (intro exI[of _ "e # new"]) simp
qed

lemma filter_nth_split:
  "P e \<Longrightarrow> filter P (xs @ e # ys) ! length (filter P xs) = e"
  by (simp add: nth_append)

definition replaying :: "tape \<Rightarrow> entry list \<Rightarrow> entry list \<Rightarrow> bool" where
  "replaying t before rest \<longleftrightarrow> tp_mode t = Replay \<and>
     (\<forall>k. tp_loaded t k = map en_response (under k (before @ rest))) \<and>
     (\<forall>k. tp_cursor t k = length (under k before))"

lemma take_entry_replays:
  assumes "replaying t before (e # rest)" and "entry_key e = k"
  shows "\<exists>t'. take_entry k t = (Some (en_response e), t') \<and> replaying t' (before @ [e]) rest"
proof -
  let ?seq = "tp_loaded t k"
  have seq: "?seq = map en_response (under k (before @ e # rest))" and cur: "tp_cursor t k = length (under k before)"
    using assms(1) unfolding replaying_def by blast+
  have lt: "tp_cursor t k < length ?seq" using seq cur assms(2) by simp
  have "?seq ! tp_cursor t k = en_response e"
    using seq cur assms(2) by (simp add: nth_append)
  then have "take_entry k t = (Some (en_response e),
      t\<lparr>tp_cursor := (tp_cursor t)(k := tp_cursor t k + 1),
        tp_stats := (tp_stats t)\<lparr>st_hits := st_hits (tp_stats t) + 1\<rparr>\<rparr>)"
    using lt by (auto simp: take_entry_def Let_def)
  moreover have "replaying (t\<lparr>tp_cursor := (tp_cursor t)(k := tp_cursor t k + 1),
        tp_stats := (tp_stats t)\<lparr>st_hits := st_hits (tp_stats t) + 1\<rparr>\<rparr>) (before @ [e]) rest"
    using assms(1,2) cur unfolding replaying_def by (auto simp del: split_paired_All)
  ultimately show ?thesis by blast
qed

lemma tape_session_replays:
  assumes "replaying t before rest" and "map entry_key rest = map (llm_key digest) qs"
    and "list_all2 replays_as rs rest" and "list_all request_ok qs" and "ended w = None"
  shows "\<exists>t'. tape_session digest ended nxt qs t w = (rs, t', w)"
  using assms
proof (induction qs arbitrary: t before rest rs)
  case Nil
  then show ?case by simp
next
  case (Cons q qs)
  from Cons.prems(2) obtain e rest1 where rest: "rest = e # rest1" "entry_key e = llm_key digest q"
    "map entry_key rest1 = map (llm_key digest) qs" by auto
  from Cons.prems(3) rest(1) obtain x rs1 where rs: "rs = x # rs1" "replays_as x e" "list_all2 replays_as rs1 rest1"
    by (auto simp: list_all2_Cons2)
  obtain c where c: "canon_llm q = Some c" using Cons.prems(4) by (auto simp: request_ok_def split: option.splits)
  from take_entry_replays[OF Cons.prems(1)[unfolded rest(1)] rest(2)] obtain t1 where
    t1: "take_entry (llm_key digest q) t = (Some (en_response e), t1)" "replaying t1 (before @ [e]) rest1" by blast
  have "tp_mode t = Replay" using Cons.prems(1) by (simp add: replaying_def)
  then have "tape_llm digest ended nxt q t w = (x, t1, w)"
    using c t1(1) rs(2) Cons.prems(5) by (auto simp: tape_llm_def llm_key_def replays_as_def)
  with Cons.IH[OF t1(2) rest(3) rs(3) _ Cons.prems(5)] Cons.prems(4) rs(1) show ?case by auto
qed

section \<open>Properties\<close>


definition hello_request :: request where
  "hello_request = empty_request\<lparr>rq_messages := [user_text ''hi'']\<rparr>"

definition hello_response :: response where
  "hello_response = \<lparr>rs_content = [Text ''yo''], rs_stop = StopEndTurn,
     rs_usage = \<lparr>u_input = 3, u_output = 1, u_cache_write = 0, u_cache_read = 0\<rparr>, rs_model = []\<rparr>"


text \<open>In replay mode the tape is hermetic: whatever is asked, the live client has no influence, its
  world does not change and no line is written.\<close>

theorem replay_never_goes_live:
  assumes "tp_mode t = Replay"
  shows "tape_llm digest ended nxt q t w = tape_llm digest ended other q t w \<and>
    snd (snd (tape_llm digest ended nxt q t w)) = w \<and>
    tp_lines (fst (snd (tape_llm digest ended nxt q t w))) = tp_lines t"
proof (cases "canon_llm q")
  case None
  then show ?thesis by (simp add: tape_llm_def)
next
  case (Some c)
  obtain hit t' where tk: "take_entry (KindLLM, digest (json_render c)) t = (hit, t')" by (metis prod.exhaust)
  have "tp_lines t' = tp_lines t"
    using tk by (auto simp: take_entry_def count_miss_def Let_def split: if_splits)
  with Some tk assms show ?thesis
    by (cases hit) (simp_all add: tape_llm_def split: option.splits)
qed

theorem replay_never_goes_live_witness:
  "\<exists>t. open_tape Replay [] = Inr t \<and>
     tape_llm id (\<lambda>_. None) (\<lambda>_ w. (Inr hello_response, False, w + 1)) hello_request t (0 :: nat) =
     tape_llm id (\<lambda>_. None) (\<lambda>_ w. (Inl ErrServer, False, w)) hello_request t 0"
proof -
  obtain t where t: "open_tape Replay [] = Inr t" by (simp add: open_tape_def)
  then have "tp_mode t = Replay" by (auto simp: open_tape_def)
  from replay_never_goes_live[OF this, THEN conjunct1] t show ?thesis by (intro exI[of _ t] conjI)
qed

text \<open>The key of a request ignores its sampling parameters: two requests that differ only in
  temperature and top-p have the same canonical form, so one is answered with the recording of the
  other.\<close>

theorem tape_key_ignores_sampling:
  assumes "tp_mode t = Replay"
  shows "tape_llm digest ended nxt (q\<lparr>rq_temperature := x, rq_top_p := y\<rparr>) t w = tape_llm digest ended nxt q t w"
  using assms by (auto simp: tape_llm_def canon_llm_def Let_def split: option.splits prod.splits)

theorem tape_key_ignores_sampling_witness:
  "\<exists>t. open_tape Replay [] = Inr t \<and>
     tape_llm id (\<lambda>_. None) (\<lambda>_ w. (Inl ErrServer, False, w)) (hello_request\<lparr>rq_temperature := Some 1, rq_top_p := None\<rparr>) t (0 :: nat) =
     tape_llm id (\<lambda>_. None) (\<lambda>_ w. (Inl ErrServer, False, w)) hello_request t 0"
proof -
  obtain t where t: "open_tape Replay [] = Inr t" by (simp add: open_tape_def)
  then have "tp_mode t = Replay" by (auto simp: open_tape_def)
  from tape_key_ignores_sampling[OF this] t show ?thesis by (intro exI[of _ t] conjI)
qed

text \<open>A key's numbering breaks when its file has a gap: a tape left with one entry numbered 2 (the
  others deleted) numbers the next recording 1, and the next session replays the new answer before
  the old one.\<close>

theorem gap_reorders_replay:
  assumes "json_ok v" and "json_ok v'"
  shows "\<exists>t t2. open_tape Record [entry_line \<lparr>en_kind = KindLLM, en_key = ''k'', en_seq = 2,
        en_request = JNull, en_response = v\<rparr>] = Inr t \<and>
    open_tape Replay (tp_lines (record_entry (KindLLM, ''k'') JNull v' t)) = Inr t2 \<and>
    tp_loaded t2 (KindLLM, ''k'') = [v', v]"
proof -
  let ?e = "\<lparr>en_kind = KindLLM, en_key = ''k'', en_seq = 2, en_request = JNull, en_response = v\<rparr> :: entry"
  let ?f = "\<lparr>en_kind = KindLLM, en_key = ''k'', en_seq = 1, en_request = JNull, en_response = v'\<rparr> :: entry"
  have ok: "\<forall>e\<in>set [?e, ?f]. entry_ok e" using assms by (simp add: entry_ok_def)
  have l1: "load_lines 1 (map entry_line [?e]) = Inr [?e]" using load_entry_lines[of "[?e]"] ok by simp
  have l2: "load_lines 1 (map entry_line [?e, ?f]) = Inr [?e, ?f]" using load_entry_lines[OF ok] .
  obtain t where t: "open_tape Record (map entry_line [?e]) = Inr t" "tp_next t (KindLLM, ''k'') = 1"
    "tp_lines t = map entry_line [?e]" "tp_handle t"
    using l1 by (simp add: open_tape_def load_pool_def entry_key_def)
  have "tp_lines (record_entry (KindLLM, ''k'') JNull v' t) = map entry_line [?e, ?f]"
    using t by (simp add: record_entry_def Let_def)
  moreover obtain t2 where "open_tape Replay (map entry_line [?e, ?f]) = Inr t2"
    "tp_loaded t2 (KindLLM, ''k'') = [v', v]"
    using l2 by (simp add: open_tape_def load_pool_def entry_key_def)
  ultimately show ?thesis using t(1) by auto
qed

theorem gap_reorders_replay_witness:
  "\<exists>t t2. open_tape Record [entry_line \<lparr>en_kind = KindLLM, en_key = ''k'', en_seq = 2,
        en_request = JNull, en_response = JBool False\<rparr>] = Inr t \<and>
    open_tape Replay (tp_lines (record_entry (KindLLM, ''k'') JNull (JBool True) t)) = Inr t2 \<and>
    tp_loaded t2 (KindLLM, ''k'') = [JBool True, JBool False]"
  by (rule gap_reorders_replay) simp_all

end
