(* ===== verification/Strategy.thy ===== *)
theory Strategy
  imports TranscriptWf
begin

text \<open>
  Transcript strategies (\<^verbatim>\<open>strategy.go\<close>): what a strategy sees, the position-based windows,
  surgical removal of tool-call pairs, compaction, and their composition. A strategy is a function
  from a view to the messages of one request, as the Go interface is; the locale
  \<open>transcript_strategy\<close> is the contract every implementation has to meet.

  Lengths and window parameters are Go \<^verbatim>\<open>int\<close>s; the arithmetic is on \<^typ>\<open>int\<close>, which is
  exact as long as the parameters stay below $2^{62}$ in magnitude.
\<close>

section \<open>Views\<close>

record result_info =
  ri_tool :: string
  ri_tags :: "string list"
  ri_bytes :: int

record view =
  v_messages :: convo
  v_results :: "tool_use_id \<rightharpoonup> result_info"

type_synonym strategy = "view \<Rightarrow> convo"

definition has_tag :: "view \<Rightarrow> tool_use_id \<Rightarrow> string \<Rightarrow> bool" where
  "has_tag v i t = (case v_results v i of None \<Rightarrow> False | Some info \<Rightarrow> t \<in> set (ri_tags info))"

definition tagged_uses :: "view \<Rightarrow> string list \<Rightarrow> block list \<Rightarrow> tool_use_id list" where
  "tagged_uses v tags bs =
     map tu_id (filter (\<lambda>u. list_ex (has_tag v (tu_id u)) tags) (tool_uses bs))"

definition tagged :: "view \<Rightarrow> string list \<Rightarrow> tool_use_id list" where
  "tagged v tags = concat (map (\<lambda>m. tagged_uses v tags (msg_content m)) (v_messages v))"

definition flat_apply :: strategy where
  "flat_apply v = v_messages v"

definition seq_apply :: "strategy list \<Rightarrow> strategy" where
  "seq_apply ss v = foldl (\<lambda>msgs st. st (v\<lparr>v_messages := msgs\<rparr>)) (v_messages v) ss"

section \<open>Cutting by position\<close>

definition is_tool_result :: "block \<Rightarrow> bool" where
  "is_tool_result b = (case b of ToolResult _ \<Rightarrow> True | _ \<Rightarrow> False)"

definition fresh_user_turn :: "message \<Rightarrow> bool" where
  "fresh_user_turn m = (msg_role m = RoleUser \<and> \<not> list_ex is_tool_result (msg_content m))"

text \<open>The backward search of \<^verbatim>\<open>SafeCut\<close>, from index \<open>i\<close> down to 1.\<close>

fun safe_cut_from :: "convo \<Rightarrow> nat \<Rightarrow> nat" where
  "safe_cut_from msgs 0 = 0"
| "safe_cut_from msgs (Suc i) =
     (if fresh_user_turn (msgs ! Suc i) then Suc i else safe_cut_from msgs i)"

definition safe_cut :: "convo \<Rightarrow> int \<Rightarrow> nat" where
  "safe_cut msgs want =
     (if want \<le> 0 \<or> msgs = [] then 0
      else safe_cut_from msgs
             (nat (if want \<ge> int (length msgs) then int (length msgs) - 1 else want)))"

definition window_want :: "int \<Rightarrow> int \<Rightarrow> int \<Rightarrow> int option" where
  "window_want trigger keep n =
     (if trigger > 0 then
        (if n < trigger then None
         else let delta = trigger - keep in
           if delta \<le> 0 then None else Some ((n - keep) div delta * delta))
      else Some (n - keep))"

definition window_apply :: "int \<Rightarrow> int \<Rightarrow> strategy" where
  "window_apply trigger keep v =
     (let msgs = v_messages v; n = int (length msgs) in
      if keep \<le> 0 \<or> n \<le> keep then msgs
      else case window_want trigger keep n of
        None \<Rightarrow> msgs
      | Some want \<Rightarrow>
          let cut = safe_cut msgs want in
          if cut = 0 then msgs else drop cut msgs)"

definition sliding_window :: "int \<Rightarrow> strategy" where
  "sliding_window keep_recent = window_apply 0 keep_recent"

definition sliding_window_at :: "int \<Rightarrow> int \<Rightarrow> strategy" where
  "sliding_window_at trigger_at keep_recent = window_apply trigger_at keep_recent"

section \<open>Removing pairs\<close>

definition keep_block :: "tool_use_id set \<Rightarrow> block \<Rightarrow> bool" where
  "keep_block ids b =
     (case b of ToolUse u \<Rightarrow> tu_id u \<notin> ids | ToolResult r \<Rightarrow> tr_id r \<notin> ids | _ \<Rightarrow> True)"

definition strip_turn :: "tool_use_id set \<Rightarrow> message \<Rightarrow> message" where
  "strip_turn ids m =
     \<lparr>msg_role = msg_role m, msg_content = filter (keep_block ids) (msg_content m)\<rparr>"

definition normalize_step :: "convo \<Rightarrow> message \<Rightarrow> convo" where
  "normalize_step out m =
     (if msg_content m = [] then out
      else if out \<noteq> [] \<and> msg_role (last out) = msg_role m
        then butlast out @ [(last out)\<lparr>msg_content := msg_content (last out) @ msg_content m\<rparr>]
      else out @ [m])"

definition normalize_convo :: "convo \<Rightarrow> convo" where
  "normalize_convo c = dropWhile (\<lambda>m. msg_role m \<noteq> RoleUser) (foldl normalize_step [] c)"

definition drop_pairs :: "convo \<Rightarrow> tool_use_id set \<Rightarrow> convo" where
  "drop_pairs msgs ids =
     (if ids = {} then msgs
      else normalize_convo (filter (\<lambda>m. msg_content m \<noteq> []) (map (strip_turn ids) msgs)))"

definition drop_tagged_apply :: "int \<Rightarrow> int \<Rightarrow> string list \<Rightarrow> strategy" where
  "drop_tagged_apply trigger keep tags v =
     (let msgs = v_messages v; n = int (length msgs) in
      if tags = [] \<or> v_results v = Map.empty then msgs
      else if trigger > 0 \<and> n < trigger then msgs
      else let protected = nat (max (n - keep) 0);
               victims = set (concat (map (\<lambda>m. tagged_uses v tags (msg_content m)) (take protected msgs)))
           in drop_pairs msgs victims)"

section \<open>Compaction\<close>

definition summary_text :: "string \<Rightarrow> string" where
  "summary_text s =
     ''<conversation_summary>'' @ [CHR 0x0A] @ s @ [CHR 0x0A] @ ''</conversation_summary>''"

definition prepend_turn :: "convo \<Rightarrow> message \<Rightarrow> convo" where
  "prepend_turn c m =
     (case c of
        [] \<Rightarrow> [m]
      | f # rest \<Rightarrow>
          if msg_role f \<noteq> msg_role m then m # c
          else (f\<lparr>msg_content := msg_content m @ msg_content f\<rparr>) # rest)"

definition compacted_apply :: "int \<Rightarrow> int \<Rightarrow> (convo \<Rightarrow> string) option \<Rightarrow> strategy" where
  "compacted_apply at_len keep fn v =
     (let msgs = v_messages v; n = int (length msgs) in
      case fn of
        None \<Rightarrow> msgs
      | Some f \<Rightarrow>
          if keep \<le> 0 \<or> at_len \<le> 0 \<or> n < at_len \<or> n \<le> keep then msgs
          else let cut = safe_cut msgs (n - keep) in
            if cut = 0 then msgs
            else let summary = f (take cut msgs) in
              if summary = [] then drop cut msgs
              else prepend_turn (drop cut msgs) (user_text (summary_text summary)))"

section \<open>Cut points\<close>

lemma fresh_user_turn_results:
  assumes "fresh_user_turn m"
  shows "results_of m = [] \<and> msg_role m = RoleUser"
proof -
  have "\<not> list_ex is_tool_result bs \<Longrightarrow> result_ids bs = []" for bs
    by (induction bs rule: result_ids.induct) (auto simp: is_tool_result_def)
  with assms show ?thesis by (auto simp: fresh_user_turn_def)
qed

lemma safe_cut_from_le: "safe_cut_from msgs i \<le> i"
  by (induction i) auto

lemma safe_cut_from_safe:
  "safe_cut_from msgs i \<noteq> 0 \<Longrightarrow> fresh_user_turn (msgs ! safe_cut_from msgs i)"
  by (induction i) (auto split: if_splits)

lemma safe_cut_from_greatest:
  "0 < j \<Longrightarrow> j \<le> i \<Longrightarrow> fresh_user_turn (msgs ! j) \<Longrightarrow> j \<le> safe_cut_from msgs i"
  by (induction i) (auto simp: le_Suc_eq)

lemma safe_cut_from_append:
  "i < length msgs \<Longrightarrow> safe_cut_from (msgs @ later) i = safe_cut_from msgs i"
  by (induction i) (auto simp: nth_append)

lemma safe_cut_search:
  assumes "0 < want" and "msgs \<noteq> []"
  obtains i where "safe_cut msgs want = safe_cut_from msgs i" and "i < length msgs" and "int i \<le> want"
    and "\<And>j. int j \<le> want \<Longrightarrow> j < length msgs \<Longrightarrow> j \<le> i"
proof (cases "want \<ge> int (length msgs)")
  case True
  have "nat (int (length msgs) - 1) = length msgs - 1" by simp
  with True assms show thesis
    by (intro that[of "length msgs - 1"]) (auto simp: safe_cut_def neq_Nil_conv)
next
  case False
  with assms show thesis by (intro that[of "nat want"]) (auto simp: safe_cut_def)
qed

lemma safe_cut_trivial: "want \<le> 0 \<or> msgs = [] \<Longrightarrow> safe_cut msgs want = 0"
  by (auto simp: safe_cut_def)

lemma safe_cut_nontrivial: "safe_cut msgs want \<noteq> 0 \<Longrightarrow> 0 < want \<and> msgs \<noteq> []"
  by (auto simp: safe_cut_def split: if_splits)

lemma safe_cut_less:
  assumes "msgs \<noteq> []"
  shows "safe_cut msgs want < length msgs"
proof (cases "0 < want")
  case True
  obtain i where "safe_cut msgs want = safe_cut_from msgs i" "i < length msgs"
    by (rule safe_cut_search[OF True assms])
  with safe_cut_from_le[of msgs i] show ?thesis by simp
qed (use assms in \<open>simp add: safe_cut_trivial\<close>)

lemma safe_cut_le:
  assumes "safe_cut msgs want \<noteq> 0"
  shows "int (safe_cut msgs want) \<le> want"
proof -
  from safe_cut_nontrivial[OF assms] have "0 < want" "msgs \<noteq> []" by auto
  then obtain i where "safe_cut msgs want = safe_cut_from msgs i" "int i \<le> want"
    by (rule safe_cut_search)
  with safe_cut_from_le[of msgs i] show ?thesis by simp
qed

lemma safe_cut_safe:
  assumes "safe_cut msgs want \<noteq> 0"
  shows "fresh_user_turn (msgs ! safe_cut msgs want)"
proof -
  from safe_cut_nontrivial[OF assms] have "0 < want" "msgs \<noteq> []" by auto
  then obtain i where "safe_cut msgs want = safe_cut_from msgs i" by (rule safe_cut_search)
  with assms safe_cut_from_safe[of msgs i] show ?thesis by simp
qed

lemma safe_cut_greatest:
  assumes "0 < j" "int j \<le> want" "j < length msgs" "fresh_user_turn (msgs ! j)"
  shows "j \<le> safe_cut msgs want"
proof -
  from assms have "0 < want" "msgs \<noteq> []" by auto
  then obtain i where "safe_cut msgs want = safe_cut_from msgs i" and "j \<le> i"
    using assms(2,3) by (metis safe_cut_search)
  with safe_cut_from_greatest[OF assms(1) _ assms(4)] show ?thesis by simp
qed

lemma safe_cut_append:
  assumes "want < int (length msgs)"
  shows "safe_cut (msgs @ later) want = safe_cut msgs want"
proof (cases "want \<le> 0 \<or> msgs = []")
  case True
  with assms show ?thesis by (auto simp: safe_cut_def)
next
  case False
  with assms have "nat want < length msgs" by (simp add: nat_less_iff)
  with assms False safe_cut_from_append[OF this] show ?thesis by (simp add: safe_cut_def)
qed

text \<open>Every suffix that starts at a fresh user turn is itself well-formed.\<close>

lemma drop_at_fresh_turn:
  assumes "run_turns start_state c = Some (p, s, opn)" and "k < length c"
    and "fresh_user_turn (c ! k)"
  shows "opens_with_user (drop k c) \<and> (\<exists>s'. run_turns start_state (drop k c) = Some (p, s', opn))"
proof -
  have ne: "drop k c \<noteq> []" using assms(2) by simp
  have hd: "hd (drop k c) = c ! k" using assms(2) by (simp add: hd_drop_conv_nth)
  from assms(1) have "run_turns start_state (take k c @ drop k c) = Some (p, s, opn)" by simp
  then obtain st1 where "run_turns st1 (drop k c) = Some (p, s, opn)"
    unfolding run_turns_append by (auto simp: bind_eq_Some_conv)
  moreover obtain p1 s1 o1 where st1: "st1 = (p1, s1, o1)" by (cases st1)
  ultimately have run: "run_turns (p1, s1, o1) (drop k c) = Some (p, s, opn)" by simp
  have "o1 = {}"
  proof (cases "drop k c")
    case (Cons m ms)
    with run have "turn_fits (p1, s1, o1) m" by (simp split: if_splits)
    with Cons hd fresh_user_turn_results[OF assms(3)] show ?thesis by simp
  qed (use ne in simp)
  with run_turns_mono[OF run_turns_forget_prev[OF ne run], of "{}"]
  show ?thesis
    using ne hd fresh_user_turn_results[OF assms(3)] by (auto simp: opens_with_user_def)
qed

lemma drop_cut_valid:
  assumes "validate c = None" and "safe_cut c want \<noteq> 0"
  shows "validate (drop (safe_cut c want) c) = None"
proof -
  from assms(1) obtain p s where "c \<noteq> []" "run_turns start_state c = Some (p, s, {})"
    by (auto simp: validate_run opens_with_user_def)
  then show ?thesis
    using drop_at_fresh_turn[OF _ safe_cut_less safe_cut_safe[OF assms(2)]]
    by (auto simp: validate_run)
qed

section \<open>Pairs\<close>

lemma normalize_step_append: "normalize_step = append_msg"
  by (intro ext) (simp add: normalize_step_def append_msg_def)

lemma foldl_append_skip_empty:
  "foldl append_msg out (filter (\<lambda>m. msg_content m \<noteq> []) ms) = foldl append_msg out ms"
  by (induction ms arbitrary: out) (auto simp: append_msg_def)

lemma use_ids_filter: "use_ids (filter (keep_block ids) bs) = filter (\<lambda>i. i \<notin> ids) (use_ids bs)"
proof (induction bs)
  case (Cons b bs)
  then show ?case by (cases b) (auto simp: keep_block_def)
qed simp

lemma result_ids_filter: "result_ids (filter (keep_block ids) bs) = filter (\<lambda>i. i \<notin> ids) (result_ids bs)"
proof (induction bs)
  case (Cons b bs)
  then show ?case by (cases b) (auto simp: keep_block_def)
qed simp

lemma roles_ok_filter: "roles_ok r bs \<Longrightarrow> roles_ok r (filter (keep_block ids) bs)"
  by (auto simp: roles_ok_def use_ids_filter result_ids_filter)

lemma no_tool_blocks_kept:
  "use_ids bs = [] \<Longrightarrow> result_ids bs = [] \<Longrightarrow> filter (keep_block ids) bs = bs"
proof (induction bs)
  case (Cons b bs)
  then show ?case by (cases b) (auto simp: keep_block_def)
qed simp

lemma strip_step:
  assumes out: "run_turns start_state out = Some (p', s', o1 - ids)" "out \<noteq> []" "s' \<subseteq> s1"
    and fits: "turn_fits (p1, s1, o1) m"
  shows "\<exists>p s. run_turns start_state (append_msg out (strip_turn ids m)) =
      Some (p, s, set (uses_of m) - ids) \<and> s \<subseteq> s1 \<union> set (uses_of m)"
proof (cases "msg_content (strip_turn ids m) = []")
  case True
  then have "use_ids (msg_content (strip_turn ids m)) = []" "result_ids (msg_content (strip_turn ids m)) = []"
    by simp_all
  then have "set (uses_of m) - ids = {}" "o1 - ids = {}"
    using fits by (auto simp: strip_turn_def use_ids_filter result_ids_filter filter_empty_conv)
  with out True show ?thesis by (auto simp: append_msg_def)
next
  case False
  let ?k = "strip_turn ids m"
  have uses: "uses_of ?k = filter (\<lambda>i. i \<notin> ids) (uses_of m)"
    and results: "results_of ?k = filter (\<lambda>i. i \<notin> ids) (results_of m)"
    by (simp_all add: strip_turn_def use_ids_filter result_ids_filter)
  have rset: "set (results_of ?k) = o1 - ids" using fits results by auto
  have k: "roles_ok (msg_role ?k) (msg_content ?k)" "distinct (uses_of ?k)" "distinct (results_of ?k)"
    "set (uses_of ?k) \<inter> s' = {}" "msg_role ?k = msg_role m"
    using fits out(3) uses results by (auto simp: strip_turn_def intro: roles_ok_filter)
  show ?thesis
  proof (cases "msg_role (last out) = msg_role ?k")
    case True
    have "results_of ?k = []"
    proof (cases "msg_role ?k = RoleUser")
      case False
      then show ?thesis using k(1) by (auto simp: roles_ok_def)
    next
      case True
      with \<open>msg_role (last out) = msg_role ?k\<close> run_turns_last[OF out(1,2)] have "o1 - ids = {}"
        by (auto simp: roles_ok_def)
      with rset show ?thesis by simp
    qed
    with append_msg_same_role[OF out(1,2) False True k(1,2,4)] rset out(3) uses show ?thesis
      by auto
  next
    case other: False
    with append_msg_other_role[OF out(1,2) False other k(1,2,4,3) rset] out(3) uses show ?thesis
      by auto
  qed
qed

lemma strip_fold:
  assumes "run_turns start_state c = Some (p, s, opn)" and "opens_with_user c"
    and "msg_content (hd c) \<noteq> []"
  shows "\<exists>p' s'. run_turns start_state (foldl append_msg [] (map (strip_turn ids) c)) =
      Some (p', s', opn - ids) \<and> s' \<subseteq> s \<and>
      opens_with_user (foldl append_msg [] (map (strip_turn ids) c))"
  using assms
proof (induction c arbitrary: p s opn rule: rev_induct)
  case (snoc m xs)
  show ?case
  proof (cases "xs = []")
    case True
    with snoc.prems have m: "msg_role m = RoleUser" "uses_of m = []" "results_of m = []" "opn = {}"
      by (auto simp: opens_with_user_def roles_ok_def split: if_splits)
    then have "strip_turn ids m = m" by (simp add: strip_turn_def no_tool_blocks_kept)
    with True m snoc.prems show ?thesis
      by (auto simp: append_msg_def opens_with_user_def split: if_splits)
  next
    case False
    from snoc.prems(1) obtain p1 s1 o1 where xs: "run_turns start_state xs = Some (p1, s1, o1)"
      and fits: "turn_fits (p1, s1, o1) m" and nxt: "turn_next (p1, s1, o1) m = (p, s, opn)"
      by (auto simp: run_turns_snoc)
    let ?out = "foldl append_msg [] (map (strip_turn ids) xs)"
    from False snoc.prems(2,3) have "opens_with_user xs" "msg_content (hd xs) \<noteq> []"
      by (auto simp: opens_with_user_def)
    from snoc.IH[OF xs this] obtain p' s' where out: "run_turns start_state ?out = Some (p', s', o1 - ids)"
      "s' \<subseteq> s1" "opens_with_user ?out" by blast
    then have "?out \<noteq> []" by (auto simp: opens_with_user_def)
    from strip_step[OF out(1) this out(2) fits] append_msg_opens[OF out(3)] nxt show ?thesis
      by auto
  qed
qed (simp add: opens_with_user_def)

lemma drop_pairs_eq:
  "ids \<noteq> {} \<Longrightarrow> drop_pairs c ids =
     dropWhile (\<lambda>m. msg_role m \<noteq> RoleUser) (foldl append_msg [] (map (strip_turn ids) c))"
  by (simp add: drop_pairs_def normalize_convo_def normalize_step_append foldl_append_skip_empty)

lemma dropWhile_opens: "opens_with_user c \<Longrightarrow> dropWhile (\<lambda>m. msg_role m \<noteq> RoleUser) c = c"
  by (cases c) (auto simp: opens_with_user_def)

lemma drop_pairs_fold:
  assumes "validate c = None" and "msg_content (hd c) \<noteq> []" and "ids \<noteq> {}"
  shows "drop_pairs c ids = foldl append_msg [] (map (strip_turn ids) c)"
  using assms strip_fold[of c _ _ "{}" ids] by (auto simp: validate_run drop_pairs_eq dropWhile_opens)

lemma drop_pairs_keeps_valid:
  assumes "validate c = None" and "msg_content (hd c) \<noteq> []"
  shows "validate (drop_pairs c ids) = None"
proof (cases "ids = {}")
  case True
  with assms show ?thesis by (simp add: drop_pairs_def)
next
  case False
  with assms strip_fold[of c _ _ "{}" ids] show ?thesis
    by (auto simp: validate_run drop_pairs_eq dropWhile_opens)
qed

text \<open>Nothing but the named pairs is lost: the remaining blocks keep their order.\<close>

lemma append_msg_blocks:
  "concat (map msg_content (append_msg c m)) = concat (map msg_content c) @ msg_content m"
proof (cases "c = []")
  case False
  then obtain xs l where "c = xs @ [l]" by (meson rev_exhaust)
  then show ?thesis by (simp add: append_msg_def)
qed (simp add: append_msg_def)

lemma foldl_append_blocks:
  "concat (map msg_content (foldl append_msg out ms)) =
     concat (map msg_content out) @ concat (map msg_content ms)"
  by (induction ms arbitrary: out) (auto simp: append_msg_blocks)

lemma append_msg_nonempty_turns:
  "\<forall>m\<in>set c. msg_content m \<noteq> [] \<Longrightarrow> \<forall>x\<in>set (append_msg c m). msg_content x \<noteq> []"
  by (auto simp: append_msg_def dest: in_set_butlastD)

lemma foldl_append_nonempty_turns:
  "\<forall>m\<in>set out. msg_content m \<noteq> [] \<Longrightarrow> \<forall>x\<in>set (foldl append_msg out ms). msg_content x \<noteq> []"
proof (induction ms arbitrary: out)
  case (Cons m ms)
  from Cons.IH[OF append_msg_nonempty_turns[OF Cons.prems]] show ?case by simp
qed simp

lemma prepend_turn_valid:
  assumes "validate c = None" and "msg_role m = RoleUser"
    and "use_ids (msg_content m) = []" and "result_ids (msg_content m) = []"
  shows "validate (prepend_turn c m) = None"
proof (cases c)
  case (Cons f rest)
  from assms(1) Cons obtain p s where f: "msg_role f = RoleUser" "turn_fits start_state f"
    and rest: "run_turns (turn_next start_state f) rest = Some (p, s, {})"
    by (auto simp: validate_run opens_with_user_def split: if_splits)
  let ?f = "f\<lparr>msg_content := msg_content m @ msg_content f\<rparr>"
  have "turn_fits start_state ?f" "turn_next start_state ?f = turn_next start_state f"
    using f assms(2-4) by (auto simp: roles_ok_def)
  then show ?thesis
    using Cons rest f(1) assms(2) by (auto simp: validate_run prepend_turn_def opens_with_user_def)
qed (use assms(1) in \<open>simp add: validate_def\<close>)

section \<open>Windows\<close>

lemma window_want_le: "window_want trigger keep n = Some want \<Longrightarrow> 0 < keep \<Longrightarrow> keep < n \<Longrightarrow> want \<le> n - keep"
  by (auto simp: window_want_def Let_def minus_mod_eq_div_mult[symmetric] split: if_splits)

lemma window_apply_cases:
  fixes v :: view
  obtains (all) "window_apply trigger keep v = v_messages v"
  | (cut) want where "0 < keep" "keep < int (length (v_messages v))"
      "window_want trigger keep (int (length (v_messages v))) = Some want"
      "safe_cut (v_messages v) want \<noteq> 0"
      "window_apply trigger keep v = drop (safe_cut (v_messages v) want) (v_messages v)"
proof (cases "window_apply trigger keep v = v_messages v")
  case True
  then show thesis by (rule all)
next
  case False
  then have "0 < keep" "keep < int (length (v_messages v))"
    by (auto simp: window_apply_def Let_def split: if_splits)
  moreover from this False obtain want where
    "window_want trigger keep (int (length (v_messages v))) = Some want"
    by (auto simp: window_apply_def Let_def split: option.splits)
  ultimately show thesis
    using False cut[of want] by (auto simp: window_apply_def Let_def split: if_splits)
qed

lemma window_keeps:
  fixes v :: view
  shows "0 \<le> keep \<Longrightarrow> min keep (int (length (v_messages v))) \<le> int (length (window_apply trigger keep v))"
proof (cases rule: window_apply_cases[of trigger keep v])
  case (cut want)
  from safe_cut_le[OF cut(4)] window_want_le[OF cut(3,1,2)] safe_cut_less[of "v_messages v" want] cut(2)
  have "int (safe_cut (v_messages v) want) \<le> int (length (v_messages v)) - keep" by simp
  with cut show ?thesis by auto
qed simp

lemma window_valid:
  fixes v :: view
  shows "validate (v_messages v) = None \<Longrightarrow> validate (window_apply trigger keep v) = None"
  by (cases rule: window_apply_cases[of trigger keep v]) (auto intro: drop_cut_valid)

text \<open>Past the trigger the wanted cut depends on the quotient only, so it stands still.\<close>

lemma window_anchor:
  assumes "0 < keep" and "keep < trigger"
    and "trigger \<le> int (length msgs)" and "trigger \<le> int (length (msgs @ later))"
    and "(int (length msgs) - keep) div (trigger - keep) =
         (int (length (msgs @ later)) - keep) div (trigger - keep)"
  shows "window_apply trigger keep \<lparr>v_messages = msgs @ later, v_results = r\<rparr> =
         window_apply trigger keep \<lparr>v_messages = msgs, v_results = r\<rparr> @ later"
proof -
  let ?want = "(int (length msgs) - keep) div (trigger - keep) * (trigger - keep)"
  have w: "window_want trigger keep (int (length msgs)) = Some ?want"
    "window_want trigger keep (int (length (msgs @ later))) = Some ?want"
    using assms by (auto simp: window_want_def Let_def)
  have "?want < int (length msgs)"
    using window_want_le[OF w(1) assms(1)] assms(1-3) by simp
  then have cut: "safe_cut (msgs @ later) ?want = safe_cut msgs ?want"
    by (rule safe_cut_append)
  have "msgs \<noteq> []" using assms(1-3) by auto
  then have "safe_cut msgs ?want \<le> length msgs" using safe_cut_less[of msgs ?want] by simp
  then show ?thesis
    using w cut assms(1-3) by (simp add: window_apply_def Let_def)
qed

section \<open>The contract of a strategy\<close>

text \<open>
  What the agent loop and the overflow ladder rely on. \<open>sendable\<close> is a request transcript: it
  validates and no turn is empty (the second half is what \<^verbatim>\<open>llm.WithValidation\<close> checks).
\<close>

definition sendable :: "convo \<Rightarrow> bool" where
  "sendable c \<longleftrightarrow> validate c = None \<and> (\<forall>m\<in>set c. msg_content m \<noteq> [])"

locale transcript_strategy =
  fixes strat :: strategy
  assumes keeps_sendable: "sendable (v_messages v) \<Longrightarrow> sendable (strat v)"
begin

lemma request_valid: "sendable (v_messages v) \<Longrightarrow> validate (strat v) = None"
  using keeps_sendable by (simp add: sendable_def)

lemma request_nonempty: "sendable (v_messages v) \<Longrightarrow> strat v \<noteq> []"
  using request_valid[of v] by (auto simp: validate_def)

lemma request_user_first: "sendable (v_messages v) \<Longrightarrow> msg_role (hd (strat v)) = RoleUser"
  using request_valid[of v] by (auto simp: validate_run opens_with_user_def)

lemma no_dangling: "sendable (v_messages v) \<Longrightarrow> dangling (strat v) = []"
  using request_valid by (rule validate_dangling)

end

lemma sendable_hd: "sendable c \<Longrightarrow> msg_content (hd c) \<noteq> []"
  by (cases c) (auto simp: sendable_def validate_def)

lemma sendable_drop_cut:
  "sendable c \<Longrightarrow> safe_cut c want \<noteq> 0 \<Longrightarrow> sendable (drop (safe_cut c want) c)"
  using drop_cut_valid by (auto simp: sendable_def dest: in_set_dropD)

interpretation flat_strategy: transcript_strategy flat_apply
  by unfold_locales (simp add: flat_apply_def)

interpretation window_strategy: transcript_strategy "window_apply trigger keep"
proof
  fix v :: view
  assume "sendable (v_messages v)"
  then show "sendable (window_apply trigger keep v)"
    by (cases rule: window_apply_cases[of trigger keep v]) (auto intro: sendable_drop_cut)
qed

lemma drop_pairs_sendable:
  assumes "sendable c"
  shows "sendable (drop_pairs c ids)"
proof (cases "ids = {}")
  case True
  with assms show ?thesis by (simp add: drop_pairs_def)
next
  case False
  have "validate c = None" and hd: "msg_content (hd c) \<noteq> []"
    using assms sendable_hd by (auto simp: sendable_def)
  then show ?thesis
    using drop_pairs_keeps_valid[of c ids] foldl_append_nonempty_turns[of "[]"]
    by (auto simp: sendable_def drop_pairs_fold[OF _ _ False])
qed

interpretation drop_tagged_strategy: transcript_strategy "drop_tagged_apply trigger keep tags"
  by unfold_locales (simp add: drop_tagged_apply_def Let_def drop_pairs_sendable)

lemma prepend_turn_sendable:
  "sendable c \<Longrightarrow> sendable (prepend_turn c (user_text s))"
  using prepend_turn_valid[of c "user_text s"]
  by (cases c) (auto simp: sendable_def user_text_def prepend_turn_def validate_def)

interpretation compacted_strategy: transcript_strategy "compacted_apply at_len keep fn"
  by unfold_locales
    (auto simp: compacted_apply_def Let_def split: option.splits
      intro: sendable_drop_cut prepend_turn_sendable)

lemma seq_apply_sendable:
  assumes "\<forall>st\<in>set ss. transcript_strategy st" and "sendable (v_messages v)"
  shows "sendable (seq_apply ss v)"
proof -
  have "sendable msgs \<Longrightarrow> sendable (foldl (\<lambda>msgs st. st (v\<lparr>v_messages := msgs\<rparr>)) msgs ss)" for msgs
    using assms(1)
  proof (induction ss arbitrary: msgs)
    case (Cons st ss)
    then have "transcript_strategy st" by simp
    from transcript_strategy.keeps_sendable[OF this, of "v\<lparr>v_messages := msgs\<rparr>"] Cons
    show ?case by simp
  qed simp
  with assms(2) show ?thesis by (simp add: seq_apply_def)
qed

section \<open>Properties\<close>

text \<open>C17: Every built-in strategy maps a transcript that can be sent to one that can be sent: it
  validates and has no empty turn, whatever the window, trigger, tags or compactor.\<close>

theorem strategies_keep_requests_sendable:
  fixes v :: view
  assumes "sendable (v_messages v)"
  shows "sendable (flat_apply v) \<and> sendable (window_apply trigger keep v) \<and>
    sendable (drop_tagged_apply trigger keep tags v) \<and> sendable (compacted_apply at_len keep fn v) \<and>
    sendable (seq_apply [window_apply trigger keep, drop_tagged_apply trigger keep tags] v)"
proof -
  have "\<forall>st\<in>set [window_apply trigger keep, drop_tagged_apply trigger keep tags]. transcript_strategy st"
    by (simp add: window_strategy.transcript_strategy_axioms
        drop_tagged_strategy.transcript_strategy_axioms)
  from seq_apply_sendable[OF this assms] show ?thesis
    using flat_strategy.keeps_sendable[OF assms] window_strategy.keeps_sendable[OF assms]
      drop_tagged_strategy.keeps_sendable[OF assms] compacted_strategy.keeps_sendable[OF assms]
    by blast
qed

definition short_view :: view where
  "short_view = \<lparr>v_messages = [user_text ''hi'', \<lparr>msg_role = RoleAssistant, msg_content = [Text ''yo'']\<rparr>,
     user_text ''go on''], v_results = Map.empty\<rparr>"

lemma short_view_sendable: "sendable (v_messages short_view)"
  by (simp add: sendable_def validate_run short_view_def user_text_def opens_with_user_def roles_ok_def)

theorem strategies_keep_requests_sendable_witness: "sendable (window_apply 0 2 short_view)"
  using strategies_keep_requests_sendable[OF short_view_sendable] by blast

text \<open>A window keeps at least the number of recent messages asked for (or all of them), and what
  it keeps is a suffix of the transcript.\<close>

theorem window_keeps_recent_suffix:
  fixes v :: view
  assumes "0 \<le> keep"
  shows "min keep (int (length (v_messages v))) \<le> int (length (window_apply trigger keep v)) \<and>
    (\<exists>pre. v_messages v = pre @ window_apply trigger keep v)"
proof
  show "min keep (int (length (v_messages v))) \<le> int (length (window_apply trigger keep v))"
    by (rule window_keeps[OF assms])
  show "\<exists>pre. v_messages v = pre @ window_apply trigger keep v"
  proof (cases rule: window_apply_cases[of trigger keep v])
    case all
    then show ?thesis by simp
  next
    case (cut want)
    then show ?thesis by (metis append_take_drop_id)
  qed
qed

theorem window_keeps_recent_suffix_witness:
  "min 2 (int (length (v_messages short_view))) \<le> int (length (window_apply 0 2 short_view))"
  using window_keeps_recent_suffix[of 2 short_view 0] by simp

text \<open>Between two re-anchorings the triggered window only grows at its end: while the quotient
  (n - keep) / (trigger - keep) does not change, appending messages to the transcript appends the
  same messages to the request, so the prompt prefix the provider has cached stays identical.\<close>

theorem window_prefix_stable:
  assumes "0 < keep" and "keep < trigger" and "trigger \<le> int (length msgs)"
    and "(int (length msgs) - keep) div (trigger - keep) =
         (int (length (msgs @ later)) - keep) div (trigger - keep)"
  shows "sliding_window_at trigger keep \<lparr>v_messages = msgs @ later, v_results = r\<rparr> =
         sliding_window_at trigger keep \<lparr>v_messages = msgs, v_results = r\<rparr> @ later"
  unfolding sliding_window_at_def using assms by (intro window_anchor) auto

theorem window_prefix_stable_witness:
  "sliding_window_at 3 1 \<lparr>v_messages = v_messages short_view @ [user_text ''more''], v_results = Map.empty\<rparr> =
   sliding_window_at 3 1 \<lparr>v_messages = v_messages short_view, v_results = Map.empty\<rparr> @ [user_text ''more'']"
  by (rule window_prefix_stable) (simp_all add: short_view_def)

end
