(* ===== verification/Overflow.thy ===== *)
theory Overflow
  imports Strategy
begin

text \<open>
  Recovery from a rejected context window (\<^verbatim>\<open>overflow.go\<close>): the escalation ladder, the search
  for the next rung that shortens the transcript, and the retry loop of
  \<^verbatim>\<open>WithOverflowRecovery\<close>. The client below is a function of the messages and a world; the
  per-run level is passed in and out. The last component of the result is a ghost: the messages of
  the requests that were sent, oldest first.
\<close>

section \<open>The ladder\<close>

definition default_overflow_escalation :: "strategy list" where
  "default_overflow_escalation = [sliding_window 24, sliding_window 10, sliding_window 4]"

definition ladder :: "strategy list \<Rightarrow> strategy list" where
  "ladder escalation = (if escalation = [] then default_overflow_escalation else escalation)"

definition apply_level :: "strategy list \<Rightarrow> (tool_use_id \<rightharpoonup> result_info) \<Rightarrow> nat \<Rightarrow> convo \<Rightarrow> convo" where
  "apply_level esc res level msgs =
     (if level = 0 \<or> level > length esc then msgs
      else (esc ! (level - 1)) \<lparr>v_messages = msgs, v_results = res\<rparr>)"

definition next_rung :: "strategy list \<Rightarrow> (tool_use_id \<rightharpoonup> result_info) \<Rightarrow> nat \<Rightarrow> convo \<Rightarrow> convo
    \<Rightarrow> (nat \<times> convo) option" where
  "next_rung esc res level current original =
     (case List.find (\<lambda>l. length (apply_level esc res l original) < length current)
             [Suc level..<Suc (length esc)] of
        None \<Rightarrow> None
      | Some l \<Rightarrow> Some (l, apply_level esc res l original))"

definition raise_level :: "nat \<Rightarrow> nat \<Rightarrow> nat" where
  "raise_level n to = (if to > n then to else n)"

type_synonym ('r, 'w) client = "convo \<Rightarrow> 'w \<Rightarrow> (err + 'r) \<times> 'w"

text \<open>
  The body of the retry loop. One call of \<open>recover_loop\<close> is one round of Go's \<^verbatim>\<open>for\<close>: send at
  the current level, return unless the answer is a context-window error, otherwise climb.
\<close>

lemma next_rung_level:
  assumes "next_rung esc res level current original = Some (l, shrunk)"
  shows "level < l \<and> l \<le> length esc \<and> shrunk = apply_level esc res l original \<and>
    length shrunk < length current"
proof -
  let ?ls = "[Suc level..<Suc (length esc)]"
  from assms have find: "List.find (\<lambda>l. length (apply_level esc res l original) < length current) ?ls = Some l"
    and "shrunk = apply_level esc res l original"
    by (auto simp: next_rung_def simp del: upt_Suc split: option.splits)
  from find obtain i where "i < length ?ls" "?ls ! i = l"
    "length (apply_level esc res l original) < length current"
    by (auto simp: find_Some_iff simp del: upt_Suc)
  moreover from this have "l \<in> set ?ls" by (metis nth_mem)
  ultimately show ?thesis using \<open>shrunk = _\<close> by auto
qed

lemma next_rung_None:
  assumes "next_rung esc res level current original = None" and "level < l" and "l \<le> length esc"
  shows "length current \<le> length (apply_level esc res l original)"
proof -
  from assms(1) have none: "\<forall>x\<in>set [Suc level..<Suc (length esc)].
      \<not> length (apply_level esc res x original) < length current"
    by (auto simp: next_rung_def find_None_iff simp del: upt_Suc split: option.splits)
  have "l \<in> set [Suc level..<Suc (length esc)]" using assms(2,3) by auto
  with none have "\<not> length (apply_level esc res l original) < length current" by blast
  then show ?thesis by simp
qed

function recover_loop :: "strategy list \<Rightarrow> (tool_use_id \<rightharpoonup> result_info) \<Rightarrow> ('r, 'w) client \<Rightarrow> convo
    \<Rightarrow> nat \<Rightarrow> 'w \<Rightarrow> (err + 'r) \<times> nat \<times> 'w \<times> convo list" where
  "recover_loop esc res client original level w =
     (let msgs = apply_level esc res level original in
      case client msgs w of
        (Inr r, w') \<Rightarrow> (Inr r, level, w', [msgs])
      | (Inl e, w') \<Rightarrow>
          if \<not> errors_is e ErrContextWindow then (Inl e, level, w', [msgs])
          else case next_rung esc res level msgs original of
            None \<Rightarrow> (Inl e, level, w', [msgs])
          | Some (l, shrunk) \<Rightarrow>
              (case recover_loop esc res client original (raise_level level l) w' of
                 (out, level', w'', sent) \<Rightarrow> (out, level', w'', msgs # sent)))"
  by pat_completeness auto
termination
  by (relation "measure (\<lambda>(esc, res, client, original, level, w). length esc - level)")
    (auto simp: raise_level_def dest!: next_rung_level)

declare recover_loop.simps [simp del]

definition with_overflow_recovery :: "strategy list \<Rightarrow> (tool_use_id \<rightharpoonup> result_info) \<Rightarrow> ('r, 'w) client
    \<Rightarrow> convo \<Rightarrow> nat \<Rightarrow> 'w \<Rightarrow> (err + 'r) \<times> nat \<times> 'w \<times> convo list" where
  "with_overflow_recovery escalation res client original level w =
     recover_loop (ladder escalation) res client original level w"

section \<open>Facts\<close>

text \<open>One round, with the recursive call named.\<close>

lemma recover_loop_cases:
  obtains (stop) out w' where
      "recover_loop esc res client original level w = (out, level, w', [apply_level esc res level original])"
      "client (apply_level esc res level original) w = (out, w')"
      "\<And>e. out = Inl e \<Longrightarrow> errors_is e ErrContextWindow \<Longrightarrow>
        next_rung esc res level (apply_level esc res level original) original = None"
  | (climb) e w1 l out level' w' sent where
      "client (apply_level esc res level original) w = (Inl e, w1)"
      "errors_is e ErrContextWindow" "level < l" "l \<le> length esc"
      "length (apply_level esc res l original) < length (apply_level esc res level original)"
      "recover_loop esc res client original l w1 = (out, level', w', sent)"
      "recover_loop esc res client original level w =
         (out, level', w', apply_level esc res level original # sent)"
proof (cases "client (apply_level esc res level original) w")
  case (Pair r w1)
  show thesis
  proof (cases r)
    case (Inr x)
    with Pair show thesis
      by (intro stop[of r w1]) (simp_all add: recover_loop.simps[of esc res client original level w])
  next
    case (Inl e)
    show thesis
    proof (cases "errors_is e ErrContextWindow \<and>
        next_rung esc res level (apply_level esc res level original) original \<noteq> None")
      case False
      have stuck: "errors_is e ErrContextWindow \<Longrightarrow>
          next_rung esc res level (apply_level esc res level original) original = None"
        using False by blast
      have "recover_loop esc res client original level w =
          (r, level, w1, [apply_level esc res level original])"
      proof (cases "errors_is e ErrContextWindow")
        case True
        from stuck[OF True] True Pair Inl show ?thesis
          by (simp add: recover_loop.simps[of esc res client original level w] Let_def)
      qed (use Pair Inl in \<open>simp add: recover_loop.simps[of esc res client original level w] Let_def\<close>)
      with Pair Inl stuck show thesis by (intro stop[of r w1]) auto
    next
      case True
      then obtain l s where rung:
        "next_rung esc res level (apply_level esc res level original) original = Some (l, s)" by auto
      note l = next_rung_level[OF rung]
      obtain out level' w' sent where
        rec: "recover_loop esc res client original l w1 = (out, level', w', sent)"
        by (metis prod_cases4)
      show thesis
        using Pair Inl True rung l rec
        by (intro climb[of e w1 l out level' w' sent])
          (auto simp: recover_loop.simps[of esc res client original level w] raise_level_def Let_def)
    qed
  qed
qed

lemma recover_loop_sent:
  assumes "recover_loop esc res client original level w = (out, level', w', sent)"
  shows "sent \<noteq> [] \<and> hd sent = apply_level esc res level original \<and>
    sorted_wrt (\<lambda>a b. length b < length a) sent \<and> last sent = apply_level esc res level' original \<and>
    level \<le> level' \<and> level' \<le> max level (length esc) \<and> length sent \<le> Suc (length esc - level) \<and>
    (\<forall>m\<in>set sent. \<exists>l. m = apply_level esc res l original)"
  using assms
proof (induction "length esc - level" arbitrary: level w out level' w' sent rule: less_induct)
  case less
  show ?case
  proof (cases rule: recover_loop_cases[of esc res client original level w])
    case (stop out1 w1)
    with less.prems show ?thesis by auto
  next
    case (climb e w1 l out1 level1 w2 sent1)
    then have "length esc - l < length esc - level" by simp
    from less.hyps[OF this climb(6)] have ih: "sent1 \<noteq> []" "hd sent1 = apply_level esc res l original"
      "sorted_wrt (\<lambda>a b. length b < length a) sent1" "last sent1 = apply_level esc res level1 original"
      "l \<le> level1" "level1 \<le> max l (length esc)" "length sent1 \<le> Suc (length esc - l)"
      "\<forall>m\<in>set sent1. \<exists>l. m = apply_level esc res l original" by auto
    have "\<forall>b\<in>set sent1. length b < length (apply_level esc res level original)"
    proof
      fix b assume "b \<in> set sent1"
      with ih(1-3) have "length b \<le> length (hd sent1)" by (cases sent1) (auto intro: less_imp_le)
      with ih(2) climb(5) show "length b < length (apply_level esc res level original)" by simp
    qed
    with ih climb less.prems show ?thesis by auto
  qed
qed

lemma recover_loop_exhausted:
  assumes "recover_loop esc res client original level w = (Inl e, level', w', sent)"
    and "errors_is e ErrContextWindow" and "level' < l" and "l \<le> length esc"
  shows "length (last sent) \<le> length (apply_level esc res l original)"
  using assms
proof (induction "length esc - level" arbitrary: level w level' w' sent rule: less_induct)
  case less
  show ?case
  proof (cases rule: recover_loop_cases[of esc res client original level w])
    case (stop out1 w1)
    with less.prems have "next_rung esc res level (apply_level esc res level original) original = None"
      "level = level'" "sent = [apply_level esc res level original]" by auto
    with next_rung_None less.prems(3,4) show ?thesis by auto
  next
    case (climb e1 w1 l1 out1 level1 w2 sent1)
    then have "length esc - l1 < length esc - level" by simp
    from less.hyps[OF this] climb less.prems
    have "length (last sent1) \<le> length (apply_level esc res l original)" by auto
    with climb less.prems recover_loop_sent[OF climb(6)] show ?thesis by auto
  qed
qed

text \<open>Any other failure, and every success, comes back as the client gave it.\<close>

lemma recover_loop_result:
  assumes "recover_loop esc res client original level w = (out, level', w', sent)"
  shows "\<exists>w1. client (last sent) w1 = (out, w')"
  using assms
proof (induction "length esc - level" arbitrary: level w out level' w' sent rule: less_induct)
  case less
  show ?case
  proof (cases rule: recover_loop_cases[of esc res client original level w])
    case (stop out1 w1)
    with less.prems show ?thesis by auto
  next
    case (climb e1 w1 l1 out1 level1 w2 sent1)
    then have "length esc - l1 < length esc - level" by simp
    from less.hyps[OF this climb(6)] climb less.prems recover_loop_sent[OF climb(6)]
    show ?thesis by auto
  qed
qed

lemma apply_level_sendable:
  assumes "\<forall>st\<in>set esc. transcript_strategy st" and "sendable original"
  shows "sendable (apply_level esc res l original)"
proof (cases "l = 0 \<or> l > length esc")
  case False
  then have "transcript_strategy (esc ! (l - 1))" using assms(1) by auto
  from transcript_strategy.keeps_sendable[OF this, of "\<lparr>v_messages = original, v_results = res\<rparr>"]
    assms(2) False show ?thesis by (simp add: apply_level_def)
qed (use assms(2) in \<open>auto simp: apply_level_def\<close>)

lemma default_ladder_ok: "\<forall>st\<in>set default_overflow_escalation. transcript_strategy st"
  by (auto simp: default_overflow_escalation_def sliding_window_def
      intro: window_strategy.transcript_strategy_axioms)

section \<open>Properties\<close>

text \<open>C22: The requests sent while recovering from overflow get strictly shorter, there is at most one
  per remaining rung plus one, the level never goes down, and each request is the original
  transcript at some level of the ladder (never a cut of a cut).\<close>

theorem recovery_shrinks_requests:
  assumes "with_overflow_recovery esc res client original level w = (out, level', w', sent)"
  shows "sent \<noteq> [] \<and> sorted_wrt (\<lambda>a b. length b < length a) sent \<and>
    length sent \<le> Suc (length (ladder esc) - level) \<and> level \<le> level' \<and>
    (\<forall>m\<in>set sent. \<exists>l. m = apply_level (ladder esc) res l original) \<and>
    (\<exists>w1. client (last sent) w1 = (out, w'))"
  using recover_loop_sent[of "ladder esc" res client original level w]
    recover_loop_result[of "ladder esc" res client original level w]
    assms unfolding with_overflow_recovery_def by blast

definition full_client :: "(nat, unit) client" where
  "full_client msgs w = (Inl (ApiErr ErrContextWindow 400 [] 0 None), w)"

lemma full_client_run:
  "with_overflow_recovery [flat_apply] Map.empty full_client (v_messages short_view) 0 () =
     (Inl (ApiErr ErrContextWindow 400 [] 0 None), 0, (), [v_messages short_view])"
proof -
  have "next_rung [flat_apply] Map.empty 0 (v_messages short_view) (v_messages short_view) = None"
    by (simp add: next_rung_def apply_level_def flat_apply_def)
  then show ?thesis
    by (simp add: with_overflow_recovery_def recover_loop.simps full_client_def ladder_def
        apply_level_def Let_def)
qed

theorem recovery_shrinks_requests_witness:
  "length [v_messages short_view] \<le> Suc (length (ladder [flat_apply]) - 0)"
  using recovery_shrinks_requests[OF full_client_run] by blast

text \<open>A context-window error only comes back when the ladder is exhausted: no higher level would
  have made the transcript shorter than the last request sent.\<close>

theorem recovery_exhausts_ladder:
  assumes "with_overflow_recovery esc res client original level w = (Inl e, level', w', sent)"
    and "errors_is e ErrContextWindow" and "level' < l" and "l \<le> length (ladder esc)"
  shows "length (last sent) \<le> length (apply_level (ladder esc) res l original)"
  using recover_loop_exhausted[of "ladder esc" res client original level w e level' w' sent l] assms
  unfolding with_overflow_recovery_def by blast

theorem recovery_exhausts_ladder_witness:
  "length (last [v_messages short_view])
     \<le> length (apply_level (ladder [flat_apply]) Map.empty 1 (v_messages short_view))"
  by (rule recovery_exhausts_ladder[OF full_client_run]) (simp_all add: ladder_def)

text \<open>With the default ladder every request sent for a sendable transcript is sendable.\<close>

theorem recovery_requests_sendable:
  assumes "with_overflow_recovery [] res client original level w = (out, level', w', sent)"
    and "sendable original" and "m \<in> set sent"
  shows "sendable m"
proof -
  have "\<exists>l. m = apply_level (ladder []) res l original"
    using recover_loop_sent[of "ladder []" res client original level w out level' w' sent] assms(1,3)
    unfolding with_overflow_recovery_def by blast
  then show ?thesis
    using apply_level_sendable[OF default_ladder_ok assms(2)] by (auto simp: ladder_def)
qed

definition empty_client :: "(nat, unit) client" where
  "empty_client msgs w = (Inr 0, w)"

theorem recovery_requests_sendable_witness: "sendable (v_messages short_view)"
  by (rule recovery_requests_sendable[of Map.empty empty_client "v_messages short_view" 0 "()" "Inr 0" 0
        "()" "[v_messages short_view]"])
    (simp_all add: with_overflow_recovery_def recover_loop.simps empty_client_def apply_level_def
      short_view_sendable)

end
