(* ===== verification/AgentLoop.thy ===== *)
theory AgentLoop
  imports Overflow ToolChain
begin

text \<open>
  The agent loop (\<^verbatim>\<open>run.go\<close>) and its outcomes (\<^verbatim>\<open>outcome.go\<close>). The interfaces an agent is
  built from (client, tool set, strategy, dispatcher, notice) are the function fields of the record
  \<open>agent\<close>; the world is the run budget, whose cause is the cause of the run's context, and a rest
  \<open>'w\<close>. A client also reports the text and the number of reasoning bytes it streamed. Events, trace
  spans and metrics are not modelled, nor is the recovery from a panic inside the loop.
\<close>

section \<open>Outcomes\<close>

record pause_schema =
  ps_question :: string
  ps_schema :: string

datatype outcome =
    Answer string
  | Paused tool_use_id pause_schema
  | Submitted string string

definition pause_summary :: "pause_schema \<Rightarrow> string" where
  "pause_summary p =
     (if ps_question p \<noteq> [] \<and> ps_schema p \<noteq> [] then ps_question p @ '' (structured)''
      else if ps_question p \<noteq> [] then ps_question p
      else if ps_schema p \<noteq> [] then ''structured input'' else ''input'')"

text \<open>The first of the loose keys that holds a string (or null, the empty string).\<close>

fun loose_question :: "(string \<times> json) list \<Rightarrow> string list \<Rightarrow> string" where
  "loose_question kvs [] = []"
| "loose_question kvs (k # ks) = (case json_key k kvs of
     Some (JStr s) \<Rightarrow> s
   | Some JNull \<Rightarrow> []
   | _ \<Rightarrow> loose_question kvs ks)"

definition parse_pause_schema :: "string \<Rightarrow> pause_schema" where
  "parse_pause_schema inp =
     (if inp = [] then \<lparr>ps_question = [], ps_schema = []\<rparr>
      else case json_parse inp of
        Some (JObj kvs) \<Rightarrow>
          (let sch = field_raw ''schema'' kvs in
           case field_str ''question'' kvs of
             Some q \<Rightarrow>
               if q \<noteq> [] \<or> sch \<noteq> [] then \<lparr>ps_question = q, ps_schema = sch\<rparr>
               else (let l = loose_question kvs [''question'', ''prompt'', ''message''] in
                 \<lparr>ps_question = (if l = [] then inp else l), ps_schema = sch\<rparr>)
           | None \<Rightarrow> (let l = loose_question kvs [''question'', ''prompt'', ''message''] in
                 \<lparr>ps_question = (if l = [] then inp else l), ps_schema = sch\<rparr>))
      | _ \<Rightarrow> \<lparr>ps_question = inp, ps_schema = []\<rparr>)"

definition expect_answer :: "outcome \<Rightarrow> string \<Rightarrow> string + string" where
  "expect_answer out who = (case out of
     Answer t \<Rightarrow> Inr t
   | Submitted t _ \<Rightarrow> Inl (who @ '': expected a text answer but the model called terminal tool '' @ t)
   | Paused _ s \<Rightarrow> Inl (who @ '': expected a text answer but the model asked the user '' @ pause_summary s))"

definition expect_submitted :: "outcome \<Rightarrow> string \<Rightarrow> string + string" where
  "expect_submitted out name = (case out of
     Submitted t p \<Rightarrow> if t \<noteq> name then Inl (''expected terminal tool '' @ name @ '', got '' @ t) else Inr p
   | Answer _ \<Rightarrow> Inl (''expected terminal tool '' @ name @ '' but the model answered in text'')
   | Paused _ s \<Rightarrow> Inl (''expected terminal tool '' @ name @ '' but the model asked the user '' @ pause_summary s))"

definition outcome_label :: "outcome option \<Rightarrow> err option \<Rightarrow> string" where
  "outcome_label oc e = (case e of Some _ \<Rightarrow> ''failed''
     | None \<Rightarrow> (case oc of None \<Rightarrow> ''none'' | Some (Answer _) \<Rightarrow> ''answered''
        | Some (Paused _ _) \<Rightarrow> ''paused'' | Some (Submitted _ _) \<Rightarrow> ''submitted''))"

text \<open>\<^verbatim>\<open>EmptyTurnError.budgetExhausted\<close>.\<close>

definition reasoning_exhausted :: "int \<Rightarrow> int \<Rightarrow> bool" where
  "reasoning_exhausted max_tokens bytes = (max_tokens > 0 \<and> bytes \<ge> 2 * max_tokens)"

section \<open>Inputs of a run\<close>

definition ask_input :: "string \<Rightarrow> convo" where
  "ask_input q = [user_text q]"

definition pending_pause :: "convo \<Rightarrow> tool_set \<Rightarrow> tool_use_id option" where
  "pending_pause prior s =
     (if prior = [] \<or> dangling prior = [] then None
      else if msg_role (last prior) \<noteq> RoleAssistant then None
      else map_option tu_id (find_pause s (tool_uses (msg_content (last prior)))))"

definition resume :: "convo \<Rightarrow> string \<Rightarrow> tool_set \<Rightarrow> convo" where
  "resume prior instruction s =
     (if instruction = [] then prior
      else case pending_pause prior s of
        Some i \<Rightarrow> answer_pause prior i instruction
      | None \<Rightarrow> then_instruction prior instruction)"

section \<open>The agent\<close>

record 'w agent =
  ag_system :: string
  ag_model :: string
  ag_max_iters :: int
  ag_max_tokens :: int
  ag_terminal :: string
  ag_force_last :: int
  ag_strategy :: strategy
  ag_visible :: "'w \<Rightarrow> tool_def list"
  ag_find :: "string \<Rightarrow> tool_def option"
  ag_reconcile :: "(tool_use_id set \<Rightarrow> 'w \<Rightarrow> 'w) option"
  ag_notice :: "(int \<Rightarrow> budget \<times> 'w \<Rightarrow> string) option"
  ag_client :: "request \<Rightarrow> budget \<times> 'w \<Rightarrow> ((err + response) \<times> string \<times> nat) \<times> budget \<times> 'w"
  ag_dispatch :: "tool_use list \<Rightarrow> budget \<times> 'w \<Rightarrow> call_result list \<times> budget \<times> 'w"
  ag_show :: "err \<Rightarrow> string"

record run_state =
  run_convo :: convo
  run_outcome :: "outcome option"
  run_err :: "err option"
  run_results :: "tool_use_id \<rightharpoonup> result_info"
  run_empty :: int

definition agent_set :: "'w agent \<Rightarrow> tool_set" where
  "agent_set ag = \<lparr>set_visible = [], set_find = ag_find ag\<rparr>"

definition tool_choice_at :: "'w agent \<Rightarrow> int \<Rightarrow> tool_choice \<times> string" where
  "tool_choice_at ag iter =
     (if ag_terminal ag = [] \<or> ag_force_last ag \<le> 0 then (auto_choice, [])
      else if iter \<ge> max (ag_max_iters ag - ag_force_last ag) 1
        then (force_tool (ag_terminal ag), ag_terminal ag)
      else (auto_choice, []))"

definition with_notice :: "convo \<Rightarrow> string \<Rightarrow> convo" where
  "with_notice msgs note =
     (if msgs = [] \<or> msg_role (last msgs) \<noteq> RoleUser then msgs
      else butlast msgs @ [(last msgs)\<lparr>msg_content := msg_content (last msgs) @ [Text note]\<rparr>])"

definition observations_in :: "convo \<Rightarrow> tool_use_id set" where
  "observations_in msgs = set (concat (map results_of msgs))"

definition max_empty_turns :: int where "max_empty_turns = 2"

definition empty_turn :: "response \<Rightarrow> bool" where
  "empty_turn resp =
     (rs_stop resp \<in> {StopEndTurn, StopStopSequence} \<and>
      trim_space (text_of (rs_content resp)) = [] \<and> tool_uses (rs_content resp) = [])"

definition cause_or :: "budget \<Rightarrow> err \<Rightarrow> err" where
  "cause_or b e = (case b_cause b of
     Some c \<Rightarrow> if \<not> errors_is c ErrCanceled then c else e
   | None \<Rightarrow> e)"

definition finish :: "outcome option \<Rightarrow> err option \<Rightarrow> run_state \<Rightarrow> run_state" where
  "finish oc e st = st\<lparr>run_outcome := oc, run_err := e\<rparr>"

definition info_of :: "call_result \<Rightarrow> result_info" where
  "info_of r = \<lparr>ri_tool = cr_name r, ri_tags = cr_tags r, ri_bytes = int (length (cr_output r))\<rparr>"

definition note_results :: "call_result list \<Rightarrow> run_state \<Rightarrow> run_state" where
  "note_results rs st =
     st\<lparr>run_results := foldl (\<lambda>m r. m(cr_use_id r \<mapsto> info_of r)) (run_results st) rs\<rparr>"

section \<open>One iteration\<close>

definition iter_messages :: "'w agent \<Rightarrow> int \<Rightarrow> run_state \<Rightarrow> budget \<times> 'w \<Rightarrow> convo \<times> 'w" where
  "iter_messages ag iter st bw =
     (let msgs = ag_strategy ag \<lparr>v_messages = run_convo st, v_results = run_results st\<rparr>;
          w = (case ag_reconcile ag of None \<Rightarrow> snd bw | Some rec \<Rightarrow> rec (observations_in msgs) (snd bw));
          note = (case ag_notice ag of None \<Rightarrow> [] | Some f \<Rightarrow> f iter (fst bw, w))
      in (if note = [] then msgs else with_notice msgs note, w))"

definition iter_request :: "'w agent \<Rightarrow> int \<Rightarrow> convo \<Rightarrow> 'w \<Rightarrow> request" where
  "iter_request ag iter msgs w =
     \<lparr>rq_system = ag_system ag, rq_messages = msgs, rq_tools = specs_of (ag_visible ag w),
      rq_choice = fst (tool_choice_at ag iter), rq_model = ag_model ag, rq_max_tokens = ag_max_tokens ag,
      rq_temperature = None, rq_top_p = None\<rparr>"

definition partial_text :: "string \<Rightarrow> string" where
  "partial_text s = trim_right_by (\<lambda>c. c \<in> set ('' '' @ [CHR 0x09, CHR 0x0D, CHR 0x0A])) s"

text \<open>The second component of the result says whether the run is over.\<close>

definition act_on_uses :: "'w agent \<Rightarrow> tool_use list \<Rightarrow> run_state \<Rightarrow> budget \<times> 'w
    \<Rightarrow> run_state \<times> bool \<times> budget \<times> 'w" where
  "act_on_uses ag uses st bw =
     (case find_terminal (agent_set ag) uses of
        Some u \<Rightarrow> (finish (Some (Submitted (tu_name u) (tu_input u))) None st, True, bw)
      | None \<Rightarrow>
          (case find_pause (agent_set ag) uses of
             Some u \<Rightarrow> (finish (Some (Paused (tu_id u) (parse_pause_schema (tu_input u)))) None st, True, bw)
           | None \<Rightarrow>
               (case ag_dispatch ag uses bw of (rs, bw') \<Rightarrow>
                 (let st = note_results rs st in
                  (st\<lparr>run_convo := push_tool_results (run_convo st) (result_blocks (ag_show ag) rs)\<rparr>,
                   False, bw')))))"

definition act_on_reply :: "'w agent \<Rightarrow> response \<Rightarrow> run_state \<Rightarrow> budget \<times> 'w
    \<Rightarrow> run_state \<times> bool \<times> budget \<times> 'w" where
  "act_on_reply ag resp st bw =
     (if rs_stop resp \<in> {StopEndTurn, StopStopSequence}
        then (finish (Some (Answer (text_of (rs_content resp)))) None st, True, bw)
      else if rs_stop resp = StopMaxTokens then (finish None (Some ErrMaxTokens) st, True, bw)
      else if rs_stop resp = StopRefusal
        then (finish None (Some (RefusalErr (text_of (rs_content resp)))) st, True, bw)
      else if rs_stop resp = StopToolUse then
        (let uses = tool_uses (rs_content resp) in
         if uses = [] then (finish None (Some (Sentinel
              ''wombat: provider reported stop_reason=tool_use with no tool_use block'')) st, True, bw)
         else act_on_uses ag uses st bw)
      else (finish None (Some (UnexpectedStopErr (rs_stop resp))) st, True, bw))"

definition iterate :: "'w agent \<Rightarrow> int \<Rightarrow> run_state \<Rightarrow> budget \<times> 'w
    \<Rightarrow> run_state \<times> bool \<times> budget \<times> 'w" where
  "iterate ag iter st bw =
     (case iter_messages ag iter st bw of (msgs, w) \<Rightarrow>
      (case ag_client ag (iter_request ag iter msgs w) (fst bw, w) of
         ((Inl e, seen, _), bw') \<Rightarrow>
           (let partial = partial_text seen;
                st = (if partial = [] then st
                      else st\<lparr>run_convo := push_assistant (run_convo st) [Text partial]\<rparr>)
            in (finish None (Some (cause_or (fst bw') e)) st, True, bw'))
       | ((Inr resp, _, reasoned), bw') \<Rightarrow>
           if empty_turn resp then
             (let n = run_empty st + 1; st = st\<lparr>run_empty := n\<rparr> in
              if reasoning_exhausted (ag_max_tokens ag) (int reasoned) \<or> n > max_empty_turns
              then (finish None (Some (EmptyTurnErr n (rs_stop resp) (int reasoned) (ag_max_tokens ag))) st,
                    True, bw')
              else (st, False, bw'))
           else
             (let st = st\<lparr>run_empty := 0, run_convo := push_assistant (run_convo st) (rs_content resp)\<rparr>
              in act_on_reply ag resp st bw')))"

section \<open>The loop\<close>

function run_iters :: "'w agent \<Rightarrow> int \<Rightarrow> run_state \<Rightarrow> budget \<times> 'w \<Rightarrow> run_state \<times> budget \<times> 'w" where
  "run_iters ag iter st bw =
     (if b_cause (fst bw) \<noteq> None then (finish None (Some (cause_or (fst bw) ErrCanceled)) st, bw)
      else if iter > ag_max_iters ag
        then (finish None (Some (Wrapf (''limit'') [ErrMaxIterations])) st, bw)
      else
        (let b = budget_step (fst bw) in
         if b_cause b \<noteq> None then (finish None (Some (cause_or b ErrCanceled)) st, b, snd bw)
         else case iterate ag iter st (b, snd bw) of (st', stop, bw') \<Rightarrow>
           if stop then (st', bw') else run_iters ag (iter + 1) st' bw'))"
  by pat_completeness auto
termination by (relation "measure (\<lambda>(ag, iter, st, bw). nat (ag_max_iters ag + 1 - iter))") auto

declare run_iters.simps [simp del]

definition start_run :: "convo \<Rightarrow> run_state" where
  "start_run c = \<lparr>run_convo = c, run_outcome = None, run_err = None, run_results = Map.empty, run_empty = 0\<rparr>"

definition run_agent :: "'w agent \<Rightarrow> convo \<Rightarrow> budget \<times> 'w \<Rightarrow> run_state \<times> budget \<times> 'w" where
  "run_agent ag c bw =
     (case validate c of
        Some e \<Rightarrow> (finish None (Some (Sentinel ''wombat: invalid input transcript'')) (start_run c), bw)
      | None \<Rightarrow> run_iters ag 1 (start_run c) bw)"

section \<open>Transcripts of a run\<close>

definition convo_ids :: "convo \<Rightarrow> tool_use_id set" where
  "convo_ids c = (\<Union>m\<in>set c. set (uses_of m))"

definition filled :: "convo \<Rightarrow> bool" where
  "filled c \<longleftrightarrow> (\<forall>m\<in>set c. msg_content m \<noteq> [])"

lemma sendable_iff: "sendable c \<longleftrightarrow> validate c = None \<and> filled c"
  by (simp add: sendable_def filled_def)

lemma append_msg_filled: "filled c \<Longrightarrow> filled (append_msg c m)"
  by (cases c rule: rev_cases) (auto simp: filled_def append_msg_def)

lemma append_msg_ids: "convo_ids (append_msg c m) = convo_ids c \<union> set (uses_of m)"
  by (cases c rule: rev_cases) (auto simp: convo_ids_def append_msg_def)

lemma valid_run:
  assumes "validate c = None"
  obtains p where "run_turns start_state c = Some (p, convo_ids c, {})" "c \<noteq> []" "opens_with_user c"
proof -
  from assms obtain p s where run: "run_turns start_state c = Some (p, s, {})" "opens_with_user c"
    by (auto simp: validate_run)
  moreover have "s = convo_ids c" using run_turns_seen[OF run(1)] by (simp add: convo_ids_def)
  ultimately show thesis using that by (auto simp: opens_with_user_def)
qed

text \<open>What a provider must do for the loop: fresh, distinct ids and no results of its own.\<close>

definition reply_fits :: "tool_use_id set \<Rightarrow> block list \<Rightarrow> bool" where
  "reply_fits used bs \<longleftrightarrow> result_ids bs = [] \<and> distinct (use_ids bs) \<and> set (use_ids bs) \<inter> used = {}"

lemma push_reply:
  assumes "validate c = None" and "reply_fits (convo_ids c) bs"
  shows "resumable (push_assistant c bs) \<and> dangling (push_assistant c bs) = use_ids bs \<and>
    (use_ids bs \<noteq> [] \<or> validate (push_assistant c bs) = None)"
proof (cases "bs = []")
  case True
  then have "push_assistant c bs = c" by (simp add: push_assistant_def append_msg_def)
  with assms(1) True show ?thesis by (simp add: validate_resumable validate_dangling)
next
  case False
  let ?m = "\<lparr>msg_role = RoleAssistant, msg_content = bs\<rparr> :: message"
  from valid_run[OF assms(1)] obtain p where run: "run_turns start_state c = Some (p, convo_ids c, {})"
    and c: "c \<noteq> []" and opens: "opens_with_user c" .
  have fits: "result_ids bs = []" "distinct (use_ids bs)" "set (use_ids bs) \<inter> convo_ids c = {}"
    using assms(2) by (auto simp: reply_fits_def)
  have run': "run_turns start_state (append_msg c ?m) =
      Some (Some RoleAssistant, convo_ids c \<union> set (use_ids bs), set (use_ids bs))"
    using append_msg_same_role[OF run c, of ?m] append_msg_other_role[OF run c, of ?m] fits False
    by (cases "msg_role (last c) = RoleAssistant") (auto simp: roles_ok_def)
  have c': "append_msg c ?m \<noteq> []" using False by (simp add: append_msg_def)
  have "uses_of (last c) = []"
    using run_turns_last[OF run c] by simp
  then have "uses_of (last (append_msg c ?m)) = use_ids bs"
    using False by (auto simp: append_msg_def)
  with dangling_last[OF run' c'] run' append_msg_opens[OF opens, of ?m] show ?thesis
    by (auto simp: push_assistant_def resumable_def validate_run)
qed

lemma push_partial:
  assumes "validate c = None"
  shows "validate (push_assistant c [Text t]) = None"
  using push_reply[OF assms, of "[Text t]"] by (simp add: reply_fits_def)

lemma push_observations:
  assumes "validate c = None" and "reply_fits (convo_ids c) bs" and "use_ids bs \<noteq> []"
    and "map cr_use_id rs = use_ids bs"
  shows "validate (push_tool_results (push_assistant c bs) (result_blocks shw rs)) = None"
proof -
  note pr = push_reply[OF assms(1,2)]
  have "rs \<noteq> []" using assms(3,4) by auto
  then have "result_blocks shw rs \<noteq> []" by (simp add: result_blocks_def)
  then show ?thesis
    unfolding push_tool_results_def using pr assms(4) by (intro resumable_answered) auto
qed

lemma with_notice_sendable: "sendable c \<Longrightarrow> sendable (with_notice c t)"
proof -
  assume s: "sendable c"
  show ?thesis
  proof (cases "c = [] \<or> msg_role (last c) \<noteq> RoleUser")
    case True
    with s show ?thesis by (auto simp: with_notice_def)
  next
    case False
    then have "with_notice c t = append_msg c (user_text t)"
      by (auto simp: with_notice_def append_msg_def user_text_def)
    moreover have "validate (append_msg c (user_text t)) = None"
      using resumable_answered[of c "[Text t]"] s
      by (simp add: sendable_iff user_text_def validate_resumable validate_dangling)
    ultimately show ?thesis using s append_msg_filled by (simp add: sendable_iff)
  qed
qed

section \<open>The contract of an agent's parts\<close>

text \<open>
  \<open>issued\<close> is the set of call ids handed out so far in a world. A client's replies fit, the
  dispatcher answers every call in order, the strategy keeps requests sendable, and nothing takes an
  issued id back.
\<close>

locale agent_parts =
  fixes ag :: "'w agent" and issued :: "'w \<Rightarrow> tool_use_id set"
  assumes client_reply: "ag_client ag req (b, w) = ((Inr resp, s, n), b', w') \<Longrightarrow>
      reply_fits (issued w) (rs_content resp) \<and> issued w \<union> set (use_ids (rs_content resp)) \<subseteq> issued w'"
    and client_failure: "ag_client ag req (b, w) = ((Inl e, s, n), b', w') \<Longrightarrow> issued w \<subseteq> issued w'"
    and dispatch_answers: "ag_dispatch ag uses (b, w) = (rs, b', w') \<Longrightarrow>
      map cr_use_id rs = map tu_id uses \<and> issued w \<subseteq> issued w'"
    and reconcile_keeps: "ag_reconcile ag = Some rec \<Longrightarrow> issued w \<subseteq> issued (rec present w)"
    and strategy_ok: "transcript_strategy (ag_strategy ag)"
begin

definition ready :: "run_state \<Rightarrow> 'w \<Rightarrow> bool" where
  "ready st w \<longleftrightarrow> sendable (run_convo st) \<and> convo_ids (run_convo st) \<subseteq> issued w"

text \<open>What a run leaves behind: a transcript to resume from, with the call it paused on still open.\<close>

definition left_off :: "run_state \<Rightarrow> 'w \<Rightarrow> bool" where
  "left_off st w \<longleftrightarrow> resumable (run_convo st) \<and> filled (run_convo st) \<and> convo_ids (run_convo st) \<subseteq> issued w \<and>
     (\<forall>i sch. run_outcome st = Some (Paused i sch) \<longrightarrow> i \<in> set (dangling (run_convo st)))"

lemma ready_left_off: "ready st w \<Longrightarrow> left_off (finish None e st) w"
  by (auto simp: ready_def left_off_def finish_def sendable_iff validate_resumable)

lemma iter_messages_ok:
  assumes "ready st w" and "iter_messages ag iter st (b, w) = (msgs, w1)"
  shows "sendable msgs \<and> ready st w1"
proof -
  let ?v = "\<lparr>v_messages = run_convo st, v_results = run_results st\<rparr> :: view"
  have s: "sendable (ag_strategy ag ?v)"
    using transcript_strategy.keeps_sendable[OF strategy_ok, of ?v] assms(1) by (simp add: ready_def)
  have "issued w \<subseteq> issued w1"
    using assms(2) reconcile_keeps by (cases "ag_reconcile ag") (auto simp: iter_messages_def Let_def)
  moreover have "sendable msgs"
    using assms(2) s with_notice_sendable[OF s] by (auto simp: iter_messages_def Let_def)
  ultimately show ?thesis using assms(1) by (auto simp: ready_def)
qed

lemma push_reply_ready:
  assumes "ready st w" and "reply_fits (issued w) bs" and "issued w \<union> set (use_ids bs) \<subseteq> issued w'"
    and "map cr_use_id rs = use_ids bs" and "use_ids bs \<noteq> []"
    and "run_convo st' = push_tool_results (push_assistant (run_convo st) bs) (result_blocks shw rs)"
    and "issued w' \<subseteq> issued w''"
  shows "ready st' w''"
proof -
  have fits: "reply_fits (convo_ids (run_convo st)) bs"
    using assms(1,2) by (auto simp: ready_def reply_fits_def)
  have valid: "validate (run_convo st) = None" and fill: "filled (run_convo st)"
    using assms(1) by (auto simp: ready_def sendable_iff)
  have "validate (run_convo st') = None"
    unfolding assms(6) by (rule push_observations[OF valid fits assms(5,4)])
  moreover have "filled (run_convo st')"
    unfolding assms(6) push_tool_results_def push_assistant_def
    by (intro append_msg_filled fill)
  moreover have "convo_ids (run_convo st') = convo_ids (run_convo st) \<union> set (use_ids bs)"
    unfolding assms(6) push_tool_results_def push_assistant_def by (simp add: append_msg_ids)
  ultimately show ?thesis using assms(1,3,7) by (auto simp: ready_def sendable_iff)
qed

lemma act_on_reply_ok:
  assumes "ready st0 w" and "reply_fits (issued w) (rs_content resp)"
    and "issued w \<union> set (use_ids (rs_content resp)) \<subseteq> issued w'"
    and "run_convo st = push_assistant (run_convo st0) (rs_content resp)"
    and "act_on_reply ag resp st (b', w') = (st', stop, b'', w'')"
  shows "if stop then left_off st' w'' else ready st' w''"
proof -
  have fits: "reply_fits (convo_ids (run_convo st0)) (rs_content resp)"
    using assms(1,2) by (auto simp: ready_def reply_fits_def)
  have "validate (run_convo st0) = None" using assms(1) by (simp add: ready_def sendable_iff)
  from push_reply[OF this fits] have res: "resumable (run_convo st)"
    and open_calls: "dangling (run_convo st) = use_ids (rs_content resp)" by (simp_all add: assms(4))
  have rest: "filled (run_convo st)" "convo_ids (run_convo st) \<subseteq> issued w'"
    using assms(1,3) unfolding assms(4) push_assistant_def
    by (auto simp: ready_def sendable_iff append_msg_ids intro: append_msg_filled)
  show ?thesis
  proof (cases stop)
    case True
    with assms(5) have st': "run_convo st' = run_convo st" "w'' = w'"
      and pause: "\<And>i sch. run_outcome st' = Some (Paused i sch) \<Longrightarrow>
        \<exists>u. find_pause (agent_set ag) (tool_uses (rs_content resp)) = Some u \<and> tu_id u = i"
      by (auto simp: act_on_reply_def act_on_uses_def finish_def Let_def split: if_splits option.splits prod.splits)
    have "i \<in> set (dangling (run_convo st'))" if "run_outcome st' = Some (Paused i sch)" for i sch
      using pause[OF that] find_cap_in open_calls st'(1) by (fastforce simp: find_pause_def use_ids_def)
    with True res rest st' show ?thesis by (simp add: left_off_def)
  next
    case False
    with assms(5) have uses: "tool_uses (rs_content resp) \<noteq> []"
      and act: "act_on_uses ag (tool_uses (rs_content resp)) st (b', w') = (st', False, b'', w'')"
      by (auto simp: act_on_reply_def Let_def split: if_splits)
    from act obtain rs where disp: "ag_dispatch ag (tool_uses (rs_content resp)) (b', w') = (rs, b'', w'')"
      and st': "run_convo st' = push_tool_results (run_convo st) (result_blocks (ag_show ag) rs)"
      by (auto simp: act_on_uses_def note_results_def Let_def split: option.splits prod.splits)
    from dispatch_answers[OF disp] have ids: "map cr_use_id rs = use_ids (rs_content resp)"
      and mono: "issued w' \<subseteq> issued w''" by (auto simp: use_ids_def)
    have "use_ids (rs_content resp) \<noteq> []" using uses by (simp add: use_ids_def)
    from push_reply_ready[OF assms(1-3) ids this _ mono] st' assms(4) False
    show ?thesis by simp
  qed
qed

lemma iterate_ok:
  assumes "ready st w" and "iterate ag iter st (b, w) = (st', stop, b', w')"
  shows "if stop then left_off st' w' else ready st' w'"
proof -
  obtain msgs w1 where im: "iter_messages ag iter st (b, w) = (msgs, w1)"
    by (cases "iter_messages ag iter st (b, w)")
  from iter_messages_ok[OF assms(1) im] have r1: "ready st w1" by simp
  obtain r seen n b2 w2 where cl: "ag_client ag (iter_request ag iter msgs w1) (b, w1) = ((r, seen, n), b2, w2)"
    by (metis prod.exhaust)
  show ?thesis
  proof (cases r)
    case (Inl e)
    have "ready st w2" "ready (st\<lparr>run_convo := push_assistant (run_convo st) [Text (partial_text seen)]\<rparr>) w2"
      using r1 client_failure[OF cl[unfolded Inl]] push_partial
      by (auto simp: ready_def sendable_iff push_assistant_def append_msg_ids intro: append_msg_filled)
    with assms(2) im cl Inl show ?thesis
      by (auto simp: iterate_def Let_def ready_left_off split: if_splits)
  next
    case (Inr resp)
    from client_reply[OF cl[unfolded Inr]] have fits: "reply_fits (issued w1) (rs_content resp)"
      and mono: "issued w1 \<union> set (use_ids (rs_content resp)) \<subseteq> issued w2" by auto
    show ?thesis
    proof (cases "empty_turn resp")
      case True
      have "ready (st\<lparr>run_empty := k\<rparr>) w2" for k
        using r1 mono by (auto simp: ready_def)
      with assms(2) im cl Inr True show ?thesis
        by (auto simp: iterate_def Let_def ready_left_off split: if_splits)
    next
      case False
      let ?st = "st\<lparr>run_empty := 0, run_convo := push_assistant (run_convo st) (rs_content resp)\<rparr>"
      have "act_on_reply ag resp ?st (b2, w2) = (st', stop, b', w')"
        using assms(2) im cl Inr False by (simp add: iterate_def Let_def)
      from act_on_reply_ok[OF r1 fits mono _ this] show ?thesis by simp
    qed
  qed
qed

lemma run_iters_left_off:
  assumes "ready st w" and "run_iters ag iter st (b, w) = (st', b', w')"
  shows "left_off st' w'"
  using assms
proof (induction "nat (ag_max_iters ag + 1 - iter)" arbitrary: iter st b w rule: less_induct)
  case less
  note unfold = run_iters.simps[of ag iter st "(b, w)"]
  show ?case
  proof (cases "b_cause b \<noteq> None \<or> iter > ag_max_iters ag \<or> b_cause (budget_step b) \<noteq> None")
    case True
    then show ?thesis using less.prems unfold
      by (auto simp: ready_left_off Let_def split: if_splits)
  next
    case False
    obtain st1 stop b1 w1 where it: "iterate ag iter st (budget_step b, w) = (st1, stop, b1, w1)"
      by (metis prod_cases4)
    from iterate_ok[OF less.prems(1) it] have ok: "if stop then left_off st1 w1 else ready st1 w1" .
    show ?thesis
    proof (cases stop)
      case True
      with False it ok less.prems(2) unfold show ?thesis by (simp add: Let_def)
    next
      case nostop: False
      then have "run_iters ag (iter + 1) st1 (b1, w1) = (st', b', w')"
        using False it less.prems(2) unfold by (simp add: Let_def)
      moreover have "nat (ag_max_iters ag + 1 - (iter + 1)) < nat (ag_max_iters ag + 1 - iter)"
        using False by auto
      moreover have "ready st1 w1" using ok nostop by simp
      ultimately show ?thesis using less.hyps by blast
    qed
  qed
qed

lemma run_agent_left_off:
  assumes "sendable c" and "convo_ids c \<subseteq> issued w" and "run_agent ag c (b, w) = (st, b', w')"
  shows "left_off st w'"
  using run_iters_left_off[of "start_run c" w 1 b st b' w'] assms
  by (simp add: run_agent_def sendable_def ready_def start_run_def)

end

section \<open>Ends of a run\<close>

text \<open>Exactly one of outcome and error is recorded.\<close>

definition settled :: "run_state \<Rightarrow> bool" where
  "settled st \<longleftrightarrow> (run_outcome st = None) \<noteq> (run_err st = None)"

lemma settled_finish [simp]:
  "settled (finish (Some x) None st)" "settled (finish None (Some e) st)"
  by (simp_all add: settled_def finish_def)

lemma iterate_settles: "iterate ag iter st bw = (st', True, bw') \<Longrightarrow> settled st'"
  by (auto simp: iterate_def act_on_reply_def act_on_uses_def Let_def
      split: prod.splits sum.splits if_splits option.splits)

lemma run_iters_settles: "run_iters ag iter st bw = (st', bw') \<Longrightarrow> settled st'"
proof (induction "nat (ag_max_iters ag + 1 - iter)" arbitrary: iter st bw rule: less_induct)
  case less
  note unfold = run_iters.simps[of ag iter st bw]
  show ?case
  proof (cases "b_cause (fst bw) \<noteq> None \<or> iter > ag_max_iters ag \<or> b_cause (budget_step (fst bw)) \<noteq> None")
    case True
    then show ?thesis using less.prems unfold by (auto simp: Let_def split: if_splits)
  next
    case False
    obtain st1 stop bw1 where it: "iterate ag iter st (budget_step (fst bw), snd bw) = (st1, stop, bw1)"
      by (metis prod_cases3)
    show ?thesis
    proof (cases stop)
      case True
      with False it less.prems unfold iterate_settles[of ag iter st _ st1 bw1] show ?thesis
        by (simp add: Let_def)
    next
      case nostop: False
      then have "run_iters ag (iter + 1) st1 bw1 = (st', bw')"
        using False it less.prems unfold by (simp add: Let_def)
      moreover have "nat (ag_max_iters ag + 1 - (iter + 1)) < nat (ag_max_iters ag + 1 - iter)"
        using False by auto
      ultimately show ?thesis using less.hyps by blast
    qed
  qed
qed

section \<open>The standard assembly\<close>

text \<open>
  A provider wrapped in \<^verbatim>\<open>llm.WithValidation\<close>, a static tool set, the dispatcher of the program
  and a sliding window. The provider is outside the program; what is asked of it is \<open>provider\<close>.
\<close>

type_synonym 'w leaf_client =
  "request \<Rightarrow> budget \<times> 'w \<Rightarrow> ((err + response) \<times> string \<times> nat) \<times> budget \<times> 'w"

definition checked_client :: "'w leaf_client \<Rightarrow> 'w leaf_client" where
  "checked_client leaf req bw =
     (case validate_request req of
        Some e \<Rightarrow> ((Inl e, [], 0), bw)
      | None \<Rightarrow>
          (case leaf req bw of
             ((Inl e, s, n), bw') \<Rightarrow> ((Inl e, s, n), bw')
           | ((Inr r, s, n), bw') \<Rightarrow>
               (case validate_response r of
                  Some e \<Rightarrow> ((Inl e, s, n), bw')
                | None \<Rightarrow> ((Inr r, s, n), bw'))))"

definition standard_agent :: "'w agent \<Rightarrow> 'w leaf_client \<Rightarrow> tool_set \<Rightarrow> (budget \<times> 'w) tagged_handler
    \<Rightarrow> int \<Rightarrow> 'w agent" where
  "standard_agent ag leaf s h keep =
     ag\<lparr>ag_strategy := sliding_window keep, ag_visible := (\<lambda>_. set_visible s), ag_find := set_find s,
        ag_reconcile := None, ag_client := checked_client leaf, ag_dispatch := dispatch_seq s h\<rparr>"

locale provider =
  fixes leaf :: "'w leaf_client" and h :: "(budget \<times> 'w) tagged_handler"
    and issued :: "'w \<Rightarrow> tool_use_id set"
  assumes leaf_reply: "leaf req (b, w) = ((Inr resp, s, n), b', w') \<Longrightarrow>
      reply_fits (issued w) (rs_content resp) \<and> issued w \<union> set (use_ids (rs_content resp)) \<subseteq> issued w'"
    and leaf_failure: "leaf req (b, w) = ((Inl e, s, n), b', w') \<Longrightarrow> issued w \<subseteq> issued w'"
    and handler_keeps: "h d u (b, w) = (fin, tags, b', w') \<Longrightarrow> issued w \<subseteq> issued w'"
begin

lemma checked_reply:
  assumes "checked_client leaf req (b, w) = ((Inr resp, s, n), b', w')"
  shows "leaf req (b, w) = ((Inr resp, s, n), b', w')"
  using assms by (auto simp: checked_client_def split: option.splits prod.splits sum.splits)

lemma checked_failure:
  assumes "checked_client leaf req (b, w) = ((Inl e, s, n), b', w')"
  shows "issued w \<subseteq> issued w'"
proof -
  obtain r s' n' b2 w2 where l: "leaf req (b, w) = ((r, s', n'), b2, w2)"
    by (metis prod.exhaust)
  show ?thesis
  proof (cases r)
    case (Inl e')
    with assms l leaf_failure[of req b w e' s' n' b2 w2] show ?thesis
      by (auto simp: checked_client_def split: option.splits)
  next
    case (Inr resp)
    with assms l leaf_reply[of req b w resp s' n' b2 w2] show ?thesis
      by (auto simp: checked_client_def split: option.splits)
  qed
qed

lemma dispatch_keeps:
  "dispatch_seq s h uses (b, w) = (rs, b', w') \<Longrightarrow> issued w \<subseteq> issued w'"
proof (induction uses arbitrary: b w rs b' w')
  case (Cons u uses)
  obtain r b1 w1 where rc: "run_call s h u (b, w) = (r, b1, w1)" by (metis prod.exhaust)
  obtain rs' b2 w2 where ds: "dispatch_seq s h uses (b1, w1) = (rs', b2, w2)" by (metis prod.exhaust)
  have "issued w \<subseteq> issued w1"
    using rc handler_keeps by (auto simp: run_call_def split: option.splits prod.splits)
  with Cons.IH[OF ds] Cons.prems rc ds show ?case by auto
qed simp

end

sublocale provider \<subseteq> std: agent_parts "standard_agent ag leaf s h keep" issued for ag s keep
proof
  fix req b w resp t n b' w'
  assume "ag_client (standard_agent ag leaf s h keep) req (b, w) = ((Inr resp, t, n), b', w')"
  then have "leaf req (b, w) = ((Inr resp, t, n), b', w')"
    by (simp add: standard_agent_def checked_reply)
  from leaf_reply[OF this] show "reply_fits (issued w) (rs_content resp) \<and>
      issued w \<union> set (use_ids (rs_content resp)) \<subseteq> issued w'" .
next
  fix req b w e t n b' w'
  assume "ag_client (standard_agent ag leaf s h keep) req (b, w) = ((Inl e, t, n), b', w')"
  then show "issued w \<subseteq> issued w'" by (intro checked_failure) (simp add: standard_agent_def)
next
  fix uses b w rs b' w'
  assume "ag_dispatch (standard_agent ag leaf s h keep) uses (b, w) = (rs, b', w')"
  then have "dispatch_seq s h uses (b, w) = (rs, b', w')" by (simp add: standard_agent_def)
  then show "map cr_use_id rs = map tu_id uses \<and> issued w \<subseteq> issued w'"
    using dispatch_seq_ids dispatch_keeps by metis
qed (simp_all add: standard_agent_def sliding_window_def window_strategy.keeps_sendable)

text \<open>A provider that calls one tool under a fresh id on every turn, counted in the world.\<close>

definition nth_id :: "nat \<Rightarrow> tool_use_id" where
  "nth_id n = replicate n (CHR ''i'')"

definition tool_leaf :: "nat leaf_client" where
  "tool_leaf req bw = (case bw of (b, w) \<Rightarrow>
     ((Inr \<lparr>rs_content = [ToolUse \<lparr>tu_id = nth_id w, tu_name = ''ls'', tu_input = []\<rparr>],
            rs_stop = StopToolUse,
            rs_usage = \<lparr>u_input = 0, u_output = 0, u_cache_write = 0, u_cache_read = 0\<rparr>,
            rs_model = []\<rparr>, [], 0), b, Suc w))"

definition quiet_handler :: "(budget \<times> nat) tagged_handler" where
  "quiet_handler d u bw = (Returned (Inr []), [], bw)"

lemma nth_id_inj: "nth_id m = nth_id n \<longleftrightarrow> m = n"
  by (metis length_replicate nth_id_def)

interpretation tool_provider: provider tool_leaf quiet_handler "\<lambda>w. nth_id ` {..<w}"
  by unfold_locales
    (auto simp: tool_leaf_def quiet_handler_def reply_fits_def nth_id_inj less_Suc_eq)

section \<open>Properties\<close>

text \<open>A run always ends, and it ends with exactly one of an outcome and an error.\<close>

theorem run_ends_once:
  "settled (fst (run_agent ag c bw))"
  using run_iters_settles[of ag 1 "start_run c" bw]
  by (cases "validate c"; cases "run_iters ag 1 (start_run c) bw") (auto simp: run_agent_def)

text \<open>C1: However a run ends, the transcript it leaves can be resumed: given a client that mints fresh
  distinct ids, a dispatcher that answers every call in order and a strategy that keeps requests
  sendable, adding an instruction to what the run left gives a transcript that validates, and so
  does answering any call it left open.\<close>

theorem run_leaves_resumable_transcript:
  assumes "agent_parts ag issued" and "sendable c" and "convo_ids c \<subseteq> issued w"
    and "run_agent ag c (b, w) = (st, bw')"
  shows "resumable (run_convo st) \<and> validate (then_instruction (run_convo st) s) = None \<and>
    (i \<notin> set (dangling (run_convo st)) \<or> validate (answer_pause (run_convo st) i a) = None)"
proof -
  obtain b' w' where bw': "bw' = (b', w')" by (cases bw')
  have "resumable (run_convo st)"
    using agent_parts.run_agent_left_off[OF assms(1-3)] assms(4) bw'
    by (simp add: agent_parts.left_off_def[OF assms(1)])
  then show ?thesis
    using then_instruction_valid answer_pause_valid by auto
qed

definition bare_agent :: "nat agent" where
  "bare_agent = \<lparr>ag_system = [], ag_model = [], ag_max_iters = 5, ag_max_tokens = 0,
     ag_terminal = ''submit'', ag_force_last = 2, ag_strategy = flat_apply, ag_visible = (\<lambda>_. []),
     ag_find = (\<lambda>_. None), ag_reconcile = None, ag_notice = None,
     ag_client = tool_leaf, ag_dispatch = (\<lambda>us bw. ([], bw)), ag_show = (\<lambda>_. [])\<rparr>"

abbreviation demo_agent :: "nat agent" where
  "demo_agent \<equiv> standard_agent bare_agent tool_leaf no_tools quiet_handler 8"

lemma hello_sendable: "sendable [user_text ''hi'']" "convo_ids [user_text ''hi''] = {}"
  by (simp_all add: sendable_def validate_run opens_with_user_def user_text_def roles_ok_def convo_ids_def)

theorem run_leaves_resumable_transcript_witness:
  "resumable (run_convo (fst (run_agent demo_agent [user_text ''hi''] (with_budget two_step_limits 0, 0))))"
  using run_leaves_resumable_transcript[OF tool_provider.std.agent_parts_axioms hello_sendable(1),
      of 0 bare_agent no_tools 8 "with_budget two_step_limits 0"] hello_sendable(2)
  by (cases "run_agent demo_agent [user_text ''hi''] (with_budget two_step_limits 0, 0)") auto



text \<open>Naming a terminal tool and a positive n, exactly the last n + 1 iterations of a run that reaches
  its cap are forced to call it (all of them when the cap is no larger).\<close>

theorem terminal_forced_near_cap:
  assumes "ag_terminal ag \<noteq> []" and "0 < ag_force_last ag" and "0 \<le> ag_max_iters ag"
  shows "int (card {i. 1 \<le> i \<and> i \<le> ag_max_iters ag \<and> snd (tool_choice_at ag i) = ag_terminal ag}) =
    min (ag_max_iters ag) (ag_force_last ag + 1)"
proof -
  have "{i. 1 \<le> i \<and> i \<le> ag_max_iters ag \<and> snd (tool_choice_at ag i) = ag_terminal ag} =
      {max (ag_max_iters ag - ag_force_last ag) 1..ag_max_iters ag}"
    using assms by (auto simp: tool_choice_at_def)
  then show ?thesis using assms by (simp add: max_def)
qed

theorem terminal_forced_near_cap_witness:
  "int (card {i. 1 \<le> i \<and> i \<le> ag_max_iters bare_agent \<and>
     snd (tool_choice_at bare_agent i) = ag_terminal bare_agent}) = 3"
  using terminal_forced_near_cap[of bare_agent] by (simp add: bare_agent_def)

end
