(* ===== verification/Approvals.thy ===== *)
theory Approvals
  imports Permission
begin

text \<open>
  The approval queue of a session (\<^verbatim>\<open>httpapi/approvals.go\<close>): tool calls parked on a person, their
  one-slot verdict channels, and the waiting side of the approver as a step relation.

  A parked call is named by its handle (the pointer of the code), so that a forgotten wait is told
  apart from a later one under the same id. The keys of \<^verbatim>\<open>waiting\<close> are an association list; the
  code ranges over a map, so its order carries no meaning. A send on a full channel would block and
  is \<^const>\<open>None\<close>.
\<close>

section \<open>State\<close>

record approval =
  ap_use_id :: tool_use_id
  ap_tool :: string
  ap_reason :: string
  ap_input :: "string option"
  ap_since :: int

record approvals =
  aq_waiting :: "(tool_use_id \<times> nat) list"
  aq_answered :: "tool_use_id set"
  aq_closed :: bool
  aq_chan :: "nat \<Rightarrow> bool option"
  aq_approval :: "nat \<Rightarrow> approval"
  aq_next :: nat

definition no_approval :: approval where
  "no_approval = \<lparr>ap_use_id = [], ap_tool = [], ap_reason = [], ap_input = None, ap_since = 0\<rparr>"

definition new_approvals :: approvals where
  "new_approvals = \<lparr>aq_waiting = [], aq_answered = {}, aq_closed = False, aq_chan = (\<lambda>_. None),
     aq_approval = (\<lambda>_. no_approval), aq_next = 0\<rparr>"

definition ErrNoQueue :: err where
  [sentinel_defs]: "ErrNoQueue = Sentinel ''httpapi: this run has no approval queue attached''"
definition ErrNoSuchApproval :: err where
  [sentinel_defs]: "ErrNoSuchApproval = Sentinel ''httpapi: no such approval''"
definition ErrAlreadyAnswered :: err where
  [sentinel_defs]: "ErrAlreadyAnswered = Sentinel ''httpapi: approval already answered''"

section \<open>Operations\<close>

definition json_or_nil :: "string \<Rightarrow> string option" where
  "json_or_nil s = (if s = [] then None else Some s)"

text \<open>The reason shown is a field of the request that the gate fills in; it is an argument here.\<close>

definition aq_register :: "perm_request \<Rightarrow> string \<Rightarrow> int \<Rightarrow> approvals \<Rightarrow> (err + nat) \<times> approvals" where
  "aq_register r reason now a =
     (let i = tu_id (pr_use r); h = aq_next a in
      if aq_closed a then (Inl ErrNoQueue, a)
      else if map_of (aq_waiting a) i \<noteq> None then (Inl ErrAlreadyAnswered, a)
      else (Inr h, a\<lparr>aq_waiting := (i, h) # aq_waiting a,
             aq_chan := (aq_chan a)(h := None),
             aq_approval := (aq_approval a)(h := \<lparr>ap_use_id = i, ap_tool = td_name (pr_tool r),
               ap_reason = reason, ap_input = json_or_nil (tu_input (pr_use r)), ap_since = now\<rparr>),
             aq_next := Suc h\<rparr>))"

definition drop_waiting :: "tool_use_id \<Rightarrow> (tool_use_id \<times> nat) list \<Rightarrow> (tool_use_id \<times> nat) list" where
  "drop_waiting i ws = filter (\<lambda>p. fst p \<noteq> i) ws"

definition aq_forget :: "tool_use_id \<Rightarrow> nat \<Rightarrow> approvals \<Rightarrow> approvals" where
  "aq_forget i h a =
     (if map_of (aq_waiting a) i = Some h then a\<lparr>aq_waiting := drop_waiting i (aq_waiting a)\<rparr> else a)"

definition chan_send :: "nat \<Rightarrow> bool \<Rightarrow> approvals \<Rightarrow> approvals option" where
  "chan_send h v a = (if aq_chan a h = None then Some (a\<lparr>aq_chan := (aq_chan a)(h \<mapsto> v)\<rparr>) else None)"

definition aq_resolve :: "tool_use_id \<Rightarrow> bool \<Rightarrow> approvals \<Rightarrow> (err option \<times> approvals) option" where
  "aq_resolve i allow a =
     (case map_of (aq_waiting a) i of
        None \<Rightarrow> Some (Some (if i \<in> aq_answered a then ErrAlreadyAnswered else ErrNoSuchApproval), a)
      | Some h \<Rightarrow>
          map_option (\<lambda>a. (None, a))
            (chan_send h allow (a\<lparr>aq_waiting := drop_waiting i (aq_waiting a),
               aq_answered := insert i (aq_answered a)\<rparr>)))"

definition aq_pending :: "approvals \<Rightarrow> approval list" where
  "aq_pending a = sort_key ap_since (map (aq_approval a \<circ> snd) (aq_waiting a))"

definition aq_count :: "approvals \<Rightarrow> nat" where
  "aq_count a = length (aq_waiting a)"

text \<open>\<^verbatim>\<open>release\<close> denies the parked calls one after another.\<close>

fun release_each :: "(tool_use_id \<times> nat) list \<Rightarrow> approvals \<Rightarrow> approvals option" where
  "release_each [] a = Some a"
| "release_each ((i, h) # ws) a =
     Option.bind
       (chan_send h False (a\<lparr>aq_waiting := drop_waiting i (aq_waiting a),
          aq_answered := insert i (aq_answered a)\<rparr>))
       (release_each ws)"

definition aq_deny :: "approvals \<Rightarrow> approvals option" where
  "aq_deny a = release_each (aq_waiting a) a"

definition aq_close :: "approvals \<Rightarrow> approvals option" where
  "aq_close a = (let a = a\<lparr>aq_closed := True\<rparr> in release_each (aq_waiting a) a)"

section \<open>Waiting for a verdict\<close>

text \<open>
  \<^verbatim>\<open>approve\<close> registers, then selects between its channel and the end of its context, and forgets
  the wait on the way out. A waiter is a handle with what the call returned; the third component
  records which verdicts people sent, by handle. An operation that would block has no step.
\<close>

datatype waiter = Parking | Verdict bool | GaveUp err

type_synonym approval_system = "approvals \<times> (nat \<rightharpoonup> waiter) \<times> (nat \<times> bool) list"

inductive approval_step :: "approval_system \<Rightarrow> approval_system \<Rightarrow> bool" where
  park: "aq_register r reason now a = (Inr h, a') \<Longrightarrow>
    approval_step (a, ws, vs) (a', ws(h \<mapsto> Parking), vs)"
| answer: "map_of (aq_waiting a) i = Some h \<Longrightarrow> aq_resolve i v a = Some (None, a') \<Longrightarrow>
    approval_step (a, ws, vs) (a', ws, vs @ [(h, v)])"
| deny: "aq_deny a = Some a' \<Longrightarrow> approval_step (a, ws, vs) (a', ws, vs)"
| close: "aq_close a = Some a' \<Longrightarrow> approval_step (a, ws, vs) (a', ws, vs)"
| receive: "ws h = Some Parking \<Longrightarrow> aq_chan a h = Some v \<Longrightarrow>
    approval_step (a, ws, vs)
      (aq_forget (ap_use_id (aq_approval a h)) h (a\<lparr>aq_chan := (aq_chan a)(h := None)\<rparr>),
       ws(h \<mapsto> Verdict v), vs)"
| cancelled: "ws h = Some Parking \<Longrightarrow>
    approval_step (a, ws, vs)
      (aq_forget (ap_use_id (aq_approval a h)) h a, ws(h \<mapsto> GaveUp e), vs)"

inductive_cases approval_stepE: "approval_step c c'"

section \<open>Invariant\<close>

text \<open>
  Ids are parked once; a parked handle is a live one with its own i and an empty channel; a verdict
  in a channel has no parked entry any more, and one that lets the call through was sent by a person;
  so was one that a waiter has returned. A waiter that is still parked is in the queue or has a
  verdict to read.
\<close>

definition aq_ok :: "approvals \<Rightarrow> bool" where
  "aq_ok a \<longleftrightarrow> distinct (map fst (aq_waiting a)) \<and>
     (\<forall>i h. (i, h) \<in> set (aq_waiting a) \<longrightarrow>
        h < aq_next a \<and> aq_chan a h = None \<and> ap_use_id (aq_approval a h) = i)"

definition approvals_core :: "approval_system \<Rightarrow> bool" where
  "approvals_core c \<longleftrightarrow> (case c of (a, ws, vs) \<Rightarrow>
     aq_ok a \<and> (\<forall>h. aq_next a \<le> h \<longrightarrow> ws h = None) \<and>
     (\<forall>h. aq_chan a h = Some True \<or> ws h = Some (Verdict True) \<longrightarrow> (h, True) \<in> set vs) \<and>
     (\<forall>h. ws h = Some Parking \<longrightarrow> aq_chan a h \<noteq> None \<or> (ap_use_id (aq_approval a h), h) \<in> set (aq_waiting a)) \<and>
     (\<forall>i h. (i, h) \<in> set (aq_waiting a) \<longrightarrow> ws h = Some Parking))"

definition approvals_ok :: "approval_system \<Rightarrow> bool" where
  "approvals_ok c \<longleftrightarrow> approvals_core c \<and> (aq_closed (fst c) \<longrightarrow> aq_waiting (fst c) = [])"

lemma map_of_drop_waiting [simp]: "map_of (drop_waiting i ws) j = (if j = i then None else map_of ws j)"
  by (induction ws) (auto simp: drop_waiting_def)

lemma set_drop_waiting [simp]: "set (drop_waiting i ws) = {p \<in> set ws. fst p \<noteq> i}"
  by (auto simp: drop_waiting_def)

lemma distinct_drop_waiting [intro]:
  "distinct (map fst ws) \<Longrightarrow> distinct (map fst (drop_waiting i ws))"
  by (induction ws) (auto simp: drop_waiting_def)

lemma new_approvals_ok: "approvals_ok (new_approvals, Map.empty, [])"
  by (simp add: approvals_ok_def approvals_core_def aq_ok_def new_approvals_def)

text \<open>Under the invariant a parked id can be answered: its channel is empty.\<close>

lemma aq_resolve_sends:
  assumes "aq_ok a" and "map_of (aq_waiting a) i = Some h"
  shows "aq_resolve i v a = Some (None, a\<lparr>aq_waiting := drop_waiting i (aq_waiting a),
    aq_answered := insert i (aq_answered a), aq_chan := (aq_chan a)(h \<mapsto> v)\<rparr>)"
proof -
  have "aq_chan a h = None" using assms map_of_SomeD[OF assms(2)] by (auto simp: aq_ok_def)
  with assms(2) show ?thesis by (simp add: aq_resolve_def chan_send_def)
qed

lemma waiting_unique:
  assumes "aq_ok a" and "(i, h) \<in> set (aq_waiting a)" and "(j, g) \<in> set (aq_waiting a)"
  shows "j = i \<longleftrightarrow> g = h"
proof -
  have "g = h" if "j = i" using assms that by (auto simp: aq_ok_def dest: eq_key_imp_eq_value)
  moreover have "j = i" if "g = h" using assms that unfolding aq_ok_def by metis
  ultimately show ?thesis by blast
qed

lemma send_ok:
  assumes "approvals_core (a, ws, vs)" and "(i, h) \<in> set (aq_waiting a)" and "v \<longrightarrow> (h, True) \<in> set vs"
  shows "approvals_core (a\<lparr>aq_waiting := drop_waiting i (aq_waiting a),
    aq_answered := insert i (aq_answered a), aq_chan := (aq_chan a)(h \<mapsto> v)\<rparr>, ws, vs)"
proof -
  have "aq_ok a" using assms(1) by (simp add: approvals_core_def)
  note uniq = waiting_unique[OF this assms(2)]
  have other: "\<And>j g. (j, g) \<in> set (aq_waiting a) \<Longrightarrow> j \<noteq> i \<Longrightarrow> g \<noteq> h"
    and same: "\<And>g. (i, g) \<in> set (aq_waiting a) \<Longrightarrow> g = h" using uniq by blast+
  show ?thesis unfolding approvals_core_def prod.case
  proof (intro conjI allI impI)
    show "aq_ok (a\<lparr>aq_waiting := drop_waiting i (aq_waiting a), aq_answered := insert i (aq_answered a),
        aq_chan := (aq_chan a)(h \<mapsto> v)\<rparr>)"
      using assms(1) other by (auto simp: approvals_core_def aq_ok_def intro: distinct_drop_waiting)
  next
    fix g assume "ws g = Some Parking"
    then show "aq_chan (a\<lparr>aq_waiting := drop_waiting i (aq_waiting a), aq_answered := insert i (aq_answered a),
          aq_chan := (aq_chan a)(h \<mapsto> v)\<rparr>) g \<noteq> None \<or>
        (ap_use_id (aq_approval (a\<lparr>aq_waiting := drop_waiting i (aq_waiting a),
          aq_answered := insert i (aq_answered a), aq_chan := (aq_chan a)(h \<mapsto> v)\<rparr>) g), g)
        \<in> set (aq_waiting (a\<lparr>aq_waiting := drop_waiting i (aq_waiting a),
          aq_answered := insert i (aq_answered a), aq_chan := (aq_chan a)(h \<mapsto> v)\<rparr>))"
      using assms(1) same by (cases "g = h") (auto simp: approvals_core_def)
  qed (use assms in \<open>auto simp: approvals_core_def split: if_splits\<close>)
qed

lemma release_each_ok:
  assumes "approvals_core (a, ws, vs)" and "distinct (map fst ps)" and "set ps \<subseteq> set (aq_waiting a)"
  shows "\<exists>a'. release_each ps a = Some a' \<and> approvals_core (a', ws, vs) \<and> aq_closed a' = aq_closed a \<and>
    set (aq_waiting a') = {p \<in> set (aq_waiting a). fst p \<notin> fst ` set ps} \<and>
    (\<forall>h. aq_chan a' h = (if h \<in> snd ` set ps then Some False else aq_chan a h))"
  using assms
proof (induction ps arbitrary: a)
  case (Cons p ps)
  obtain i h where p: "p = (i, h)" by fastforce
  let ?a = "a\<lparr>aq_waiting := drop_waiting i (aq_waiting a), aq_answered := insert i (aq_answered a),
      aq_chan := (aq_chan a)(h \<mapsto> False)\<rparr>"
  have empty: "aq_chan a h = None" using Cons.prems(1,3) p by (auto simp: approvals_core_def aq_ok_def)
  have ok: "approvals_core (?a, ws, vs)" using send_ok[OF Cons.prems(1), of i h False] Cons.prems(3) p by simp
  moreover have "set ps \<subseteq> set (aq_waiting ?a)" using Cons.prems(2,3) p by force
  ultimately obtain a' where a': "release_each ps ?a = Some a'" "approvals_core (a', ws, vs)"
    "aq_closed a' = aq_closed a" "set (aq_waiting a') = {q \<in> set (aq_waiting ?a). fst q \<notin> fst ` set ps}"
    "\<forall>g. aq_chan a' g = (if g \<in> snd ` set ps then Some False else aq_chan ?a g)"
    using Cons.IH[of ?a] Cons.prems(2) by auto
  moreover have "release_each (p # ps) a = Some a'" using a'(1) empty p by (simp add: chan_send_def)
  ultimately show ?case using p by (intro exI[of _ a']) auto
qed simp

lemma release_all_ok:
  assumes "approvals_core (a, ws, vs)"
  shows "\<exists>a'. release_each (aq_waiting a) a = Some a' \<and> approvals_ok (a', ws, vs) \<and> aq_waiting a' = [] \<and>
    aq_closed a' = aq_closed a \<and> (\<forall>h. ws h = Some Parking \<longrightarrow> aq_chan a' h \<noteq> None)"
proof -
  have "distinct (map fst (aq_waiting a))" using assms by (simp add: approvals_core_def aq_ok_def)
  from release_each_ok[OF assms this] obtain a' where a': "release_each (aq_waiting a) a = Some a'"
    "approvals_core (a', ws, vs)" "aq_closed a' = aq_closed a"
    "set (aq_waiting a') = {p \<in> set (aq_waiting a). fst p \<notin> fst ` set (aq_waiting a)}"
    by auto
  from a'(4) have "aq_waiting a' = []" by (auto simp: set_empty[symmetric] simp del: set_empty)
  with a'(1,2,3) show ?thesis by (auto simp: approvals_ok_def approvals_core_def)
qed

lemma deny_ok:
  assumes "approvals_ok (a, ws, vs)"
  shows "\<exists>a'. aq_deny a = Some a' \<and> approvals_ok (a', ws, vs) \<and> aq_waiting a' = [] \<and>
    (\<forall>h. ws h = Some Parking \<longrightarrow> aq_chan a' h \<noteq> None)"
  using release_all_ok[of a ws vs] assms by (auto simp: approvals_ok_def aq_deny_def)

lemma close_ok:
  assumes "approvals_ok (a, ws, vs)"
  shows "\<exists>a'. aq_close a = Some a' \<and> approvals_ok (a', ws, vs) \<and> aq_waiting a' = [] \<and> aq_closed a' \<and>
    (\<forall>h. ws h = Some Parking \<longrightarrow> aq_chan a' h \<noteq> None)"
proof -
  have "approvals_core (a\<lparr>aq_closed := True\<rparr>, ws, vs)"
    using assms by (simp add: approvals_ok_def approvals_core_def aq_ok_def)
  from release_all_ok[OF this] show ?thesis by (auto simp: aq_close_def)
qed

lemma aq_ok_subset:
  assumes "aq_ok a" and "distinct (map fst (aq_waiting b))" and "set (aq_waiting b) \<subseteq> set (aq_waiting a)"
    and "aq_next b = aq_next a" and "aq_chan b = aq_chan a" and "aq_approval b = aq_approval a"
  shows "aq_ok b"
  using assms unfolding aq_ok_def by (simp only: subset_iff) blast

lemma aq_ok_drop:
  assumes "aq_ok a"
  shows "aq_ok (a\<lparr>aq_waiting := drop_waiting i (aq_waiting a)\<rparr>)"
  by (rule aq_ok_subset[OF assms]) (use assms in \<open>auto simp: aq_ok_def intro: distinct_drop_waiting\<close>)

lemma give_up_ok:
  assumes "approvals_ok (a, ws, vs)" and "ws h = Some Parking"
  shows "approvals_ok (aq_forget (ap_use_id (aq_approval a h)) h a, ws(h \<mapsto> GaveUp e), vs)"
proof -
  let ?i = "ap_use_id (aq_approval a h)"
  have ok: "aq_ok a" using assms by (simp add: approvals_ok_def approvals_core_def)
  have gone: "(j, h) \<notin> set (aq_waiting (aq_forget ?i h a))" for j
  proof
    assume j: "(j, h) \<in> set (aq_waiting (aq_forget ?i h a))"
    then have "(j, h) \<in> set (aq_waiting a)" by (auto simp: aq_forget_def split: if_splits)
    moreover from this have "j = ?i" using ok unfolding aq_ok_def by metis
    moreover have "distinct (map fst (aq_waiting a))" using ok unfolding aq_ok_def by blast
    ultimately have "map_of (aq_waiting a) ?i = Some h" by (metis map_of_is_SomeI)
    then have "aq_forget ?i h a = a\<lparr>aq_waiting := drop_waiting ?i (aq_waiting a)\<rparr>"
      by (simp add: aq_forget_def)
    with j \<open>j = ?i\<close> show False by simp
  qed
  have sub: "set (aq_waiting (aq_forget ?i h a)) \<subseteq> set (aq_waiting a)"
    by (auto simp: aq_forget_def)
  have keep: "p \<in> set (aq_waiting (aq_forget ?i h a))" if "p \<in> set (aq_waiting a)" "snd p \<noteq> h" for p
  proof (cases "map_of (aq_waiting a) ?i = Some h")
    case True
    then have "fst p \<noteq> ?i" using waiting_unique[OF ok map_of_SomeD[OF True], of "fst p" "snd p"] that by auto
    with True that show ?thesis by (simp add: aq_forget_def)
  qed (use that in \<open>simp add: aq_forget_def\<close>)
  have "aq_ok (aq_forget ?i h a)"
    using ok by (simp add: aq_forget_def aq_ok_drop)
  moreover have "aq_next (aq_forget ?i h a) = aq_next a" "aq_chan (aq_forget ?i h a) = aq_chan a"
    "aq_approval (aq_forget ?i h a) = aq_approval a" by (simp_all add: aq_forget_def)
  moreover have "\<forall>j g. (j, g) \<in> set (aq_waiting (aq_forget ?i h a)) \<longrightarrow> (ws(h \<mapsto> GaveUp e)) g = Some Parking"
    using assms gone sub by (auto simp: approvals_ok_def approvals_core_def)
  moreover have "\<forall>g. (ws(h \<mapsto> GaveUp e)) g = Some Parking \<longrightarrow> aq_chan a g \<noteq> None \<or>
      (ap_use_id (aq_approval a g), g) \<in> set (aq_waiting (aq_forget ?i h a))"
    using assms keep by (auto simp: approvals_ok_def approvals_core_def split: if_splits)
  moreover have "aq_closed a \<longrightarrow> aq_waiting (aq_forget ?i h a) = []"
    using sub assms by (auto simp: approvals_ok_def)
  moreover have "aq_closed (aq_forget ?i h a) = aq_closed a" by (simp add: aq_forget_def)
  moreover have "\<forall>g. (aq_chan a g = Some True \<or> (ws(h \<mapsto> GaveUp e)) g = Some (Verdict True)) \<longrightarrow> (g, True) \<in> set vs"
    "\<forall>g. aq_next a \<le> g \<longrightarrow> (ws(h \<mapsto> GaveUp e)) g = None"
    using assms by (auto simp: approvals_ok_def approvals_core_def)
  ultimately show ?thesis
    unfolding approvals_ok_def approvals_core_def by (simp only: prod.case fst_conv)
qed

lemma approval_step_ok:
  assumes "approval_step c c'" and "approvals_ok c"
  shows "approvals_ok c'"
  using assms
proof (cases rule: approval_step.cases)
  case (park r reason now a h a' ws vs)
  have "h = aq_next a" "tu_id (pr_use r) \<notin> fst ` set (aq_waiting a)"
    using park by (auto simp: aq_register_def Let_def map_of_eq_None_iff split: if_splits)
  moreover have "\<forall>j. (j, aq_next a) \<notin> set (aq_waiting a)"
    using park assms(2) by (auto simp: approvals_ok_def approvals_core_def aq_ok_def)
  ultimately show ?thesis using park assms(2)
    by (auto simp: approvals_ok_def approvals_core_def aq_ok_def aq_register_def Let_def less_Suc_eq split: if_splits)
next
  case (answer a i h v a' ws vs)
  have inv: "approvals_core (a, ws, vs @ [(h, v)])" "aq_closed a \<longrightarrow> aq_waiting a = []" using assms(2) answer by (auto simp: approvals_ok_def approvals_core_def)
  then have "aq_ok a" by (simp add: approvals_core_def)
  from aq_resolve_sends[OF this answer(3)] answer(4) inv(2) send_ok[OF inv(1) map_of_SomeD[OF answer(3)], of v] answer(2)
  show ?thesis by (auto simp: approvals_ok_def drop_waiting_def)
next
  case (receive ws h a v vs)
  have free: "(i, h) \<notin> set (aq_waiting a)" for i
    using assms(2) receive by (auto simp: approvals_ok_def approvals_core_def aq_ok_def)
  then have "aq_forget (ap_use_id (aq_approval a h)) h (a\<lparr>aq_chan := (aq_chan a)(h := None)\<rparr>) =
      a\<lparr>aq_chan := (aq_chan a)(h := None)\<rparr>"
    by (auto simp: aq_forget_def dest: map_of_SomeD)
  with receive assms(2) free show ?thesis
    by (auto simp: approvals_ok_def approvals_core_def aq_ok_def)
next
  case (cancelled ws h a vs e)
  with assms(2) give_up_ok[of a ws vs h e] show ?thesis by simp
next
  case (deny a a' ws vs)
  with assms(2) deny_ok[of a ws vs] show ?thesis by auto
next
  case (close a a' ws vs)
  with assms(2) close_ok[of a ws vs] show ?thesis by auto
qed

lemma approvals_reach_ok:
  assumes "approval_step\<^sup>*\<^sup>* (new_approvals, Map.empty, []) c"
  shows "approvals_ok c"
  using assms by (induction rule: rtranclp_induct) (auto intro: approval_step_ok new_approvals_ok)

text \<open>A handle a person has answered is an old one that is no longer in the queue.\<close>

definition votes_ok :: "approval_system \<Rightarrow> bool" where
  "votes_ok c \<longleftrightarrow> (case c of (a, ws, vs) \<Rightarrow>
     distinct (map fst vs) \<and>
     (\<forall>h v i. (h, v) \<in> set vs \<longrightarrow> h < aq_next a \<and> (i, h) \<notin> set (aq_waiting a)))"

lemma release_each_waiting:
  "release_each ps a = Some a' \<Longrightarrow> set (aq_waiting a') \<subseteq> set (aq_waiting a) \<and> aq_next a' = aq_next a"
proof (induction ps arbitrary: a)
  case (Cons p ps)
  then show ?case
    by (cases p) (fastforce simp: chan_send_def split: if_splits)
qed simp

lemma votes_subset:
  "votes_ok (a, ws, vs) \<Longrightarrow> set (aq_waiting a') \<subseteq> set (aq_waiting a) \<Longrightarrow> aq_next a' = aq_next a \<Longrightarrow>
   votes_ok (a', ws', vs)"
  unfolding votes_ok_def prod.case by (simp only:) blast

lemma votes_step:
  assumes "approval_step c c'" and "approvals_ok c" and "votes_ok c"
  shows "votes_ok c'"
  using assms
proof (cases rule: approval_step.cases)
  case (park r reason now a h a' ws vs)
  with assms(3) show ?thesis
    by (auto simp: votes_ok_def aq_register_def Let_def less_Suc_eq split: if_splits)
next
  case (answer a i h v a' ws vs)
  have ok: "aq_ok a" using assms(2) answer by (simp add: approvals_ok_def approvals_core_def)
  note h = map_of_SomeD[OF answer(3)]
  have "h < aq_next a" using ok h unfolding aq_ok_def by blast
  moreover have "(h, u) \<notin> set vs" for u using assms(3) answer(1) h by (auto simp: votes_ok_def)
  moreover have "(j, h) \<notin> set (drop_waiting i (aq_waiting a))" for j
    using waiting_unique[OF ok h, of j h] by auto
  ultimately show ?thesis
    using assms(3) answer aq_resolve_sends[OF ok answer(3), of v] by (auto simp: votes_ok_def)
next
  case (deny a a' ws vs)
  with votes_subset[of a ws vs a' ws] assms(3) release_each_waiting[of "aq_waiting a" a a'] show ?thesis
    by (simp add: aq_deny_def)
next
  case (close a a' ws vs)
  with votes_subset[of a ws vs a' ws] assms(3)
    release_each_waiting[of "aq_waiting a" "a\<lparr>aq_closed := True\<rparr>" a'] show ?thesis
    by (simp add: aq_close_def)
next
  case (receive ws h a v vs)
  with votes_subset[of a ws vs] assms(3) show ?thesis by (auto simp: aq_forget_def)
next
  case (cancelled ws h a vs e)
  with votes_subset[of a ws vs] assms(3) show ?thesis by (auto simp: aq_forget_def)
qed

lemma votes_reach_ok:
  assumes "approval_step\<^sup>*\<^sup>* (new_approvals, Map.empty, []) c"
  shows "votes_ok c"
  using assms
proof (induction rule: rtranclp_induct)
  case base
  then show ?case by (simp add: votes_ok_def)
next
  case (step c c')
  then show ?case using votes_step approvals_reach_ok by blast
qed

section \<open>Properties\<close>

text \<open>C12: However questions, answers, cancellations, denials and closings interleave, a parked call is
  let through only when a person allowed that very call, a person's verdict is taken at most once per
  parked call, and no operation can block on a verdict channel.\<close>

theorem approvals_answered_once:
  assumes "approval_step\<^sup>*\<^sup>* (new_approvals, Map.empty, []) (a, ws, vs)"
  shows "(\<forall>h. ws h = Some (Verdict True) \<longrightarrow> (h, True) \<in> set vs) \<and> distinct (map fst vs) \<and>
    aq_resolve i v a \<noteq> None \<and> aq_deny a \<noteq> None \<and> aq_close a \<noteq> None"
proof -
  note ok = approvals_reach_ok[OF assms] and votes = votes_reach_ok[OF assms]
  have "aq_ok a" using ok by (simp add: approvals_ok_def approvals_core_def)
  then have "aq_resolve i v a \<noteq> None"
  proof (cases "map_of (aq_waiting a) i")
    case (Some h)
    with \<open>aq_ok a\<close> show ?thesis by (simp add: aq_resolve_sends)
  qed (simp add: aq_resolve_def)
  with ok votes deny_ok[OF ok] close_ok[OF ok] show ?thesis
    by (auto simp: approvals_ok_def approvals_core_def votes_ok_def)
qed

definition bash_ls :: perm_request where
  "bash_ls = call_with shell [(''command'', JStr ''ls'')]"

lemma allowed_call_trace:
  "\<exists>a. approval_step\<^sup>*\<^sup>* (new_approvals, Map.empty, []) (a, [0 \<mapsto> Parking], [(0, True)])"
proof -
  obtain a1 where a1: "aq_register bash_ls [] 5 new_approvals = (Inr 0, a1)"
    by (simp add: aq_register_def new_approvals_def Let_def)
  then have "approval_step (new_approvals, Map.empty, []) (a1, [0 \<mapsto> Parking], [])"
    by (rule approval_step.park)
  moreover have w: "map_of (aq_waiting a1) ''a'' = Some 0"
    using a1 by (auto simp: aq_register_def new_approvals_def Let_def bash_ls_def call_with_def)
  moreover have "aq_chan a1 0 = None"
    using a1 by (auto simp: aq_register_def new_approvals_def Let_def)
  with w obtain a2 where "aq_resolve ''a'' True a1 = Some (None, a2)"
    by (simp add: aq_resolve_def chan_send_def)
  with w have "approval_step (a1, [0 \<mapsto> Parking], []) (a2, [0 \<mapsto> Parking], [] @ [(0, True)])"
    by (rule approval_step.answer)
  ultimately have "approval_step\<^sup>*\<^sup>* (new_approvals, Map.empty, []) (a2, [0 \<mapsto> Parking], [(0, True)])"
    by (simp add: converse_rtranclp_into_rtranclp)
  then show ?thesis by blast
qed

theorem approvals_answered_once_witness:
  "\<exists>a. approval_step\<^sup>*\<^sup>* (new_approvals, Map.empty, []) (a, [0 \<mapsto> Parking], [(0, True)]) \<and>
     aq_deny a \<noteq> None \<and> aq_resolve ''a'' False a \<noteq> None"
  using allowed_call_trace approvals_answered_once[of _ "[0 \<mapsto> Parking]" "[(0, True)]" "''a''" False] by blast

text \<open>C13: Closing a queue releases it for good: no call stays parked, none can be parked again, and
  every waiter that had not returned has a verdict to read.\<close>

theorem closing_releases_waiters:
  assumes "approval_step\<^sup>*\<^sup>* (new_approvals, Map.empty, []) (a, ws, vs)"
  shows "\<exists>a'. aq_close a = Some a' \<and> aq_pending a' = [] \<and>
    aq_register r reason now a' = (Inl ErrNoQueue, a') \<and>
    (\<forall>h. ws h = Some Parking \<longrightarrow> aq_chan a' h \<noteq> None)"
proof -
  obtain a' where "aq_close a = Some a'" "aq_waiting a' = []" "aq_closed a'"
    "\<forall>h. ws h = Some Parking \<longrightarrow> aq_chan a' h \<noteq> None"
    using close_ok[OF approvals_reach_ok[OF assms]] by blast
  then show ?thesis by (auto simp: aq_pending_def aq_register_def Let_def)
qed

theorem closing_releases_waiters_witness:
  "\<exists>a a'. approval_step\<^sup>*\<^sup>* (new_approvals, Map.empty, []) (a, [0 \<mapsto> Parking], [(0, True)]) \<and>
     aq_close a = Some a' \<and> aq_register bash_ls [] 6 a' = (Inl ErrNoQueue, a')"
  using allowed_call_trace closing_releases_waiters[of _ "[0 \<mapsto> Parking]" "[(0, True)]" bash_ls "[]" 6] by blast

end
