(* ===== verification/EventLog.thy ===== *)
theory EventLog
  imports Prelude
begin

text \<open>
  The bounded event log that decouples a run from its readers (\<^verbatim>\<open>buffered.go\<close>): appending with
  eviction of the oldest entries, the generation channel that wakes readers, and the reader loop
  \<^verbatim>\<open>Follow\<close>, interleaved with the producer. The session log of \<^verbatim>\<open>httpapi/session.go\<close> is read by
  the same loop; the interface of the two logs is the locale \<open>followed_log\<close>. The channel
  \<^verbatim>\<open>changed\<close> is a generation number: closing and replacing it adds one.
\<close>

section \<open>The log\<close>

definition buffer_cap :: nat where "buffer_cap = 8192"

record 'e event_log =
  lg_events :: "'e list"
  lg_base :: nat
  lg_gen :: nat
  lg_finished :: bool

definition empty_log :: "'e event_log" where
  "empty_log = \<lparr>lg_events = [], lg_base = 0, lg_gen = 0, lg_finished = False\<rparr>"

definition log_wake :: "'e event_log \<Rightarrow> 'e event_log" where
  "log_wake b = b\<lparr>lg_gen := lg_gen b + 1\<rparr>"

text \<open>The overflow is an integer in the code; it is positive exactly when there is something to drop.\<close>

definition log_append :: "nat \<Rightarrow> 'e \<Rightarrow> 'e event_log \<Rightarrow> 'e event_log" where
  "log_append cap ev b =
     (let b = b\<lparr>lg_events := lg_events b @ [ev]\<rparr>;
          over = length (lg_events b) - cap;
          b = (if over > 0
               then b\<lparr>lg_events := drop over (lg_events b), lg_base := lg_base b + over\<rparr> else b)
      in log_wake b)"

definition log_finish :: "'e event_log \<Rightarrow> 'e event_log" where
  "log_finish b = log_wake (b\<lparr>lg_finished := True\<rparr>)"

definition log_len :: "'e event_log \<Rightarrow> nat" where
  "log_len b = lg_base b + length (lg_events b)"

text \<open>\<^verbatim>\<open>drain\<close>: every event of the run, then the end.\<close>

definition log_drain :: "nat \<Rightarrow> 'e list \<Rightarrow> 'e event_log \<Rightarrow> 'e event_log" where
  "log_drain cap evs b = log_finish (foldl (\<lambda>b e. log_append cap e b) b evs)"

section \<open>Following\<close>

text \<open>What a reader sees of a log under its lock.\<close>

record 'e log_view =
  lv_base :: nat
  lv_events :: "'e list"
  lv_over :: bool
  lv_gen :: nat

definition log_view_of :: "'e event_log \<Rightarrow> 'e log_view" where
  "log_view_of b = \<lparr>lv_base = lg_base b, lv_events = lg_events b, lv_over = lg_finished b,
     lv_gen = lg_gen b\<rparr>"

text \<open>
  A reader is at the top of its loop, hands out what is left of a snapshot (never empty), is parked on
  a generation of the log, or has returned. The first component is the next sequence number.
\<close>

datatype 'e follower = Top nat | Yielding nat "'e list" | Parked nat nat | Left

definition follow_start :: "int \<Rightarrow> 'e follower" where
  "follow_start from = Top (nat from)"

definition follow_top :: "'e log_view \<Rightarrow> nat \<Rightarrow> 'e follower" where
  "follow_top v q =
     (let q = max q (lv_base v);
          i = q - lv_base v;
          batch = (if i < length (lv_events v) then drop i (lv_events v) else [])
      in if batch \<noteq> [] then Yielding q batch
         else if lv_over v then Left
         else Parked q (lv_gen v))"

fun follow_next :: "nat \<Rightarrow> 'e list \<Rightarrow> 'e follower" where
  "follow_next q [] = Top q"
| "follow_next q (x # xs) = Yielding q (x # xs)"

text \<open>
  The reader's own steps, those by which it gives up (its consumer stops, its context ends), and the
  steps of everybody else. The third component is what the consumer was given.
\<close>

inductive follow_own :: "('s \<Rightarrow> 'e log_view) \<Rightarrow> 's \<times> 'e follower \<times> (nat \<times> 'e) list
    \<Rightarrow> 's \<times> 'e follower \<times> (nat \<times> 'e) list \<Rightarrow> bool" for view where
  look: "follow_own view (s, Top q, ys) (s, follow_top (view s) q, ys)"
| hand: "follow_own view (s, Yielding q (x # xs), ys) (s, follow_next (Suc q) xs, ys @ [(q, x)])"
| wake: "lv_gen (view s) \<noteq> g \<Longrightarrow> follow_own view (s, Parked q g, ys) (s, Top q, ys)"

inductive follow_step :: "('s \<Rightarrow> 'e log_view) \<Rightarrow> ('s \<Rightarrow> 's \<Rightarrow> bool) \<Rightarrow> 's \<times> 'e follower \<times> (nat \<times> 'e) list
    \<Rightarrow> 's \<times> 'e follower \<times> (nat \<times> 'e) list \<Rightarrow> bool" for view change where
  own: "follow_own view c c' \<Longrightarrow> follow_step view change c c'"
| other: "change s s' \<Longrightarrow> follow_step view change (s, f, ys) (s', f, ys)"
| stop: "follow_step view change (s, Yielding q (x # xs), ys) (s, Left, ys @ [(q, x)])"
| cancel: "follow_step view change (s, Parked q g, ys) (s, Left, ys)"

text \<open>The own steps left to a reader of a log of \<open>n\<close> entries that is over.\<close>

definition follow_left :: "nat \<Rightarrow> 'e follower \<Rightarrow> nat" where
  "follow_left n f = (case f of
     Left \<Rightarrow> 0
   | Top q \<Rightarrow> 2 * (n - q) + 1
   | Yielding q b \<Rightarrow> 2 * (n - q)
   | Parked q g \<Rightarrow> 2 * (n - q) + 2)"

inductive_cases follow_own_TopE: "follow_own view (s, Top q, ys) c"
inductive_cases follow_own_YieldE: "follow_own view (s, Yielding q xs, ys) c"
inductive_cases follow_own_ParkedE: "follow_own view (s, Parked q g, ys) c"
inductive_cases follow_own_LeftE: "follow_own view (s, Left, ys) c"
inductive_cases follow_ownE: "follow_own view c c'"
inductive_cases follow_stepE: "follow_step view change c c'"

section \<open>The log as a list\<close>

text \<open>A log retains the last \<open>cap\<close> of all entries, under their positions.\<close>

definition retains :: "nat \<Rightarrow> 'e list \<Rightarrow> nat \<Rightarrow> 'e list \<Rightarrow> bool" where
  "retains cap h base es \<longleftrightarrow> base = length h - cap \<and> es = drop base h"

lemma retains_empty: "retains cap [] 0 []"
  by (simp add: retains_def)

lemma retains_snoc:
  assumes "retains cap h base es"
  shows "retains cap (h @ [e]) (base + (length (es @ [e]) - cap)) (drop (length (es @ [e]) - cap) (es @ [e]))"
proof -
  from assms have es: "es = drop base h" and base: "base = length h - cap" by (simp_all add: retains_def)
  have all: "es @ [e] = drop base (h @ [e])" using es base by simp
  have "base + (length (es @ [e]) - cap) = length (h @ [e]) - cap" using es base by auto
  moreover have "drop (length (es @ [e]) - cap) (es @ [e]) = drop (base + (length (es @ [e]) - cap)) (h @ [e])"
    by (subst (2) all) (simp only: drop_drop add.commute)
  ultimately show ?thesis by (simp only: retains_def)
qed

lemma log_append_simps [simp]:
  "lg_base (log_append cap e b) = lg_base b + (length (lg_events b @ [e]) - cap)"
  "lg_events (log_append cap e b) = drop (length (lg_events b @ [e]) - cap) (lg_events b @ [e])"
  "lg_gen (log_append cap e b) = lg_gen b + 1"
  "lg_finished (log_append cap e b) = lg_finished b"
  by (auto simp: log_append_def Let_def log_wake_def)

lemma log_append_base_mono: "lg_base b \<le> lg_base (log_append cap e b)"
  by simp

lemma log_finish_simps [simp]:
  "lg_base (log_finish b) = lg_base b" "lg_events (log_finish b) = lg_events b"
  "lg_gen (log_finish b) = lg_gen b + 1" "lg_finished (log_finish b)"
  by (simp_all add: log_finish_def log_wake_def)

lemma log_append_retains:
  "retains cap h (lg_base b) (lg_events b) \<Longrightarrow>
   retains cap (h @ [e]) (lg_base (log_append cap e b)) (lg_events (log_append cap e b))"
  by (simp only: log_append_simps retains_snoc)

lemma log_appends_retain:
  "retains cap h (lg_base b) (lg_events b) \<Longrightarrow>
   retains cap (h @ evs) (lg_base (foldl (\<lambda>b e. log_append cap e b) b evs))
     (lg_events (foldl (\<lambda>b e. log_append cap e b) b evs))"
proof (induction evs arbitrary: b h)
  case (Cons e evs)
  from Cons.IH[OF log_append_retains[OF Cons.prems, of e]] show ?case by simp
qed simp

section \<open>The interface of a followed log\<close>

text \<open>
  What the reader relies on: the retained entries are a suffix of the history (\<open>window\<close>), the
  history only grows and the log stays good (\<open>grows\<close>), and whatever adds an entry or ends the log
  wakes the parked readers (\<open>wakes\<close>). An ended log stays ended.
\<close>

locale followed_log =
  fixes hist :: "'s \<Rightarrow> 'e list"
    and view :: "'s \<Rightarrow> 'e log_view"
    and good :: "'s \<Rightarrow> bool"
    and change :: "'s \<Rightarrow> 's \<Rightarrow> bool"
  assumes window: "good s \<Longrightarrow> lv_base (view s) \<le> length (hist s) \<and>
      lv_events (view s) = drop (lv_base (view s)) (hist s)"
    and grows: "good s \<Longrightarrow> change s s' \<Longrightarrow>
      good s' \<and> (\<exists>h. hist s' = hist s @ h) \<and> lv_base (view s) \<le> lv_base (view s')"
    and wakes: "good s \<Longrightarrow> change s s' \<Longrightarrow>
      lv_gen (view s) < lv_gen (view s') \<or>
      lv_gen (view s) = lv_gen (view s') \<and> hist s' = hist s \<and> (lv_over (view s') \<longrightarrow> lv_over (view s))"
begin

text \<open>
  A reader that started at \<open>from\<close> and will read \<open>q\<close> next was given increasing positions of the
  history below \<open>q\<close>; any position it was not given is evicted.
\<close>

definition delivered :: "nat \<Rightarrow> 's \<Rightarrow> nat \<Rightarrow> (nat \<times> 'e) list \<Rightarrow> bool" where
  "delivered from s q ys \<longleftrightarrow> from \<le> q \<and> q \<le> max from (length (hist s)) \<and> (\<forall>p\<in>set ys. fst p < q) \<and>
     (\<forall>i. from \<le> i \<longrightarrow> i < q \<longrightarrow> i \<notin> fst ` set ys \<longrightarrow> i < lv_base (view s))"

definition truthful :: "nat \<Rightarrow> 's \<Rightarrow> (nat \<times> 'e) list \<Rightarrow> bool" where
  "truthful from s ys \<longleftrightarrow> sorted_wrt (<) (map fst ys) \<and>
     (\<forall>p\<in>set ys. from \<le> fst p \<and> fst p < length (hist s) \<and> hist s ! fst p = snd p)"

fun placed :: "nat \<Rightarrow> 's \<Rightarrow> 'e follower \<Rightarrow> (nat \<times> 'e) list \<Rightarrow> bool" where
  "placed from s (Top q) ys \<longleftrightarrow> delivered from s q ys"
| "placed from s (Yielding q b) ys \<longleftrightarrow> delivered from s q ys \<and> b \<noteq> [] \<and>
     q + length b \<le> length (hist s) \<and> b = take (length b) (drop q (hist s))"
| "placed from s (Parked q g) ys \<longleftrightarrow> delivered from s q ys \<and> g \<le> lv_gen (view s) \<and>
     (g = lv_gen (view s) \<longrightarrow> length (hist s) \<le> q \<and> \<not> lv_over (view s))"
| "placed from s Left ys \<longleftrightarrow> True"

definition follow_inv :: "nat \<Rightarrow> 's \<times> 'e follower \<times> (nat \<times> 'e) list \<Rightarrow> bool" where
  "follow_inv from c \<longleftrightarrow> (case c of (s, f, ys) \<Rightarrow> good s \<and> truthful from s ys \<and> placed from s f ys)"

lemma delivered_change:
  assumes "good s" and "change s s'" and "delivered from s q ys"
  shows "delivered from s' q ys"
proof -
  obtain h where "hist s' = hist s @ h" "lv_base (view s) \<le> lv_base (view s')"
    using grows[OF assms(1,2)] by blast
  with assms(3) show ?thesis unfolding delivered_def by fastforce
qed

lemma truthful_change:
  assumes "good s" and "change s s'" and "truthful from s ys"
  shows "truthful from s' ys"
proof -
  obtain h where "hist s' = hist s @ h" using grows[OF assms(1,2)] by blast
  with assms(3) show ?thesis unfolding truthful_def by (auto simp: nth_append)
qed

lemma placed_change:
  assumes "good s" and "change s s'" and "placed from s f ys"
  shows "placed from s' f ys"
proof (cases f)
  case (Yielding q b)
  obtain h where h: "hist s' = hist s @ h" using grows[OF assms(1,2)] by blast
  with assms(3) Yielding delivered_change[OF assms(1,2)] show ?thesis by (auto simp: drop_append)
next
  case (Parked q g)
  with assms(3) wakes[OF assms(1,2)] delivered_change[OF assms(1,2)] show ?thesis by auto
qed (use assms delivered_change[OF assms(1,2)] in auto)

lemma placed_top:
  assumes "good s" and "delivered from s q ys"
  shows "placed from s (follow_top (view s) q) ys"
proof -
  let ?b = "lv_base (view s)" and ?q = "max q (lv_base (view s))"
  have win: "?b \<le> length (hist s)" "lv_events (view s) = drop ?b (hist s)"
    using window[OF assms(1)] by auto
  have del: "delivered from s ?q ys"
    unfolding delivered_def
  proof (intro conjI allI impI ballI)
    fix i assume i: "from \<le> i" "i < ?q" "i \<notin> fst ` set ys"
    then consider "i < q" | "i < ?b" by linarith
    then show "i < ?b" using assms(2) i unfolding delivered_def by cases auto
  qed (use assms(2) win(1) in \<open>auto simp: delivered_def\<close>)
  have rest: "drop (?q - ?b) (lv_events (view s)) = drop ?q (hist s)" using win(2) by simp
  show ?thesis
  proof (cases "?q - ?b < length (lv_events (view s))")
    case True
    then have "?q < length (hist s)" using win by auto
    with del rest True show ?thesis by (auto simp: follow_top_def Let_def)
  next
    case False
    then have "length (hist s) \<le> ?q" using win by auto
    with del False show ?thesis by (auto simp: follow_top_def Let_def)
  qed
qed

lemma hand_over:
  assumes "delivered from s q ys" and "truthful from s ys" and "q + length (x # xs) \<le> length (hist s)"
    and "x # xs = take (length (x # xs)) (drop q (hist s))"
  shows "truthful from s (ys @ [(q, x)])" and "delivered from s (Suc q) (ys @ [(q, x)])"
    and "xs = take (length xs) (drop (Suc q) (hist s))"
proof -
  have q: "q < length (hist s)" using assms(3) by simp
  then have d: "drop q (hist s) = hist s ! q # drop (Suc q) (hist s)" by (rule Cons_nth_drop_Suc[symmetric])
  then have x: "x = hist s ! q" and "xs = take (length xs) (drop (Suc q) (hist s))"
    using assms(4) by auto
  then show "xs = take (length xs) (drop (Suc q) (hist s))" by simp
  show "truthful from s (ys @ [(q, x)])"
    using assms(1,2) x q by (auto simp: truthful_def delivered_def sorted_wrt_append)
  show "delivered from s (Suc q) (ys @ [(q, x)])"
    using assms(1) q unfolding delivered_def by (auto simp: less_Suc_eq)
qed

lemma follow_next_placed:
  "delivered from s q ys \<Longrightarrow> q + length xs \<le> length (hist s) \<Longrightarrow> xs = take (length xs) (drop q (hist s)) \<Longrightarrow>
   placed from s (follow_next q xs) ys"
  by (cases xs) (simp_all only: follow_next.simps placed.simps, simp_all)

lemma follow_own_inv:
  assumes "follow_own view c c'" and "follow_inv from c"
  shows "follow_inv from c'"
  using assms
proof (cases rule: follow_own.cases)
  case (look s q ys)
  with assms(2) placed_top show ?thesis by (auto simp: follow_inv_def)
next
  case (hand s q x xs ys)
  with assms(2) have "delivered from s q ys" "truthful from s ys" "q + length (x # xs) \<le> length (hist s)"
    "x # xs = take (length (x # xs)) (drop q (hist s))" by (auto simp: follow_inv_def)
  from hand_over[OF this] this(3) hand assms(2) show ?thesis
    by (auto simp: follow_inv_def intro!: follow_next_placed)
next
  case (wake s g q ys)
  with assms(2) show ?thesis by (auto simp: follow_inv_def)
qed

lemma follow_step_inv:
  assumes "follow_step view change c c'" and "follow_inv from c"
  shows "follow_inv from c'"
  using assms
proof (cases rule: follow_step.cases)
  case own
  then show ?thesis using follow_own_inv assms(2) by blast
next
  case (other s s' f ys)
  with assms(2) show ?thesis
    using grows truthful_change placed_change by (fastforce simp: follow_inv_def)
next
  case (stop s q x xs ys)
  with assms(2) have "delivered from s q ys" "truthful from s ys" "q + length (x # xs) \<le> length (hist s)"
    "x # xs = take (length (x # xs)) (drop q (hist s))" by (auto simp: follow_inv_def)
  from hand_over(1)[OF this] stop assms(2) show ?thesis by (simp add: follow_inv_def)
next
  case (cancel s q g ys)
  with assms(2) show ?thesis by (simp add: follow_inv_def)
qed

lemma follow_reach_inv:
  assumes "(follow_step view change)\<^sup>*\<^sup>* (s, Top from, []) c" and "good s"
  shows "follow_inv from c"
  using assms(1)
proof (induction rule: rtranclp_induct)
  case base
  then show ?case using assms(2) by (simp add: follow_inv_def truthful_def delivered_def)
next
  case (step c c')
  then show ?case using follow_step_inv by blast
qed

text \<open>Once the log is over the reader, left to itself, hands out the rest and returns.\<close>

definition complete :: "nat \<Rightarrow> 's \<Rightarrow> (nat \<times> 'e) list \<Rightarrow> bool" where
  "complete from s ys \<longleftrightarrow> truthful from s ys \<and>
     (\<forall>i. from \<le> i \<longrightarrow> i < length (hist s) \<longrightarrow> lv_base (view s) \<le> i \<longrightarrow> (i, hist s ! i) \<in> set ys)"

lemma complete_at_end:
  assumes "truthful from s ys" and "delivered from s q ys" and "length (hist s) \<le> q"
  shows "complete from s ys"
  unfolding complete_def
proof (intro conjI allI impI)
  fix i assume i: "from \<le> i" "i < length (hist s)" "lv_base (view s) \<le> i"
  then have "i \<in> fst ` set ys" using assms(2,3) unfolding delivered_def by fastforce
  then obtain e where "(i, e) \<in> set ys" by auto
  with assms(1) show "(i, hist s ! i) \<in> set ys" unfolding truthful_def by fastforce
qed (rule assms(1))

lemma hand_out:
  assumes "good s" and "follow_inv from (s, Yielding q b, ys)"
  shows "\<exists>ys'. (follow_own view)\<^sup>*\<^sup>* (s, Yielding q b, ys) (s, Top (q + length b), ys') \<and>
    follow_inv from (s, Top (q + length b), ys')"
  using assms(2)
proof (induction b arbitrary: q ys)
  case Nil
  then show ?case by (simp add: follow_inv_def)
next
  case (Cons x xs)
  have step: "follow_own view (s, Yielding q (x # xs), ys) (s, follow_next (Suc q) xs, ys @ [(q, x)])"
    by (rule follow_own.hand)
  note inv = follow_own_inv[OF step Cons.prems]
  show ?case
  proof (cases xs)
    case Nil
    with step inv show ?thesis by auto
  next
    case (Cons y zs)
    then have nxt: "follow_next (Suc q) xs = Yielding (Suc q) xs" by simp
    from Cons.IH[of "Suc q" "ys @ [(q, x)]"] inv nxt step show ?thesis
      by (auto intro: converse_rtranclp_into_rtranclp)
  qed
qed

lemma follow_finishes:
  assumes "follow_inv from (s, f, ys)" and "f \<noteq> Left" and "lv_over (view s)"
  shows "\<exists>ys'. (follow_own view)\<^sup>*\<^sup>* (s, f, ys) (s, Left, ys') \<and> complete from s ys'"
proof -
  have good: "good s" using assms(1) by (simp add: follow_inv_def)
  have bottom: "\<exists>ys'. (follow_own view)\<^sup>*\<^sup>* (s, Top q, zs) (s, Left, ys') \<and> complete from s ys'"
    if "follow_inv from (s, Top q, zs)" "length (hist s) \<le> q" for q zs
  proof -
    have "follow_top (view s) q = Left"
      using window[OF good] that(2) assms(3) by (auto simp: follow_top_def Let_def)
    then have "follow_own view (s, Top q, zs) (s, Left, zs)"
      using follow_own.look[of view s q zs] by simp
    moreover have "complete from s zs"
      using that by (auto simp: follow_inv_def intro: complete_at_end)
    ultimately show ?thesis by blast
  qed
  have from_yield: "\<exists>ys'. (follow_own view)\<^sup>*\<^sup>* (s, Yielding q b, zs) (s, Left, ys') \<and> complete from s ys'"
    if "follow_inv from (s, Yielding q b, zs)" "length (hist s) \<le> q + length b" for q b zs
    using hand_out[OF good that(1)] bottom that(2) by (meson rtranclp_trans)
  have from_top: "\<exists>ys'. (follow_own view)\<^sup>*\<^sup>* (s, Top q, zs) (s, Left, ys') \<and> complete from s ys'"
    if inv: "follow_inv from (s, Top q, zs)" for q zs
  proof (cases "length (hist s) \<le> q")
    case True
    with bottom inv show ?thesis by blast
  next
    case False
    let ?q = "max q (lv_base (view s))"
    have step: "follow_own view (s, Top q, zs) (s, follow_top (view s) q, zs)" by (rule follow_own.look)
    show ?thesis
    proof (cases "?q < length (hist s)")
      case True
      then have f: "follow_top (view s) q = Yielding ?q (drop ?q (hist s))"
        using window[OF good] by (auto simp: follow_top_def Let_def)
      have "length (hist s) \<le> ?q + length (drop ?q (hist s))" by simp
      from from_yield[OF follow_own_inv[OF step inv, unfolded f] this] step[unfolded f] show ?thesis
        by (meson converse_rtranclp_into_rtranclp)
    next
      case past: False
      then have f: "follow_top (view s) q = Left"
        using window[OF good] assms(3) by (auto simp: follow_top_def Let_def)
      have "complete from s zs"
        unfolding complete_def
      proof (intro conjI allI impI)
        show "truthful from s zs" using inv by (simp add: follow_inv_def)
        fix i assume i: "from \<le> i" "i < length (hist s)" "lv_base (view s) \<le> i"
        with past False show "(i, hist s ! i) \<in> set zs" using window[OF good] by auto
      qed
      with step f show ?thesis by auto
    qed
  qed
  show ?thesis
  proof (cases f)
    case (Top q)
    with from_top assms(1) show ?thesis by blast
  next
    case (Parked q g)
    then have "lv_gen (view s) \<noteq> g" using assms(1,3) by (auto simp: follow_inv_def)
    then have step: "follow_own view (s, Parked q g, ys) (s, Top q, ys)" by (rule follow_own.wake)
    have "follow_inv from (s, Top q, ys)" using assms(1) Parked by (simp add: follow_inv_def)
    from from_top[OF this] step Parked show ?thesis by (auto intro: converse_rtranclp_into_rtranclp)
  next
    case (Yielding q b)
    from hand_out[OF good assms(1)[unfolded Yielding]] obtain zs where
      zs: "(follow_own view)\<^sup>*\<^sup>* (s, Yielding q b, ys) (s, Top (q + length b), zs)"
      "follow_inv from (s, Top (q + length b), zs)" by blast
    from from_top[OF zs(2)] zs(1) Yielding show ?thesis by (meson rtranclp_trans)
  qed (use assms(2) in simp)
qed

lemma follow_own_decreases:
  assumes "follow_own view (s, f, ys) (s', f', ys')" and "follow_inv from (s, f, ys)" and "lv_over (view s)"
  shows "follow_left (length (hist s')) f' < follow_left (length (hist s)) f"
  using assms
proof (cases rule: follow_own.cases)
  case (look q)
  with assms(2,3) window[of s] show ?thesis
    by (auto simp: follow_top_def Let_def follow_left_def follow_inv_def)
next
  case (hand q x xs)
  with assms(2) show ?thesis by (cases xs) (auto simp: follow_left_def follow_inv_def)
next
  case (wake g q)
  then show ?thesis by (simp add: follow_left_def)
qed

end

section \<open>A buffered run\<close>

text \<open>
  The producer of \<^verbatim>\<open>drain\<close>, with the list of everything it has produced as a ghost first component.
\<close>

inductive buffer_change :: "nat \<Rightarrow> 'e list \<times> 'e event_log \<Rightarrow> 'e list \<times> 'e event_log \<Rightarrow> bool" for cap where
  produce: "\<not> lg_finished b \<Longrightarrow> buffer_change cap (h, b) (h @ [e], log_append cap e b)"
| finish: "buffer_change cap (h, b) (h, log_finish b)"

definition buffer_good :: "nat \<Rightarrow> 'e list \<times> 'e event_log \<Rightarrow> bool" where
  "buffer_good cap s \<longleftrightarrow> retains cap (fst s) (lg_base (snd s)) (lg_events (snd s))"

definition buffer_view :: "'e list \<times> 'e event_log \<Rightarrow> 'e log_view" where
  "buffer_view s = log_view_of (snd s)"

lemma buffer_followed: "followed_log fst buffer_view (buffer_good cap) (buffer_change cap)"
proof
  fix s :: "'e list \<times> 'e event_log"
  assume "buffer_good cap s"
  then show "lv_base (buffer_view s) \<le> length (fst s) \<and>
      lv_events (buffer_view s) = drop (lv_base (buffer_view s)) (fst s)"
    by (simp add: buffer_good_def retains_def buffer_view_def log_view_of_def)
next
  fix s s' :: "'e list \<times> 'e event_log"
  assume "buffer_good cap s" "buffer_change cap s s'"
  then show "buffer_good cap s' \<and> (\<exists>h. fst s' = fst s @ h) \<and> lv_base (buffer_view s) \<le> lv_base (buffer_view s')"
    using log_append_retains[of cap] log_append_base_mono
    by (auto simp: buffer_change.simps buffer_good_def buffer_view_def log_view_of_def
        simp del: log_append_simps(1,2))
next
  fix s s' :: "'e list \<times> 'e event_log"
  assume "buffer_change cap s s'"
  then show "lv_gen (buffer_view s) < lv_gen (buffer_view s') \<or>
      lv_gen (buffer_view s) = lv_gen (buffer_view s') \<and> fst s' = fst s \<and>
      (lv_over (buffer_view s') \<longrightarrow> lv_over (buffer_view s))"
    by (auto simp: buffer_change.simps buffer_view_def log_view_of_def)
qed

interpretation buffered: followed_log fst buffer_view "buffer_good buffer_cap" "buffer_change buffer_cap"
  by (rule buffer_followed)

lemma buffer_good_empty: "buffer_good cap ([], empty_log)"
  by (simp add: buffer_good_def empty_log_def retains_empty)

section \<open>Properties\<close>

text \<open>C11: The bounded log refines the list of all events: after draining a run of any length its base
  and its contents are those of the last 8192 events at their positions, its length counts every event
  ever produced, and no event still retained has changed its number.\<close>

theorem buffered_log_refines_history:
  "let b = log_drain buffer_cap evs empty_log in
   lg_base b = length evs - buffer_cap \<and> lg_events b = drop (length evs - buffer_cap) evs \<and>
   log_len b = length evs \<and> lg_finished b \<and>
   list_all (\<lambda>i. lg_events b ! (i - lg_base b) = evs ! i) [lg_base b..<length evs]"
proof -
  have "retains buffer_cap evs (lg_base (log_drain buffer_cap evs empty_log))
      (lg_events (log_drain buffer_cap evs empty_log))"
    using log_appends_retain[of buffer_cap "[]" empty_log evs]
    by (simp add: log_drain_def empty_log_def retains_empty)
  then show ?thesis
    by (auto simp: Let_def retains_def log_len_def log_drain_def list_all_iff)
qed

text \<open>A reader of a buffered run is never lied to: in every interleaving with the producer, with
  other readers and with its own client going away, what it has been given are events of the run under
  their own positions, in strictly increasing order from where it asked, and a position it was passed
  over has been evicted.\<close>

theorem follower_sees_history:
  assumes "(follow_step buffer_view (buffer_change buffer_cap))\<^sup>*\<^sup>* (([], empty_log), follow_start from, [])
      ((h, b), f, ys)"
  shows "sorted_wrt (<) (map fst ys) \<and>
    (\<forall>(i, e)\<in>set ys. nat from \<le> i \<and> i < length h \<and> h ! i = e) \<and>
    (\<forall>q. f = Top q \<longrightarrow> (\<forall>i. nat from \<le> i \<and> i < q \<and> i \<notin> fst ` set ys \<longrightarrow> i < lg_base b))"
proof -
  have "buffered.follow_inv (nat from) ((h, b), f, ys)"
    using buffered.follow_reach_inv[OF assms[unfolded follow_start_def] buffer_good_empty] .
  then show ?thesis
    by (auto simp: buffered.follow_inv_def buffered.truthful_def buffered.delivered_def buffer_view_def
        log_view_of_def)
qed

definition one_event_log :: "nat event_log" where
  "one_event_log = log_finish (log_append buffer_cap 7 empty_log)"

lemma one_event_trace:
  "(follow_step buffer_view (buffer_change buffer_cap))\<^sup>*\<^sup>* (([], empty_log), follow_start 0, [])
     (([7], one_event_log), Top 1, [(0, 7)])"
proof -
  let ?step = "follow_step buffer_view (buffer_change buffer_cap)"
  let ?b = "log_append buffer_cap (7 :: nat) empty_log"
  have "?step (([], empty_log), Top 0, []) (([7], ?b), Top 0, [])"
    using buffer_change.produce[of empty_log buffer_cap "[]" 7] by (auto intro: follow_step.other simp: empty_log_def)
  moreover have "follow_top (buffer_view ([7], ?b)) 0 = Yielding 0 [7]"
    by (simp add: follow_top_def buffer_view_def log_view_of_def empty_log_def buffer_cap_def)
  then have "?step (([7], ?b), Top 0, []) (([7], ?b), Yielding 0 [7], [])"
    using follow_own.look[of buffer_view "([7], ?b)" 0 "[]"] by (auto intro: follow_step.own)
  moreover have "?step (([7], ?b), Yielding 0 [7], []) (([7], ?b), Top 1, [(0, 7)])"
    using follow_own.hand[of buffer_view "([7], ?b)" 0 7 "[]" "[]"] by (auto intro: follow_step.own)
  moreover have "?step (([7], ?b), Top 1, [(0, 7)]) (([7], one_event_log), Top 1, [(0, 7)])"
    unfolding one_event_log_def by (intro follow_step.other buffer_change.finish)
  ultimately show ?thesis
    by (auto simp: follow_start_def intro: converse_rtranclp_into_rtranclp)
qed

theorem follower_sees_history_witness:
  "sorted_wrt (<) (map fst [(0 :: nat, 7 :: nat)]) \<and> (0 :: nat) < 1 \<and> [7 :: nat] ! 0 = 7"
  using follower_sees_history[OF one_event_trace] by simp

text \<open>No wake-up is lost: once the run is over, a reader that has not returned can always move,
  its own steps are bounded, and left to itself it returns having been given every event that was
  retained from where it asked to the very end.\<close>

theorem follower_drains_ended_run:
  assumes "(follow_step buffer_view (buffer_change buffer_cap))\<^sup>*\<^sup>* (([], empty_log), follow_start from, [])
      ((h, b), f, ys)" and "lg_finished b" and "f \<noteq> Left"
  shows "(\<forall>c. follow_own buffer_view ((h, b), f, ys) ((h, b), c) \<longrightarrow>
      follow_left (length h) (fst c) < follow_left (length h) f) \<and>
    (\<exists>ys'. (follow_own buffer_view)\<^sup>*\<^sup>* ((h, b), f, ys) ((h, b), Left, ys') \<and>
      (\<forall>i\<in>{max (nat from) (lg_base b)..<length h}. (i, h ! i) \<in> set ys'))"
proof -
  have inv: "buffered.follow_inv (nat from) ((h, b), f, ys)"
    using buffered.follow_reach_inv[OF assms(1)[unfolded follow_start_def] buffer_good_empty] .
  have over: "lv_over (buffer_view (h, b))" using assms(2) by (simp add: buffer_view_def log_view_of_def)
  obtain ys' where "(follow_own buffer_view)\<^sup>*\<^sup>* ((h, b), f, ys) ((h, b), Left, ys')"
    "buffered.complete (nat from) (h, b) ys'"
    using buffered.follow_finishes[OF inv assms(3) over] by blast
  moreover have "\<forall>c. follow_own buffer_view ((h, b), f, ys) ((h, b), c) \<longrightarrow>
      follow_left (length h) (fst c) < follow_left (length h) f"
    using buffered.follow_own_decreases[OF _ inv over] by (metis prod.collapse fst_conv)
  ultimately show ?thesis
    by (auto simp: buffered.complete_def buffer_view_def log_view_of_def)
qed

theorem follower_drains_ended_run_witness:
  "\<exists>ys'. (follow_own buffer_view)\<^sup>*\<^sup>* (([7], one_event_log), Top 1, [(0, 7)]) (([7], one_event_log), Left, ys') \<and>
     (0, 7) \<in> set ys'"
proof -
  have "lg_finished one_event_log" "lg_base one_event_log = 0"
    by (simp_all add: one_event_log_def empty_log_def buffer_cap_def)
  with follower_drains_ended_run[OF one_event_trace] show ?thesis by auto
qed

end
