(* ===== verification/Session.thy ===== *)
theory Session
  imports AgentLoop Approvals EventLog
begin

text \<open>
  A conversation held over many runs (\<^verbatim>\<open>httpapi/session.go\<close>, the data of \<^verbatim>\<open>httpapi/httpapi.go\<close> and
  \<^verbatim>\<open>httpapi/events.go\<close>): sending a prompt, pumping a run's events into the session log, recording
  how the turn ended, cancelling and closing. One definition per critical section of the code; the
  step relation interleaves them with the run of the agent loop that a turn starts. The text of an
  error value is the parameter \<open>etext\<close>; the clock is an argument. JSON of frames, logging and the
  HTTP handlers are not modelled.
\<close>

section \<open>State\<close>

datatype session_state = StIdle | StRunning | StWaiting | StApproving | StDone | StFailed

record spend =
  sp_cost_usd :: real
  sp_input :: int
  sp_output :: int
  sp_cache_read :: int
  sp_calls :: int
  sp_elapsed :: int

definition zero_spend :: spend where
  "zero_spend = \<lparr>sp_cost_usd = 0, sp_input = 0, sp_output = 0, sp_cache_read = 0, sp_calls = 0, sp_elapsed = 0\<rparr>"

definition spend_add :: "spend \<Rightarrow> spend \<Rightarrow> spend" where
  "spend_add s p = \<lparr>sp_cost_usd = sp_cost_usd s + sp_cost_usd p, sp_input = sp_input s + sp_input p,
     sp_output = sp_output s + sp_output p, sp_cache_read = sp_cache_read s + sp_cache_read p,
     sp_calls = sp_calls s + sp_calls p, sp_elapsed = sp_elapsed s + sp_elapsed p\<rparr>"

text \<open>The elapsed time is kept in the clock's unit; the code divides it into seconds.\<close>

definition turn_spend :: "int \<Rightarrow> budget \<Rightarrow> spend" where
  "turn_spend now b = (let p = progress_of now b in
     \<lparr>sp_cost_usd = p_cost_usd p, sp_input = t_in (p_tokens p), sp_output = t_out (p_tokens p),
      sp_cache_read = t_cache_read (p_tokens p), sp_calls = p_calls p, sp_elapsed = p_elapsed p\<rparr>)"

record turn_end =
  te_turn :: nat
  te_state :: session_state
  te_outcome :: string
  te_answer :: string
  te_question :: string
  te_tool :: string
  te_error :: string
  te_error_kind :: string
  te_spend :: spend

datatype 'e session_event = TurnStarted nat string | TurnEnded turn_end | RunEvent 'e

record 'e frame =
  fr_seq :: nat
  fr_turn :: nat
  fr_event :: "'e session_event"

text \<open>
  \<open>se_cancel\<close> is the cancel function of the turn in flight: absent between turns, otherwise whether it
  has been called.
\<close>

record 'e session =
  se_cap :: nat
  se_approvals :: approvals
  se_state :: session_state
  se_turns :: nat
  se_updated :: int
  se_closed :: bool
  se_frames :: "'e frame list"
  se_base :: nat
  se_gen :: nat
  se_msgs :: convo
  se_spend :: spend
  se_outcome :: string
  se_answer :: string
  se_err_text :: string
  se_err_kind :: string
  se_pause_id :: tool_use_id
  se_cancel :: "bool option"

definition new_session :: "nat \<Rightarrow> int \<Rightarrow> 'e session" where
  "new_session cap now = \<lparr>se_cap = cap, se_approvals = new_approvals, se_state = StIdle, se_turns = 0,
     se_updated = now, se_closed = False, se_frames = [], se_base = 0, se_gen = 0, se_msgs = [],
     se_spend = zero_spend, se_outcome = [], se_answer = [], se_err_text = [], se_err_kind = [],
     se_pause_id = [], se_cancel = None\<rparr>"

definition ErrBusy :: err where
  [sentinel_defs]: "ErrBusy = Sentinel ''httpapi: a turn is already running''"
definition ErrNoSuchSession :: err where
  [sentinel_defs]: "ErrNoSuchSession = Sentinel ''httpapi: no such session''"
definition ErrDone :: err where
  [sentinel_defs]: "ErrDone = Sentinel ''httpapi: the session has finished''"

section \<open>The log\<close>

definition session_wake :: "'e session \<Rightarrow> 'e session" where
  "session_wake s = s\<lparr>se_gen := se_gen s + 1\<rparr>"

definition next_frame :: "nat \<Rightarrow> 'e session_event \<Rightarrow> 'e session \<Rightarrow> 'e frame" where
  "next_frame turn ev s = \<lparr>fr_seq = se_base s + length (se_frames s), fr_turn = turn, fr_event = ev\<rparr>"

definition emit_locked :: "nat \<Rightarrow> 'e session_event \<Rightarrow> int \<Rightarrow> 'e session \<Rightarrow> 'e session" where
  "emit_locked turn ev now s =
     (if se_closed s then s
      else
        (let s = s\<lparr>se_frames := se_frames s @ [next_frame turn ev s]\<rparr>;
             over = length (se_frames s) - se_cap s;
             s = (if over > 0
                  then s\<lparr>se_frames := drop over (se_frames s), se_base := se_base s + over\<rparr> else s)
         in session_wake (s\<lparr>se_updated := now\<rparr>)))"

definition session_view :: "'e session \<Rightarrow> 'e frame log_view" where
  "session_view s = \<lparr>lv_base = se_base s, lv_events = se_frames s,
     lv_over = (se_closed s \<or> se_state s = StDone), lv_gen = se_gen s\<rparr>"

section \<open>Turns\<close>

definition session_send :: "string \<Rightarrow> int \<Rightarrow> 'e session \<Rightarrow> (err + nat \<times> convo) \<times> 'e session" where
  "session_send prompt now s =
     (if se_closed s then (Inl ErrNoSuchSession, s)
      else if se_cancel s \<noteq> None then (Inl ErrBusy, s)
      else if se_state s = StDone then (Inl ErrDone, s)
      else
        (let turn = se_turns s + 1;
             inp = (if turn = 1 then ask_input prompt
                    else if se_pause_id s \<noteq> [] then answer_pause (se_msgs s) (se_pause_id s) prompt
                    else then_instruction (se_msgs s) prompt);
             s = s\<lparr>se_turns := turn, se_state := StRunning, se_cancel := Some False, se_pause_id := [],
                   se_outcome := [], se_answer := [], se_err_text := [], se_err_kind := []\<rparr>
         in (Inr (turn, inp), emit_locked turn (TurnStarted turn prompt) now s)))"

definition error_kind :: "err option \<Rightarrow> string" where
  "error_kind e = (case e of
     None \<Rightarrow> []
   | Some e \<Rightarrow>
       if errors_is e ErrBudgetExhausted then ''budget_exhausted''
       else if errors_is e ErrToolLoop then ''tool_loop''
       else if errors_is e ErrMaxIterations \<or> errors_is e ErrStepLimit then ''max_iterations''
       else if errors_is e ErrDenied then ''denied''
       else if errors_is e ErrTimeout \<or> errors_is e ErrDeadlineExceeded \<or> errors_is e ErrWallClock
         then ''timeout''
       else if errors_is e ErrCanceled then ''cancelled''
       else if errors_is e ErrContextWindow then ''context_window''
       else ''error'')"

definition error_text :: "(err \<Rightarrow> string) \<Rightarrow> err option \<Rightarrow> string" where
  "error_text etext e = (case e of None \<Rightarrow> ''the turn produced no outcome'' | Some e \<Rightarrow> etext e)"

text \<open>The end of a turn as \<^verbatim>\<open>pump\<close> builds it from the run's outcome and error.\<close>

definition turn_end_of :: "(err \<Rightarrow> string) \<Rightarrow> nat \<Rightarrow> spend \<Rightarrow> outcome option \<Rightarrow> err option \<Rightarrow> turn_end" where
  "turn_end_of etext turn sp oc e =
     (let te = \<lparr>te_turn = turn, te_state = StIdle, te_outcome = [], te_answer = [], te_question = [],
                te_tool = [], te_error = [], te_error_kind = [], te_spend = sp\<rparr>
      in case oc of
        Some (Answer t) \<Rightarrow> te\<lparr>te_state := StIdle, te_outcome := ''answer'', te_answer := t\<rparr>
      | Some (Paused i sch) \<Rightarrow>
          te\<lparr>te_state := StWaiting, te_outcome := ''paused'', te_question := ps_question sch\<rparr>
      | Some (Submitted t p) \<Rightarrow>
          te\<lparr>te_state := StDone, te_outcome := ''submitted'', te_tool := t, te_answer := p\<rparr>
      | None \<Rightarrow> te\<lparr>te_state := StFailed, te_error := error_text etext e, te_error_kind := error_kind e\<rparr>)"

definition end_turn :: "nat \<Rightarrow> turn_end \<Rightarrow> outcome option \<Rightarrow> convo \<Rightarrow> int \<Rightarrow> 'e session \<Rightarrow> 'e session" where
  "end_turn turn te oc msgs now s =
     (let s = s\<lparr>se_msgs := msgs, se_spend := spend_add (se_spend s) (te_spend te), se_state := te_state te,
               se_outcome := te_outcome te,
               se_answer := (if te_question te \<noteq> [] then te_question te else te_answer te),
               se_err_text := te_error te, se_err_kind := te_error_kind te,
               se_pause_id := (case oc of Some (Paused i _) \<Rightarrow> i | _ \<Rightarrow> []), se_cancel := None\<rparr>
      in emit_locked turn (TurnEnded te) now s)"

section \<open>Answering, cancelling, closing\<close>

definition session_touch :: "int \<Rightarrow> 'e session \<Rightarrow> 'e session" where
  "session_touch now s = s\<lparr>se_updated := now\<rparr>"

definition session_resolve :: "tool_use_id \<Rightarrow> bool \<Rightarrow> int \<Rightarrow> 'e session \<Rightarrow> (err option \<times> 'e session) option" where
  "session_resolve i allow now s =
     (case aq_resolve i allow (se_approvals s) of
        None \<Rightarrow> None
      | Some (Some e, a) \<Rightarrow> Some (Some e, s\<lparr>se_approvals := a\<rparr>)
      | Some (None, a) \<Rightarrow> Some (None, session_touch now (s\<lparr>se_approvals := a\<rparr>)))"

definition cancel_turn :: "'e session \<Rightarrow> 'e session" where
  "cancel_turn s = s\<lparr>se_cancel := map_option (\<lambda>_. True) (se_cancel s)\<rparr>"

definition mark_closed :: "'e session \<Rightarrow> 'e session" where
  "mark_closed s = session_wake (s\<lparr>se_closed := True\<rparr>)"

definition session_cancel :: "'e session \<Rightarrow> 'e session option" where
  "session_cancel s = map_option (\<lambda>a. cancel_turn (s\<lparr>se_approvals := a\<rparr>)) (aq_deny (se_approvals s))"

definition session_close :: "'e session \<Rightarrow> 'e session option" where
  "session_close s =
     map_option (\<lambda>a. cancel_turn (mark_closed (s\<lparr>se_approvals := a\<rparr>))) (aq_close (se_approvals s))"

text \<open>The state shown to a client: running with a parked call is approving.\<close>

definition shown_state :: "'e session \<Rightarrow> session_state" where
  "shown_state s =
     (if se_state s = StRunning \<and> aq_count (se_approvals s) > 0 then StApproving else se_state s)"

definition session_events :: "'e session \<Rightarrow> nat" where
  "session_events s = se_base s + length (se_frames s)"

definition idle_since :: "'e session \<Rightarrow> int \<times> bool" where
  "idle_since s = (se_updated s, se_cancel s = None)"

section \<open>The session and its runs\<close>

text \<open>
  A state is the ghost history of frames, the session, the turn being pumped with the input its run
  was started on, and the world of the agent. A run is taken as one step, from any budget (its
  caller's context may have ended before or while it runs); its events are appended before.
\<close>

type_synonym ('e, 'w) session_system = "'e frame list \<times> 'e session \<times> (nat \<times> convo) option \<times> 'w"

definition logged :: "nat \<Rightarrow> 'e session_event \<Rightarrow> 'e session \<Rightarrow> 'e frame list" where
  "logged turn ev s = (if se_closed s then [] else [next_frame turn ev s])"

inductive session_step :: "'w agent \<Rightarrow> (err \<Rightarrow> string) \<Rightarrow> ('e, 'w) session_system \<Rightarrow> ('e, 'w) session_system \<Rightarrow> bool"
  for ag etext where
  send: "session_send prompt now s = (Inr (turn, inp), s') \<Longrightarrow>
    session_step ag etext (h, s, None, w)
      (h @ logged turn (TurnStarted turn prompt) s, s', Some (turn, inp), w)"
| event: "session_step ag etext (h, s, Some (turn, inp), w)
      (h @ logged turn (RunEvent e) s, emit_locked turn (RunEvent e) now s, Some (turn, inp), w)"
| ended: "run_agent ag inp (b, w) = (st, b', w') \<Longrightarrow>
    te = turn_end_of etext turn (turn_spend now b') (run_outcome st) (run_err st) \<Longrightarrow>
    session_step ag etext (h, s, Some (turn, inp), w)
      (h @ logged turn (TurnEnded te) s, end_turn turn te (run_outcome st) (run_convo st) now s, None, w')"
| park: "aq_register r reason now (se_approvals s) = (Inr k, a) \<Longrightarrow>
    session_step ag etext (h, s, p, w) (h, s\<lparr>se_approvals := a\<rparr>, p, w)"
| unpark: "session_step ag etext (h, s, p, w) (h, s\<lparr>se_approvals := aq_forget i k (se_approvals s)\<rparr>, p, w)"
| resolve: "session_resolve i allow now s = Some (e, s') \<Longrightarrow>
    session_step ag etext (h, s, p, w) (h, s', p, w)"
| deny: "aq_deny (se_approvals s) = Some a \<Longrightarrow>
    session_step ag etext (h, s, p, w) (h, s\<lparr>se_approvals := a\<rparr>, p, w)"
| close_queue: "aq_close (se_approvals s) = Some a \<Longrightarrow>
    session_step ag etext (h, s, p, w) (h, s\<lparr>se_approvals := a\<rparr>, p, w)"
| cancel: "session_step ag etext (h, s, p, w) (h, cancel_turn s, p, w)"
| closed: "session_step ag etext (h, s, p, w) (h, mark_closed s, p, w)"

inductive_cases session_stepE: "session_step ag etext c c'"

lemma emit_locked_fields [simp]:
  "se_cap (emit_locked t ev now s) = se_cap s"
  "se_approvals (emit_locked t ev now s) = se_approvals s"
  "se_state (emit_locked t ev now s) = se_state s"
  "se_turns (emit_locked t ev now s) = se_turns s"
  "se_closed (emit_locked t ev now s) = se_closed s"
  "se_msgs (emit_locked t ev now s) = se_msgs s"
  "se_pause_id (emit_locked t ev now s) = se_pause_id s"
  "se_cancel (emit_locked t ev now s) = se_cancel s"
  "se_spend (emit_locked t ev now s) = se_spend s"
  by (auto simp: emit_locked_def Let_def session_wake_def)

lemma emit_locked_log:
  "se_gen (emit_locked t ev now s) = (if se_closed s then se_gen s else se_gen s + 1)"
  "se_base (emit_locked t ev now s) = (if se_closed s then se_base s
     else se_base s + (length (se_frames s @ [next_frame t ev s]) - se_cap s))"
  "se_frames (emit_locked t ev now s) = (if se_closed s then se_frames s
     else drop (length (se_frames s @ [next_frame t ev s]) - se_cap s) (se_frames s @ [next_frame t ev s]))"
  by (auto simp: emit_locked_def Let_def session_wake_def)

lemma plain_fields [simp]:
  "se_cap (cancel_turn s) = se_cap s" "se_state (cancel_turn s) = se_state s"
  "se_turns (cancel_turn s) = se_turns s" "se_closed (cancel_turn s) = se_closed s"
  "se_frames (cancel_turn s) = se_frames s" "se_base (cancel_turn s) = se_base s"
  "se_gen (cancel_turn s) = se_gen s" "se_msgs (cancel_turn s) = se_msgs s"
  "se_pause_id (cancel_turn s) = se_pause_id s"
  "se_cancel (cancel_turn s) = None \<longleftrightarrow> se_cancel s = None"
  "se_cap (mark_closed s) = se_cap s" "se_state (mark_closed s) = se_state s"
  "se_turns (mark_closed s) = se_turns s" "se_closed (mark_closed s)"
  "se_frames (mark_closed s) = se_frames s" "se_base (mark_closed s) = se_base s"
  "se_gen (mark_closed s) = se_gen s + 1" "se_msgs (mark_closed s) = se_msgs s"
  "se_pause_id (mark_closed s) = se_pause_id s" "se_cancel (mark_closed s) = se_cancel s"
  by (simp_all add: cancel_turn_def mark_closed_def session_wake_def)

text \<open>What answering an approval leaves alone.\<close>

definition same_turn :: "'e session \<Rightarrow> 'e session \<Rightarrow> bool" where
  "same_turn s s' \<longleftrightarrow> se_cap s' = se_cap s \<and> se_state s' = se_state s \<and> se_turns s' = se_turns s \<and>
     se_closed s' = se_closed s \<and> se_frames s' = se_frames s \<and> se_base s' = se_base s \<and>
     se_gen s' = se_gen s \<and> se_msgs s' = se_msgs s \<and> se_pause_id s' = se_pause_id s \<and>
     se_cancel s' = se_cancel s"

lemma resolve_same_turn: "session_resolve i v now s = Some (e, s') \<Longrightarrow> same_turn s s'"
  by (auto simp: session_resolve_def session_touch_def same_turn_def split: option.splits)

lemma queue_same_turn [simp]: "same_turn s (s\<lparr>se_approvals := a\<rparr>)"
  by (simp add: same_turn_def)

lemma send_ok_iff:
  "session_send prompt now s = (Inr (turn, inp), s') \<longleftrightarrow>
     \<not> se_closed s \<and> se_cancel s = None \<and> se_state s \<noteq> StDone \<and> turn = se_turns s + 1 \<and>
     inp = (if turn = 1 then ask_input prompt
            else if se_pause_id s \<noteq> [] then answer_pause (se_msgs s) (se_pause_id s) prompt
            else then_instruction (se_msgs s) prompt) \<and>
     s' = emit_locked turn (TurnStarted turn prompt) now
       (s\<lparr>se_turns := turn, se_state := StRunning, se_cancel := Some False, se_pause_id := [],
          se_outcome := [], se_answer := [], se_err_text := [], se_err_kind := []\<rparr>)"
  by (auto simp: session_send_def Let_def)

section \<open>The invariant of a session\<close>

text \<open>
  The automaton of a session's log: the number of turns started and whether the last is still open.
  Every frame carries the number of its turn.
\<close>

fun log_scan :: "(nat \<times> bool) option \<Rightarrow> 'e frame \<Rightarrow> (nat \<times> bool) option" where
  "log_scan None f = None"
| "log_scan (Some (k, live)) f =
     (case fr_event f of
        TurnStarted t p \<Rightarrow> if \<not> live \<and> t = k + 1 \<and> fr_turn f = t then Some (t, True) else None
      | RunEvent e \<Rightarrow> if live \<and> fr_turn f = k then Some (k, True) else None
      | TurnEnded te \<Rightarrow> if live \<and> te_turn te = k \<and> fr_turn f = k then Some (k, False) else None)"

definition log_shape :: "'e frame list \<Rightarrow> (nat \<times> bool) option" where
  "log_shape h = foldl log_scan (Some (0, False)) h"

definition session_ok :: "('e, 'w) session_system \<Rightarrow> bool" where
  "session_ok c \<longleftrightarrow> (case c of (h, s, p, w) \<Rightarrow>
     retains (se_cap s) h (se_base s) (se_frames s) \<and>
     map fr_seq h = [0..<length h] \<and>
     (p = None \<longleftrightarrow> se_cancel s = None) \<and> (p \<noteq> None \<longrightarrow> se_state s = StRunning) \<and>
     (p = None \<longrightarrow> se_state s \<noteq> StRunning) \<and>
     (\<forall>turn inp. p = Some (turn, inp) \<longrightarrow> turn = se_turns s) \<and>
     (log_shape h = Some (se_turns s, p \<noteq> None) \<or> se_closed s \<and> log_shape h \<noteq> None))"

lemma log_shape_snoc: "log_shape (h @ [f]) = log_scan (log_shape h) f"
  by (simp add: log_shape_def)

lemma retains_len: "retains cap h base es \<Longrightarrow> base + length es = length h"
  by (auto simp: retains_def)

lemma turn_end_turn [simp]: "te_turn (turn_end_of etext turn sp oc e) = turn"
  by (auto simp: turn_end_of_def Let_def split: option.splits outcome.splits)

lemma turn_end_state: "te_state (turn_end_of etext turn sp oc e) \<notin> {StRunning, StApproving}"
  by (auto simp: turn_end_of_def Let_def split: option.splits outcome.splits)

text \<open>Appending a frame keeps the log the suffix of its history.\<close>

lemma emit_retains:
  assumes "retains (se_cap s) h (se_base s) (se_frames s)" and "map fr_seq h = [0..<length h]"
    and "h' = h @ logged turn ev s"
  shows "retains (se_cap s) h' (se_base (emit_locked turn ev now s)) (se_frames (emit_locked turn ev now s)) \<and>
    map fr_seq h' = [0..<length h']"
proof (cases "se_closed s")
  case False
  have "fr_seq (next_frame turn ev s) = length h" using retains_len[OF assms(1)] by (simp add: next_frame_def)
  with False assms retains_snoc[OF assms(1), of "next_frame turn ev s"] show ?thesis
    by (simp add: emit_locked_log logged_def)
qed (use assms in \<open>simp add: emit_locked_log logged_def\<close>)

lemma session_ok_same_turn:
  "session_ok (h, s, p, w) \<Longrightarrow> same_turn s s' \<Longrightarrow> session_ok (h, s', p, w')"
  by (auto simp: session_ok_def same_turn_def)

lemma session_ok_queue: "session_ok (h, s\<lparr>se_approvals := a\<rparr>, p, w) \<longleftrightarrow> session_ok (h, s, p, w)"
  by (simp add: session_ok_def)

lemma session_step_ok:
  assumes "session_step ag etext c c'" and "session_ok c"
  shows "session_ok c'"
  using assms
proof (cases rule: session_step.cases)
  case (send prompt now s turn inp s' h w)
  let ?s = "s\<lparr>se_turns := turn, se_state := StRunning, se_cancel := Some False, se_pause_id := [],
      se_outcome := [], se_answer := [], se_err_text := [], se_err_kind := []\<rparr>"
  have s': "\<not> se_closed s" "turn = se_turns s + 1" "s' = emit_locked turn (TurnStarted turn prompt) now ?s"
    using send(3) unfolding send_ok_iff by auto
  have log: "logged turn (TurnStarted turn prompt) s = logged turn (TurnStarted turn prompt) ?s"
    by (simp add: logged_def next_frame_def)
  have "log_shape h = Some (se_turns s, False)" using assms(2) send(1) s'(1) by (simp add: session_ok_def)
  then have "log_shape (h @ logged turn (TurnStarted turn prompt) s) = Some (turn, True)"
    using s' by (simp add: logged_def log_shape_snoc next_frame_def)
  with emit_retains[of ?s h "h @ logged turn (TurnStarted turn prompt) s" turn "TurnStarted turn prompt" now]
    assms(2) send s' log show ?thesis by (simp add: session_ok_def)
next
  case (event h s turn inp w e now)
  have turn: "turn = se_turns s" using assms(2) event by (simp add: session_ok_def)
  have "log_shape (h @ logged turn (RunEvent e) s) = Some (se_turns s, True) \<or>
      se_closed s \<and> log_shape (h @ logged turn (RunEvent e) s) \<noteq> None"
    using assms(2) event turn by (auto simp: session_ok_def logged_def log_shape_snoc next_frame_def)
  with emit_retains[of s h "h @ logged turn (RunEvent e) s" turn "RunEvent e" now] assms(2) event turn
  show ?thesis by (simp add: session_ok_def)
next
  case (ended inp b w st b' w' te turn now h s)
  let ?s = "s\<lparr>se_msgs := run_convo st, se_spend := spend_add (se_spend s) (te_spend te), se_state := te_state te,
      se_outcome := te_outcome te,
      se_answer := (if te_question te \<noteq> [] then te_question te else te_answer te),
      se_err_text := te_error te, se_err_kind := te_error_kind te,
      se_pause_id := (case run_outcome st of Some (Paused i _) \<Rightarrow> i | _ \<Rightarrow> []), se_cancel := None\<rparr>"
  have turn: "turn = se_turns s" "te_turn te = turn" "te_state te \<noteq> StRunning"
    using assms(2) ended turn_end_state by (auto simp: session_ok_def)
  have log: "logged turn (TurnEnded te) s = logged turn (TurnEnded te) ?s"
    by (simp add: logged_def next_frame_def)
  have "log_shape (h @ logged turn (TurnEnded te) s) = Some (se_turns s, False) \<or>
      se_closed s \<and> log_shape (h @ logged turn (TurnEnded te) s) \<noteq> None"
    using assms(2) ended(1) turn by (auto simp: session_ok_def logged_def log_shape_snoc next_frame_def)
  moreover have "end_turn turn te (run_outcome st) (run_convo st) now s = emit_locked turn (TurnEnded te) now ?s"
    by (simp add: end_turn_def)
  ultimately show ?thesis
    using emit_retains[of ?s h "h @ logged turn (TurnEnded te) s" turn "TurnEnded te" now]
      assms(2) ended(1,2) turn log by (simp add: session_ok_def)
next
  case (cancel h s p w)
  with assms(2) show ?thesis by (simp add: session_ok_def)
next
  case (closed h s p w)
  with assms(2) show ?thesis by (auto simp: session_ok_def)
next
  case (resolve i allow now s e s' h p w)
  with session_ok_same_turn[OF _ resolve_same_turn[OF resolve(3)], of h p w w] assms(2) show ?thesis by simp
qed (use assms(2) in \<open>simp_all add: session_ok_queue\<close>)

lemma session_start_ok: "session_ok ([], new_session cap now, None, w)"
  by (simp add: session_ok_def new_session_def retains_empty log_shape_def)

lemma session_reach_ok:
  assumes "(session_step ag etext)\<^sup>*\<^sup>* ([], new_session cap now, None, w) c"
  shows "session_ok c"
  using assms by (induction rule: rtranclp_induct) (auto intro: session_step_ok session_start_ok)

section \<open>Readers of a session\<close>

definition system_view :: "('e, 'w) session_system \<Rightarrow> 'e frame log_view" where
  "system_view c = session_view (fst (snd c))"

lemma session_step_log:
  assumes "session_step ag etext c c'"
  shows "(\<exists>h. fst c' = fst c @ h) \<and> lv_base (system_view c) \<le> lv_base (system_view c') \<and>
    (lv_gen (system_view c) < lv_gen (system_view c') \<or>
     lv_gen (system_view c) = lv_gen (system_view c') \<and> fst c' = fst c \<and>
       (lv_over (system_view c') \<longrightarrow> lv_over (system_view c)))"
  using assms
proof (cases rule: session_step.cases)
  case (send prompt now s turn inp s' h w)
  then show ?thesis unfolding send_ok_iff
    by (auto simp: system_view_def session_view_def emit_locked_log)
next
  case (ended inp b w st b' w' te turn now h s)
  then show ?thesis
    by (auto simp: system_view_def session_view_def emit_locked_log end_turn_def logged_def)
next
  case (resolve i allow now s e s' h p w)
  then show ?thesis using resolve_same_turn[OF resolve(3)]
    by (simp add: system_view_def session_view_def same_turn_def)
qed (auto simp: system_view_def session_view_def emit_locked_log logged_def)

interpretation session_log: followed_log fst system_view session_ok "session_step ag etext"
  for ag :: "'w agent" and etext
proof
  fix c :: "('e, 'w) session_system"
  assume "session_ok c"
  then show "lv_base (system_view c) \<le> length (fst c) \<and>
      lv_events (system_view c) = drop (lv_base (system_view c)) (fst c)"
    by (auto simp: session_ok_def retains_def system_view_def session_view_def)
next
  fix c c' :: "('e, 'w) session_system"
  assume "session_ok c" "session_step ag etext c c'"
  then show "session_ok c' \<and> (\<exists>h. fst c' = fst c @ h) \<and> lv_base (system_view c) \<le> lv_base (system_view c')"
    using session_step_ok session_step_log by blast
next
  fix c c' :: "('e, 'w) session_system"
  assume "session_step ag etext c c'"
  then show "lv_gen (system_view c) < lv_gen (system_view c') \<or>
      lv_gen (system_view c) = lv_gen (system_view c') \<and> fst c' = fst c \<and>
      (lv_over (system_view c') \<longrightarrow> lv_over (system_view c))"
    using session_step_log by blast
qed

section \<open>Conversations\<close>

lemma ask_sendable: "sendable (ask_input q)" "convo_ids (ask_input q) = {}"
  by (simp_all add: ask_input_def sendable_def validate_run opens_with_user_def user_text_def
      roles_ok_def convo_ids_def)

lemma then_instruction_rest:
  "filled c \<Longrightarrow> filled (then_instruction c q)" "convo_ids (then_instruction c q) = convo_ids c"
  by (auto simp: then_instruction_def close_dangling_def push_user_text_def user_text_def Let_def
      append_msg_ids intro: append_msg_filled)

lemma answer_pause_rest:
  "filled c \<Longrightarrow> filled (answer_pause c i a)" "convo_ids (answer_pause c i a) = convo_ids c"
  by (auto simp: answer_pause_def push_tool_results_def Let_def append_msg_ids intro: append_msg_filled)

context agent_parts begin

definition conversing :: "('e, 'w) session_system \<Rightarrow> bool" where
  "conversing c \<longleftrightarrow> (case c of (h, s, p, w) \<Rightarrow>
     (case p of
        Some (turn, inp) \<Rightarrow> sendable inp \<and> convo_ids inp \<subseteq> issued w
      | None \<Rightarrow> se_turns s \<noteq> 0 \<longrightarrow>
          resumable (se_msgs s) \<and> filled (se_msgs s) \<and> convo_ids (se_msgs s) \<subseteq> issued w \<and>
          (se_pause_id s \<noteq> [] \<longrightarrow> se_pause_id s \<in> set (dangling (se_msgs s)))))"

lemma send_conversing:
  assumes "conversing (h, s, None, w)" and "session_send prompt now s = (Inr (turn, inp), s')"
  shows "sendable inp \<and> convo_ids inp \<subseteq> issued w"
proof (cases "turn = 1")
  case True
  with assms(2) have "inp = ask_input prompt" unfolding send_ok_iff by simp
  then show ?thesis by (simp add: ask_sendable)
next
  case False
  then have "se_turns s \<noteq> 0" using assms(2) unfolding send_ok_iff by simp
  then have left: "resumable (se_msgs s)" "filled (se_msgs s)" "convo_ids (se_msgs s) \<subseteq> issued w"
    "se_pause_id s \<noteq> [] \<Longrightarrow> se_pause_id s \<in> set (dangling (se_msgs s))"
    using assms(1) by (auto simp: conversing_def)
  have "inp = (if se_pause_id s \<noteq> [] then answer_pause (se_msgs s) (se_pause_id s) prompt
      else then_instruction (se_msgs s) prompt)"
    using assms(2) False unfolding send_ok_iff by simp
  with left then_instruction_valid answer_pause_valid then_instruction_rest answer_pause_rest
  show ?thesis by (auto simp: sendable_iff)
qed

lemma conversing_step:
  assumes "session_step ag etext c c'" and "conversing c"
  shows "conversing c'"
  using assms
proof (cases rule: session_step.cases)
  case (send prompt now s turn inp s' h w)
  with send_conversing[OF _ send(3), of h w] assms(2) show ?thesis by (simp add: conversing_def)
next
  case (ended inp b w st b' w' te turn now h s)
  then have "left_off st w'"
    using run_agent_left_off[of inp w b st b' w'] assms(2) by (simp add: conversing_def)
  then show ?thesis
    using ended(2) by (auto simp: conversing_def left_off_def end_turn_def split: option.splits outcome.splits)
next
  case (resolve i allow now s e s' h p w)
  with resolve_same_turn[OF resolve(3)] assms(2) show ?thesis
    by (cases p) (simp_all add: conversing_def same_turn_def)
qed (use assms(2) in \<open>auto simp: conversing_def split: option.splits\<close>)

lemma conversing_reach:
  assumes "(session_step ag etext)\<^sup>*\<^sup>* ([], new_session cap now, None, w) c"
  shows "conversing c"
  using assms
proof (induction rule: rtranclp_induct)
  case base
  then show ?case by (simp add: conversing_def new_session_def)
next
  case (step c c')
  then show ?case using conversing_step by blast
qed

end

section \<open>Properties\<close>

text \<open>C7: Every turn of a conversation starts on a transcript a provider accepts: whatever was sent
  before, however each turn ended (answered, paused on a question, failed, cancelled half-way) and
  whatever was cancelled, answered or closed meanwhile, the input of the next accepted prompt validates,
  has no empty turn and uses only ids the agent has issued.\<close>

theorem session_turns_start_sendable:
  assumes "agent_parts ag issued"
    and "(session_step ag etext)\<^sup>*\<^sup>* ([], new_session cap t0, None, w0) (h, s, None, w)"
    and "session_send prompt now s = (Inr (turn, inp), s')"
  shows "sendable inp \<and> convo_ids inp \<subseteq> issued w"
  using agent_parts.send_conversing[OF assms(1) agent_parts.conversing_reach[OF assms(1,2)] assms(3)] .

text \<open>An agent that is allowed no iteration: its first turn fails, and a second one follows.\<close>

definition stuck_agent :: "nat agent" where
  "stuck_agent = bare_agent\<lparr>ag_max_iters := 0\<rparr>"

abbreviation stuck :: "nat agent" where
  "stuck \<equiv> standard_agent stuck_agent tool_leaf no_tools quiet_handler 8"

lemma stuck_run:
  "\<exists>e bw. run_agent stuck [user_text ''hi''] (with_budget two_step_limits 0, 0) =
     (finish None (Some e) (start_run [user_text ''hi'']), bw)"
proof -
  have "validate [user_text ''hi''] = None" using hello_sendable(1) by (simp add: sendable_def)
  then show ?thesis
    by (auto simp: run_agent_def run_iters.simps standard_agent_def stuck_agent_def bare_agent_def
        with_budget_def)
qed

lemma second_turn:
  "\<exists>h s w inp s'. (session_step stuck (\<lambda>_. ''failed''))\<^sup>*\<^sup>* ([], new_session 9 0, None, 0)
       (h :: unit frame list, s, None, w) \<and>
     session_send ''more'' 2 s = (Inr (2, inp), s') \<and> length h = 2"
proof -
  let ?s0 = "new_session 9 0 :: unit session"
  obtain s1 where s1: "session_send ''hi'' 1 ?s0 = (Inr (1, ask_input ''hi''), s1)"
    by (simp add: session_send_def new_session_def)
  obtain e b w where run: "run_agent stuck [user_text ''hi''] (with_budget two_step_limits 0, 0) =
      (finish None (Some e) (start_run [user_text ''hi'']), b, w)" using stuck_run by (metis prod.collapse)
  define st where "st = finish None (Some e) (start_run [user_text ''hi''])"
  define te where "te = turn_end_of (\<lambda>_. ''failed'') 1 (turn_spend 1 b) (run_outcome st) (run_err st)"
  define s2 where "s2 = end_turn 1 te (run_outcome st) (run_convo st) 1 s1"
  have open1: "\<not> se_closed s1" "se_turns s1 = 1" using s1 by (auto simp: send_ok_iff new_session_def)
  have "session_step stuck (\<lambda>_. ''failed'') ([], ?s0, None, 0)
      ([] @ logged 1 (TurnStarted 1 ''hi'') ?s0, s1, Some (1, ask_input ''hi''), 0)"
    by (rule session_step.send[OF s1])
  moreover have "session_step stuck (\<lambda>_. ''failed'')
      ([] @ logged 1 (TurnStarted 1 ''hi'') ?s0, s1, Some (1, ask_input ''hi''), 0)
      (([] @ logged 1 (TurnStarted 1 ''hi'') ?s0) @ logged 1 (TurnEnded te) s1, s2, None, w)"
    unfolding s2_def using run by (intro session_step.ended) (simp_all add: ask_input_def te_def st_def)
  moreover have "length (([] @ logged 1 (TurnStarted 1 ''hi'') ?s0) @ logged 1 (TurnEnded te) s1) = 2"
    using open1 by (simp add: logged_def new_session_def)
  moreover have "\<not> se_closed s2" "se_cancel s2 = None" "se_state s2 \<noteq> StDone" "se_turns s2 = 1"
    using open1 by (simp_all add: s2_def end_turn_def te_def turn_end_of_def st_def finish_def Let_def)
  then have "\<exists>inp s'. session_send ''more'' 2 s2 = (Inr (2, inp), s')" by (simp add: session_send_def)
  ultimately show ?thesis by (meson r_into_rtranclp rtranclp.rtrancl_into_rtrancl)
qed

theorem session_turns_start_sendable_witness:
  "\<exists>(s :: unit session) inp s'. session_send ''more'' 2 s = (Inr (2, inp), s') \<and> sendable inp"
proof -
  obtain h :: "unit frame list" and s w inp s' where
    "(session_step stuck (\<lambda>_. ''failed''))\<^sup>*\<^sup>* ([], new_session 9 0, None, 0) (h, s, None, w)"
    "session_send ''more'' 2 s = (Inr (2, inp), s')" using second_turn by blast
  from session_turns_start_sendable[OF tool_provider.std.agent_parts_axioms this] this(2) show ?thesis by blast
qed

text \<open>C8: The log of a session is one well-bracketed sequence of turns: its frames are numbered densely
  from zero across turns, each turn is a start, the events of its run and an end, all carrying its number,
  turns follow each other with consecutive numbers, and what is retained is the end of it. While a turn
  is in flight a prompt is refused and changes nothing.\<close>

theorem session_log_bracketed:
  assumes "(session_step ag etext)\<^sup>*\<^sup>* ([], new_session cap t0, None, w0) (h, s, p, w)"
  shows "map fr_seq h = [0..<length h] \<and> se_frames s = drop (length h - se_cap s) h \<and>
    log_shape h \<noteq> None \<and> (se_closed s \<or> log_shape h = Some (se_turns s, p \<noteq> None)) \<and>
    (p = None \<or> session_send prompt now s = (Inl (if se_closed s then ErrNoSuchSession else ErrBusy), s))"
  using session_reach_ok[OF assms] by (auto simp: session_ok_def retains_def session_send_def)

theorem session_log_bracketed_witness:
  "\<exists>(h :: unit frame list) (s :: unit session). length h = 2 \<and> map fr_seq h = [0, 1] \<and> se_frames s = drop (2 - se_cap s) h"
proof -
  obtain h :: "unit frame list" and s w where
    r: "(session_step stuck (\<lambda>_. ''failed''))\<^sup>*\<^sup>* ([], new_session 9 0, None, 0) (h, s, None, w)"
    and len: "length h = 2" using second_turn by blast
  from session_log_bracketed[OF r] len show ?thesis
    by (intro exI[of _ h] exI[of _ s]) (simp add: upt_rec)
qed

text \<open>A reader of a session that is over is released with everything: once the session is closed or
  its conversation done, a reader that has not returned returns by its own steps, having been given every
  retained frame from where it asked, each under its own number, including the frame that says how the
  last turn ended.\<close>

theorem session_reader_released:
  assumes "(follow_step system_view (session_step ag etext))\<^sup>*\<^sup>*
      (([], new_session cap t0, None, w0), follow_start from, []) ((h, s, p, w), f, ys)"
    and "se_closed s \<or> se_state s = StDone" and "f \<noteq> Left"
  shows "\<exists>ys'. (follow_own system_view)\<^sup>*\<^sup>* ((h, s, p, w), f, ys) ((h, s, p, w), Left, ys') \<and>
    sorted_wrt (<) (map fst ys') \<and>
    (\<forall>i\<in>{max (nat from) (se_base s)..<length h}. (i, h ! i) \<in> set ys' \<and> fr_seq (h ! i) = i)"
proof -
  have inv: "session_log.follow_inv (nat from) ((h, s, p, w), f, ys)"
    using session_log.follow_reach_inv[OF assms(1)[unfolded follow_start_def] session_start_ok] .
  then have "session_ok (h, s, p, w)" by (simp add: session_log.follow_inv_def)
  then have seq: "map fr_seq h = [0..<length h]" by (simp add: session_ok_def)
  have "fr_seq (h ! i) = i" if "i < length h" for i
    using arg_cong[OF seq, of "\<lambda>l. l ! i"] that by simp
  moreover obtain ys' where "(follow_own system_view)\<^sup>*\<^sup>* ((h, s, p, w), f, ys) ((h, s, p, w), Left, ys')"
    "session_log.complete (nat from) (h, s, p, w) ys'"
    using session_log.follow_finishes[OF inv assms(3)] assms(2)
    by (auto simp: system_view_def session_view_def)
  ultimately show ?thesis
    by (auto simp: session_log.complete_def session_log.truthful_def system_view_def session_view_def)
qed

theorem session_reader_released_witness:
  "\<exists>ys'. (follow_own system_view)\<^sup>*\<^sup>*
     (([], mark_closed (new_session 9 0 :: unit session), None, 0 :: nat), Top 0, [])
     (([], mark_closed (new_session 9 0), None, 0), Left, ys')"
proof -
  have "session_step stuck (\<lambda>_. ''failed'') ([], new_session 9 0 :: unit session, None, 0)
      ([], mark_closed (new_session 9 0), None, 0)"
    by (rule session_step.closed)
  then have "(follow_step system_view (session_step stuck (\<lambda>_. ''failed'')))\<^sup>*\<^sup>*
      (([], new_session 9 0 :: unit session, None, 0), follow_start 0, [])
      (([], mark_closed (new_session 9 0), None, 0), Top 0, [])"
    by (auto simp: follow_start_def intro!: r_into_rtranclp follow_step.other)
  from session_reader_released[OF this] show ?thesis by auto
qed

end
