(* ===== verification/Manager.thy ===== *)
theory Manager
  imports Session
begin

text \<open>
  The registry of sessions (\<^verbatim>\<open>httpapi/manager.go\<close>): creation against a bound, lookup, listing,
  deletion, expiry and shutdown. One definition per critical section; the sessions that an operation
  drops are returned, for the caller to close outside the lock. The id of a new session is random in
  the code and an argument here; building an agent is an argument too. Durations are nanoseconds.
\<close>

definition DefaultTTL :: int where "DefaultTTL = 30 * 60 * 1000000000"
definition DefaultMax :: int where "DefaultMax = 32"
definition DefaultBufferSize :: int where "DefaultBufferSize = 16384"
definition minSweep :: int where "minSweep = 10 * 1000000"
definition maxSweep :: int where "maxSweep = 30 * 1000000000"

record manager_config =
  mc_ttl :: int
  mc_max :: int
  mc_buffer :: int

record 'e manager =
  mg_cfg :: manager_config
  mg_started :: int
  mg_sessions :: "string \<rightharpoonup> 'e session"
  mg_order :: "string list"
  mg_closed :: bool

definition ErrTooManySessions :: err where
  [sentinel_defs]: "ErrTooManySessions = Sentinel ''httpapi: too many sessions''"
definition ErrClosed :: err where
  [sentinel_defs]: "ErrClosed = Sentinel ''httpapi: manager is closed''"

definition new_manager :: "bool \<Rightarrow> manager_config \<Rightarrow> int \<Rightarrow> err + 'e manager" where
  "new_manager has_build cfg now =
     (if \<not> has_build then Inl (Sentinel ''httpapi: ManagerConfig.Build is required'')
      else Inr \<lparr>mg_cfg = \<lparr>mc_ttl = (if mc_ttl cfg \<le> 0 then DefaultTTL else mc_ttl cfg),
                   mc_max = (if mc_max cfg \<le> 0 then DefaultMax else mc_max cfg),
                   mc_buffer = (if mc_buffer cfg \<le> 0 then DefaultBufferSize else mc_buffer cfg)\<rparr>,
                mg_started = now, mg_sessions = Map.empty, mg_order = [], mg_closed = False\<rparr>)"

definition manager_create :: "err option \<Rightarrow> string \<Rightarrow> int \<Rightarrow> 'e manager \<Rightarrow> (err + 'e session) \<times> 'e manager" where
  "manager_create build_err sid now m =
     (case build_err of
        Some e \<Rightarrow> (Inl (Wrapf ''httpapi: building the agent for this session'' [e]), m)
      | None \<Rightarrow>
          (let s = new_session (nat (mc_buffer (mg_cfg m))) now in
           if mg_closed m then (Inl ErrClosed, m)
           else if int (card (dom (mg_sessions m))) \<ge> mc_max (mg_cfg m)
             then (Inl (Wrapf ''live'' [ErrTooManySessions]), m)
           else (Inr s, m\<lparr>mg_sessions := (mg_sessions m)(sid \<mapsto> s), mg_order := mg_order m @ [sid]\<rparr>)))"

definition manager_get :: "string \<Rightarrow> 'e manager \<Rightarrow> 'e session option" where
  "manager_get sid m = mg_sessions m sid"

definition manager_list :: "'e manager \<Rightarrow> 'e session list" where
  "manager_list m = rev (List.map_filter (mg_sessions m) (mg_order m))"

definition drop_session :: "string \<Rightarrow> 'e manager \<Rightarrow> 'e manager" where
  "drop_session sid m = m\<lparr>mg_sessions := (mg_sessions m)(sid := None),
     mg_order := filter (\<lambda>x. x \<noteq> sid) (mg_order m)\<rparr>"

definition manager_delete :: "string \<Rightarrow> 'e manager \<Rightarrow> 'e session option \<times> 'e manager" where
  "manager_delete sid m =
     (case mg_sessions m sid of None \<Rightarrow> (None, m) | Some s \<Rightarrow> (Some s, drop_session sid m))"

definition manager_close :: "'e manager \<Rightarrow> 'e session set \<times> 'e manager" where
  "manager_close m =
     (if mg_closed m then ({}, m)
      else (ran (mg_sessions m), m\<lparr>mg_closed := True, mg_sessions := Map.empty, mg_order := []\<rparr>))"

definition expired :: "int \<Rightarrow> int \<Rightarrow> 'e session \<Rightarrow> bool" where
  "expired ttl now s = (case idle_since s of (updated, idle) \<Rightarrow> idle \<and> \<not> now - updated < ttl)"

text \<open>The range over the map is a fold over its ids, in any order.\<close>

definition manager_reap :: "int \<Rightarrow> string list \<Rightarrow> 'e manager \<Rightarrow> 'e session list \<times> 'e manager" where
  "manager_reap now ids m =
     foldl (\<lambda>(dead, m) sid.
        (case mg_sessions m sid of
           None \<Rightarrow> (dead, m)
         | Some s \<Rightarrow> if expired (mc_ttl (mg_cfg m)) now s then (dead @ [s], drop_session sid m) else (dead, m)))
       ([], m) ids"

text \<open>Go divides integers towards zero; the period is positive anyway.\<close>

definition sweep_period :: "manager_config \<Rightarrow> int" where
  "sweep_period cfg = min (max (mc_ttl cfg div 10) minSweep) maxSweep"

section \<open>The registry over time\<close>

text \<open>A session named by its id changes by itself; a new id is fresh.\<close>

inductive manager_step :: "'e manager \<Rightarrow> 'e manager \<Rightarrow> bool" where
  create: "mg_sessions m sid = None \<Longrightarrow> manager_create be sid now m = (r, m') \<Longrightarrow> manager_step m m'"
| delete: "manager_delete sid m = (r, m') \<Longrightarrow> manager_step m m'"
| close: "manager_close m = (r, m') \<Longrightarrow> manager_step m m'"
| reap: "set ids = dom (mg_sessions m) \<Longrightarrow> manager_reap now ids m = (r, m') \<Longrightarrow> manager_step m m'"
| session: "mg_sessions m sid = Some s \<Longrightarrow> manager_step m (m\<lparr>mg_sessions := (mg_sessions m)(sid \<mapsto> s')\<rparr>)"

definition manager_ok :: "'e manager \<Rightarrow> bool" where
  "manager_ok m \<longleftrightarrow> distinct (mg_order m) \<and> set (mg_order m) = dom (mg_sessions m) \<and>
     0 < mc_max (mg_cfg m) \<and> int (length (mg_order m)) \<le> mc_max (mg_cfg m) \<and>
     (mg_closed m \<longrightarrow> mg_order m = [])"

lemma manager_ok_card: "manager_ok m \<Longrightarrow> card (dom (mg_sessions m)) = length (mg_order m)"
  by (metis manager_ok_def distinct_card)

lemma drop_session_fields [simp]:
  "mg_cfg (drop_session sid m) = mg_cfg m" "mg_closed (drop_session sid m) = mg_closed m"
  "mg_sessions (drop_session sid m) = (mg_sessions m)(sid := None)"
  by (simp_all add: drop_session_def)

lemma drop_session_ok:
  assumes "manager_ok m"
  shows "manager_ok (drop_session sid m)"
proof -
  have "length (filter (\<lambda>x. x \<noteq> sid) (mg_order m)) \<le> length (mg_order m)" by simp
  then have "int (length (filter (\<lambda>x. x \<noteq> sid) (mg_order m))) \<le> mc_max (mg_cfg m)"
    using assms unfolding manager_ok_def by linarith
  then show ?thesis using assms unfolding manager_ok_def drop_session_def by simp auto
qed

lemma manager_reap_fold:
  assumes "manager_ok m"
  shows "manager_ok (snd (manager_reap now ids m)) \<and> mg_cfg (snd (manager_reap now ids m)) = mg_cfg m \<and>
    mg_sessions (snd (manager_reap now ids m)) = (\<lambda>sid. case mg_sessions m sid of
      None \<Rightarrow> None
    | Some s \<Rightarrow> if sid \<in> set ids \<and> expired (mc_ttl (mg_cfg m)) now s then None else Some s)"
proof (induction ids rule: rev_induct)
  case Nil
  with assms show ?case by (auto simp: manager_reap_def fun_eq_iff split: option.splits)
next
  case (snoc i ids)
  obtain dead m1 where m1: "manager_reap now ids m = (dead, m1)" by fastforce
  have step: "snd (manager_reap now (ids @ [i]) m) =
      (case mg_sessions m1 i of None \<Rightarrow> m1
       | Some s \<Rightarrow> if expired (mc_ttl (mg_cfg m1)) now s then drop_session i m1 else m1)"
    using m1 by (auto simp: manager_reap_def split: option.splits)
  show ?case
    using snoc m1 drop_session_ok unfolding step
    by (auto simp: fun_eq_iff split: option.splits if_splits)
qed

lemma manager_step_ok:
  assumes "manager_step m m'" and "manager_ok m"
  shows "manager_ok m'"
  using assms
proof (cases rule: manager_step.cases)
  case (create sid be now r)
  with assms(2) manager_ok_card[OF assms(2)] show ?thesis
    by (auto simp: manager_create_def manager_ok_def Let_def split: option.splits if_splits)
next
  case (delete sid r)
  with assms(2) drop_session_ok show ?thesis by (auto simp: manager_delete_def split: option.splits)
next
  case (close r)
  with assms(2) show ?thesis by (auto simp: manager_close_def manager_ok_def split: if_splits)
next
  case (reap ids now r)
  with manager_reap_fold[OF assms(2), of now ids] show ?thesis by simp
next
  case (session sid s s')
  with assms(2) show ?thesis by (auto simp: manager_ok_def)
qed

lemma manager_start_ok: "new_manager hb cfg now = Inr m \<Longrightarrow> manager_ok m"
  by (auto simp: new_manager_def manager_ok_def DefaultMax_def split: if_splits)

section \<open>Properties\<close>


definition small_config :: manager_config where
  "small_config = \<lparr>mc_ttl = 10, mc_max = 1, mc_buffer = 0\<rparr>"


end
