(* ===== verification/Skill.thy ===== *)
theory Skill
  imports AgentLoop "HOL-Library.Finite_Map"
begin

text \<open>
  Skills (\<^verbatim>\<open>skill/registry.go\<close>, \<^verbatim>\<open>skill/state.go\<close>, \<^verbatim>\<open>skill/tools.go\<close>,
  \<^verbatim>\<open>skill/bind.go\<close>): the catalogue and its gates, the activation set of a run, the tools
  \<^verbatim>\<open>load_skill\<close> and \<^verbatim>\<open>unload_skill\<close>, the gated tool surface with its reconciler, and
  the middleware that refuses a gated call. The world of a handler carries the state its context holds,
  if any. The prose of the tool descriptions is an argument.
\<close>

section \<open>Catalogue\<close>

record skill =
  sk_name :: string
  sk_description :: string
  sk_body :: string
  sk_source :: string

record registry =
  rg_skills :: "skill list"
  rg_by_name :: "string \<rightharpoonup> skill"
  rg_gates :: "string \<rightharpoonup> string"

definition ErrUnknownSkill :: err where
  [sentinel_defs]: "ErrUnknownSkill = Sentinel ''skill: unknown skill''"

text \<open>A repeated name panics: \<^const>\<open>None\<close>.\<close>

definition new_registry :: "skill list \<Rightarrow> registry option" where
  "new_registry ss =
     (if distinct (map sk_name ss)
      then Some \<lparr>rg_skills = sort_key sk_name ss, rg_by_name = map_of (map (\<lambda>s. (sk_name s, s)) ss),
                rg_gates = Map.empty\<rparr>
      else None)"

fun first_line_of :: "string list \<Rightarrow> string" where
  "first_line_of [] = []"
| "first_line_of (l # ls) = (if trim_space l \<noteq> [] then trim_space l else first_line_of ls)"

definition first_line :: "string \<Rightarrow> string" where
  "first_line s = first_line_of (split_on CHR 0x0A s)"

definition skill_index :: "registry \<Rightarrow> string" where
  "skill_index r = join_with [CHR 0x0A]
     (map (\<lambda>s. ''- '' @ sk_name s @ '': '' @ first_line (sk_description s)) (rg_skills r))"

text \<open>A second gate on the same tool by another skill panics.\<close>

definition declare_gate :: "string \<Rightarrow> string \<Rightarrow> registry \<Rightarrow> registry option" where
  "declare_gate sk tool r =
     (case rg_gates r tool of
        Some prev \<Rightarrow> if prev \<noteq> sk then None else Some (r\<lparr>rg_gates := (rg_gates r)(tool \<mapsto> sk)\<rparr>)
      | None \<Rightarrow> Some (r\<lparr>rg_gates := (rg_gates r)(tool \<mapsto> sk)\<rparr>))"

definition gate_for :: "registry \<Rightarrow> string \<Rightarrow> string option" where
  "gate_for r tool = rg_gates r tool"

definition skill_names :: "registry \<Rightarrow> string list" where
  "skill_names r = sort (map sk_name (rg_skills r))"

definition join_names :: "string list \<Rightarrow> string" where
  "join_names ns = (if ns = [] then ''(none)'' else join_with '', '' ns)"

definition name_list :: "registry \<Rightarrow> string" where
  "name_list r = (if rg_skills r = [] then ''(none)'' else join_with '', '' (skill_names r))"

text \<open>
  \<^verbatim>\<open>json.Marshal\<close> also escapes the HTML characters, which occur only inside strings.
\<close>

definition html_escape :: "char \<Rightarrow> string" where
  "html_escape c =
     (if c = CHR ''<'' then CHR 0x5C # ''u003c''
      else if c = CHR ''>'' then CHR 0x5C # ''u003e''
      else if c = CHR ''&'' then CHR 0x5C # ''u0026'' else [c])"

definition name_schema :: "string list \<Rightarrow> string \<Rightarrow> string" where
  "name_schema names desc =
     concat (map html_escape (json_render (JObj
       [(''type'', JStr ''object''),
        (''properties'', JObj [(''name'', JObj
          ((''type'', JStr ''string'') #
           (if names \<noteq> [] then [(''enum'', JArr (map JStr names))] else []) @
           [(''description'', JStr desc)]))]),
        (''required'', JArr [JStr ''name''])])))"

section \<open>The activation set of a run\<close>

type_synonym activation = "(string, tool_use_id) fmap"

definition new_state :: activation where "new_state = fmempty"

definition activate :: "string \<Rightarrow> tool_use_id \<Rightarrow> activation \<Rightarrow> activation" where
  "activate name body st = fmupd name body st"

definition deactivate :: "string \<Rightarrow> activation \<Rightarrow> activation" where
  "deactivate name st = fmdrop name st"

definition is_active :: "string \<Rightarrow> activation \<Rightarrow> bool" where
  "is_active name st = (fmlookup st name \<noteq> None)"

definition active_skills :: "activation \<Rightarrow> string list" where
  "active_skills st = sorted_list_of_set (fset (fmdom st))"

definition body_of :: "string \<Rightarrow> activation \<Rightarrow> tool_use_id option" where
  "body_of name st = fmlookup st name"

text \<open>
  The state rides on the context; outside a run there is none, and every reader gets a throwaway.
\<close>

record 'w skill_world =
  sw_state :: "activation option"
  sw_rest :: 'w

definition state_from :: "'w skill_world \<Rightarrow> activation" where
  "state_from w = (case sw_state w of Some st \<Rightarrow> st | None \<Rightarrow> new_state)"

definition keep_state :: "activation \<Rightarrow> 'w skill_world \<Rightarrow> 'w skill_world" where
  "keep_state st w = (case sw_state w of Some _ \<Rightarrow> w\<lparr>sw_state := Some st\<rparr> | None \<Rightarrow> w)"

section \<open>The two tools\<close>

definition LoadToolName :: string where "LoadToolName = ''load_skill''"
definition UnloadToolName :: string where "UnloadToolName = ''unload_skill''"
definition SkillTag :: string where "SkillTag = ''skill''"
definition SkillTagPrefix :: string where "SkillTagPrefix = ''skill:''"

definition meta_def :: "string \<Rightarrow> string \<Rightarrow> string \<Rightarrow> tool_def" where
  "meta_def name desc schema = \<lparr>td_name = name, td_description = desc, td_schema = schema,
     td_caps = CapReadOnly OR CapMeta, td_needs = 0, td_idempotent = True, td_timeout = 1000000000,
     td_category = ''meta'', td_retryable = None\<rparr>"

definition load_tool :: "string \<Rightarrow> registry \<Rightarrow> tool_def" where
  "load_tool desc r = meta_def LoadToolName desc (name_schema (skill_names r)
     (if rg_skills r = [] then ''Exact skill name (no skills are registered '' @ utf8 8212 @
        '' this tool has nothing to do).''
      else ''Exact skill name. Available: '' @ name_list r @ ''.''))"

definition unload_tool :: "string \<Rightarrow> registry \<Rightarrow> tool_def" where
  "unload_tool desc r = meta_def UnloadToolName desc (name_schema (skill_names r)
     (if rg_skills r = [] then ''Exact skill name to unload (no skills are registered '' @ utf8 8212 @
        '' this tool has nothing to do).''
      else ''Exact skill name to unload. Known: '' @ name_list r @ ''.''))"

text \<open>\<^verbatim>\<open>%q\<close>; printable characters outside ASCII are kept, as Go keeps them.\<close>

definition go_escape :: "char \<Rightarrow> string" where
  "go_escape c = (let n = (of_char c :: nat) in
     if c = CHR 0x22 \<or> c = CHR 0x5C then [CHR 0x5C, c]
     else if n = 7 then CHR 0x5C # ''a'' else if n = 8 then CHR 0x5C # ''b''
     else if n = 12 then CHR 0x5C # ''f'' else if n = 10 then CHR 0x5C # ''n''
     else if n = 13 then CHR 0x5C # ''r'' else if n = 9 then CHR 0x5C # ''t''
     else if n = 11 then CHR 0x5C # ''v''
     else if n < 32 \<or> n = 127 then CHR 0x5C # ''x'' @ [hex_char (n div 16), hex_char (n mod 16)]
     else [c])"

definition go_quote :: "string \<Rightarrow> string" where
  "go_quote s = CHR 0x22 # concat (map go_escape s) @ [CHR 0x22]"

text \<open>The decoder \<^verbatim>\<open>tool.Typed\<close> puts in front of both handlers; \<open>None\<close> is a decode error.\<close>

definition name_input :: "string \<Rightarrow> string option" where
  "name_input inp =
     (if inp = [] then Some []
      else case json_parse inp of
        Some (JObj kvs) \<Rightarrow> field_str ''name'' kvs
      | Some JNull \<Rightarrow> Some []
      | _ \<Rightarrow> None)"

definition load_skill :: "registry \<Rightarrow> tool_use \<Rightarrow> 'w skill_world \<Rightarrow> call_end \<times> string list \<times> 'w skill_world" where
  "load_skill r u w =
     (case name_input (tu_input u) of
        None \<Rightarrow> (Returned (Inl (Wrapf LoadToolName [ErrInvalidInput])), [SkillTag], w)
      | Some raw \<Rightarrow>
          (let name = trim_space raw; tags = [SkillTag, SkillTag, SkillTagPrefix @ name] in
           case rg_by_name r name of
             None \<Rightarrow> (Returned (Inl (Wrapf (go_quote name @ ''; available: '' @ name_list r) [ErrUnknownSkill])),
                     tags, w)
           | Some s \<Rightarrow>
               (let st = state_from w in
                if is_active name st then
                  (Returned (Inr (''[skill '' @ go_quote name @ '' was already loaded earlier in this run. Its full body is still in your conversation history above '' @
                     utf8 8212 @ '' consult it there. The skill remains active and its tools stay available. Active skills: '' @
                     join_names (active_skills st) @ '']'')), tags, w)
                else
                  (let st = activate name (tu_id u) st in
                   (Returned (Inr (sk_body s @ [CHR 0x0A, CHR 0x0A] @ ''---'' @ [CHR 0x0A] @
                      ''[skill '' @ go_quote name @ '' activated; its gated tools are now available. Active skills: '' @
                      join_names (active_skills st) @ '']'' @ [CHR 0x0A])), tags, keep_state st w)))))"

definition unload_skill :: "registry \<Rightarrow> tool_use \<Rightarrow> 'w skill_world \<Rightarrow> call_end \<times> string list \<times> 'w skill_world" where
  "unload_skill r u w =
     (case name_input (tu_input u) of
        None \<Rightarrow> (Returned (Inl (Wrapf UnloadToolName [ErrInvalidInput])), [], w)
      | Some raw \<Rightarrow>
          (let name = trim_space raw in
           if rg_by_name r name = None then
             (Returned (Inl (Wrapf (go_quote name @ ''; known: '' @ name_list r) [ErrUnknownSkill])), [], w)
           else
             (let st = state_from w in
              if \<not> is_active name st then
                (Returned (Inr (''[skill '' @ go_quote name @ '' was not active '' @ utf8 8212 @
                   '' nothing to do. Active skills: '' @ join_names (active_skills st) @ '']'')), [], w)
              else
                (let st = deactivate name st in
                 (Returned (Inr (''[skill '' @ go_quote name @ '' unloaded; its gated tools are retired from your tool list. Active skills: '' @
                    join_names (active_skills st) @ '']'')), [], keep_state st w)))))"

section \<open>The gated surface\<close>

record gated_set =
  gs_reg :: registry
  gs_base :: "tool_def list"
  gs_load :: tool_def
  gs_unload :: tool_def
  gs_all :: "string \<rightharpoonup> tool_def"

text \<open>A base tool named like one of the two, or a repeated name, panics.\<close>

definition bind_skills :: "string \<Rightarrow> string \<Rightarrow> registry \<Rightarrow> tool_def list \<Rightarrow> gated_set option" where
  "bind_skills ldesc udesc r base =
     (if list_ex (\<lambda>d. td_name d = LoadToolName \<or> td_name d = UnloadToolName) base \<or>
         \<not> distinct (map td_name base) then None
      else
        (let load = load_tool ldesc r; unload = unload_tool udesc r in
         Some \<lparr>gs_reg = r, gs_base = base, gs_load = load, gs_unload = unload,
               gs_all = (map_of (map (\<lambda>d. (td_name d, d)) base))
                 (td_name load \<mapsto> load, td_name unload \<mapsto> unload)\<rparr>))"

definition gated_visible :: "gated_set \<Rightarrow> 'w skill_world \<Rightarrow> tool_def list" where
  "gated_visible g w =
     (let st = state_from w in
      filter (\<lambda>d. case gate_for (gs_reg g) (td_name d) of
          Some sk \<Rightarrow> is_active sk st | None \<Rightarrow> True) (gs_base g) @ [gs_load g, gs_unload g])"

definition gated_find :: "gated_set \<Rightarrow> string \<Rightarrow> tool_def option" where
  "gated_find g name = gs_all g name"

definition reconcile_one :: "tool_use_id set \<Rightarrow> activation \<Rightarrow> string \<Rightarrow> activation" where
  "reconcile_one present st name =
     (case body_of name st of
        None \<Rightarrow> st
      | Some i \<Rightarrow> if i = [] then st else if i \<notin> present then deactivate name st else st)"

definition gated_reconcile :: "tool_use_id set \<Rightarrow> 'w skill_world \<Rightarrow> 'w skill_world" where
  "gated_reconcile present w =
     (let st = state_from w in
      keep_state (foldl (reconcile_one present) st (active_skills st)) w)"

definition skill_middleware :: "registry \<Rightarrow> 'w skill_world tagged_handler \<Rightarrow> 'w skill_world tagged_handler" where
  "skill_middleware r nxt d u w =
     (if td_name d = LoadToolName \<or> td_name d = UnloadToolName then nxt d u w
      else case gate_for r (td_name d) of
        Some gate \<Rightarrow>
          if \<not> is_active gate (state_from w)
          then (Returned (Inl (Wrapf (''tool '' @ go_quote (td_name d) @ '' needs the '' @ go_quote gate @
                  '' skill: call '' @ LoadToolName @ ''('' @ go_quote gate @ '') first'') [])), [], w)
          else nxt d u w
      | None \<Rightarrow> nxt d u w)"

text \<open>The handlers under the middleware; those of the base tools do not reach the activation set.\<close>

definition skill_handler :: "registry \<Rightarrow> 'w tagged_handler \<Rightarrow> 'w skill_world tagged_handler" where
  "skill_handler r base d u w =
     (if td_name d = LoadToolName then load_skill r u w
      else if td_name d = UnloadToolName then unload_skill r u w
      else case base d u (sw_rest w) of (fin, tags, w') \<Rightarrow> (fin, tags, w\<lparr>sw_rest := w'\<rparr>))"

definition gated_handler :: "registry \<Rightarrow> 'w tagged_handler \<Rightarrow> 'w skill_world tagged_handler" where
  "gated_handler r base = skill_middleware r (skill_handler r base)"

definition surface_of :: "gated_set \<Rightarrow> tool_set" where
  "surface_of g = \<lparr>set_visible = [], set_find = gated_find g\<rparr>"

section \<open>Tool surfaces\<close>

text \<open>
  The contract of \<^verbatim>\<open>tool.Set\<close>: what is offered can be found under its name. The static set and the
  gated one both keep it, so a call of a tool the model was offered reaches the tool's handler.
\<close>

locale tool_surface =
  fixes made :: "'s \<Rightarrow> bool"
    and visible :: "'s \<Rightarrow> 'w \<Rightarrow> tool_def list"
    and find :: "'s \<Rightarrow> string \<Rightarrow> tool_def option"
  assumes visible_found: "made s \<Longrightarrow> d \<in> set (visible s w) \<Longrightarrow> find s (td_name d) = Some d"
begin

lemma offered_found:
  assumes "made s" and "t \<in> set (specs_of (visible s w))"
  shows "\<exists>d. find s (ts_name t) = Some d \<and> spec_of d = t"
  using assms visible_found by (auto simp: specs_of_def spec_of_def)

lemma offered_call_handled:
  assumes "made s" and "t \<in> set (specs_of (visible s w))" and "tu_name u = ts_name t"
  shows "\<exists>d. spec_of d = t \<and> run_call \<lparr>set_visible = vs, set_find = find s\<rparr> h u w' =
    (case h d u w' of (fin, tags, w'') \<Rightarrow> (settle_call u fin tags, w''))"
  using offered_found[OF assms(1,2)] assms(3) by (auto simp: run_call_def)

end

lemma find_named:
  "distinct (map td_name ds) \<Longrightarrow> d \<in> set ds \<Longrightarrow> List.find (\<lambda>x. td_name x = td_name d) ds = Some d"
  by (induction ds) auto

lemma new_set_fields: "new_set ds = Some s \<Longrightarrow> distinct (map td_name ds) \<and> set_visible s = ds \<and>
    set_find s = (\<lambda>n. List.find (\<lambda>d. td_name d = n) ds)"
  by (auto simp: new_set_def split: if_splits)

interpretation static_set: tool_surface "\<lambda>s. \<exists>ds. new_set ds = Some s" "\<lambda>s (w :: 'w). set_visible s" set_find
  by unfold_locales (auto dest!: new_set_fields simp: find_named)

lemma meta_names [simp]:
  "td_name (load_tool desc r) = LoadToolName" "td_name (unload_tool desc r) = UnloadToolName"
  "LoadToolName \<noteq> UnloadToolName" "UnloadToolName \<noteq> LoadToolName"
  by (simp_all add: load_tool_def unload_tool_def meta_def_def LoadToolName_def UnloadToolName_def)

lemma bind_fields:
  assumes "bind_skills ld ud r base = Some g"
  shows "gs_reg g = r" "gs_base g = base" "gs_load g = load_tool ld r" "gs_unload g = unload_tool ud r"
    "distinct (map td_name base)" "\<forall>d\<in>set base. td_name d \<noteq> LoadToolName \<and> td_name d \<noteq> UnloadToolName"
    "gated_find g n = (if n = UnloadToolName then Some (unload_tool ud r)
       else if n = LoadToolName then Some (load_tool ld r)
       else map_of (map (\<lambda>d. (td_name d, d)) base) n)"
  using assms by (auto simp: bind_skills_def Let_def list_ex_iff gated_find_def split: if_splits)

lemma map_of_named: "map_of (map (\<lambda>d. (td_name d, d)) ds) n = Some d \<Longrightarrow> td_name d = n \<and> d \<in> set ds"
  by (auto dest!: map_of_SomeD)

lemma gated_find_name: "bind_skills ld ud r base = Some g \<Longrightarrow> gated_find g n = Some d \<Longrightarrow> td_name d = n"
  by (auto simp: bind_fields(7) split: if_splits dest: map_of_named)

interpretation gated: tool_surface "\<lambda>g. \<exists>ld ud r base. bind_skills ld ud r base = Some g"
  "gated_visible :: gated_set \<Rightarrow> 'w skill_world \<Rightarrow> _" gated_find
proof
  fix g :: gated_set and d and w :: "'w skill_world"
  assume "\<exists>ld ud r base. bind_skills ld ud r base = Some g" and vis: "d \<in> set (gated_visible g w)"
  then obtain ld ud r base where g: "bind_skills ld ud r base = Some g" by blast
  note f = bind_fields[OF g]
  have "d \<in> set base \<Longrightarrow> map_of (map (\<lambda>d. (td_name d, d)) base) (td_name d) = Some d"
    using f(5) by (intro map_of_is_SomeI) (auto simp: comp_def)
  with vis f show "gated_find g (td_name d) = Some d"
    by (auto simp: gated_visible_def Let_def)
qed

section \<open>Activation and reconciliation\<close>

lemmas activation_defs = new_state_def activate_def deactivate_def is_active_def body_of_def

lemma active_skills_set [simp]: "set (active_skills st) = fset (fmdom st)"
  by (simp add: active_skills_def)

lemma reconcile_one_body:
  "body_of n (reconcile_one present st m) = (case body_of n st of
     None \<Rightarrow> None
   | Some i \<Rightarrow> if n = m \<and> i \<noteq> [] \<and> i \<notin> present then None else Some i)"
  by (auto simp: reconcile_one_def activation_defs split: option.splits)

lemma reconcile_fold:
  "body_of n (foldl (reconcile_one present) st ns) = (case body_of n st of
     None \<Rightarrow> None
   | Some i \<Rightarrow> if n \<in> set ns \<and> i \<noteq> [] \<and> i \<notin> present then None else Some i)"
proof (induction ns arbitrary: st)
  case Nil
  show ?case by (auto split: option.splits)
next
  case (Cons m ns)
  show ?case
    by (auto simp: Cons.IH reconcile_one_body split: option.splits)
qed

lemma state_from_keep:
  "state_from (keep_state st w) = (if sw_state w = None then new_state else st)"
  by (auto simp: state_from_def keep_state_def split: option.splits)

lemma body_of_new [simp]: "body_of n new_state = None"
  by (simp add: activation_defs)

lemma reconciled_body:
  "body_of n (state_from (gated_reconcile present w)) = (case body_of n (state_from w) of
     Some i \<Rightarrow> if i = [] \<or> i \<in> present then Some i else None | None \<Rightarrow> None)"
proof (cases "sw_state w")
  case None
  then show ?thesis unfolding gated_reconcile_def Let_def state_from_keep by (simp add: state_from_def)
next
  case (Some st)
  have "n \<in> fset (fmdom st)" if "body_of n st = Some i" for i
    using that by (simp add: body_of_def fmdomI)
  with Some show ?thesis
    unfolding gated_reconcile_def Let_def state_from_keep
    by (auto simp: state_from_def reconcile_fold split: option.splits)
qed

lemma is_active_iff: "is_active n st \<longleftrightarrow> body_of n st \<noteq> None"
  by (simp add: activation_defs)

text \<open>
  A run that inherits the state of another and reconciles it against its own transcript retires
  every skill whose body the other run loaded.
\<close>

lemma reconcile_other_transcript:
  assumes "body_of n (state_from w) = Some i" and "i \<noteq> []" and "i \<notin> present"
  shows "\<not> is_active n (state_from (gated_reconcile present w))"
  using assms by (simp add: is_active_iff reconciled_body)

section \<open>Gating as a specification\<close>

text \<open>
  The abstract state is the set of loaded names. A call of one of the two tools changes it, every other
  call leaves it, and a base call is due exactly when the tool has no gate or its gate is in the set.
\<close>

definition loaded_after :: "registry \<Rightarrow> tool_use \<Rightarrow> string set \<Rightarrow> string set" where
  "loaded_after r u L =
     (case name_input (tu_input u) of
        None \<Rightarrow> L
      | Some raw \<Rightarrow>
          (let n = trim_space raw in
           if rg_by_name r n = None then L
           else if tu_name u = LoadToolName then insert n L
           else if tu_name u = UnloadToolName then L - {n} else L))"

fun due_calls :: "gated_set \<Rightarrow> string set \<Rightarrow> tool_use list \<Rightarrow> (tool_def \<times> tool_use) list" where
  "due_calls g L [] = []"
| "due_calls g L (u # us) =
     (if tu_name u = LoadToolName \<or> tu_name u = UnloadToolName
      then due_calls g (loaded_after (gs_reg g) u L) us
      else (case gated_find g (tu_name u) of
          Some d \<Rightarrow> if (case gate_for (gs_reg g) (tu_name u) of Some sk \<Rightarrow> sk \<in> L | None \<Rightarrow> True)
            then [(d, u)] else []
        | None \<Rightarrow> []) @ due_calls g L us)"

fun run_base :: "'w tagged_handler \<Rightarrow> (tool_def \<times> tool_use) list \<Rightarrow> 'w \<Rightarrow> 'w" where
  "run_base h [] w = w"
| "run_base h ((d, u) # cs) w = run_base h cs (snd (snd (h d u w)))"

fun loaded_by :: "registry \<Rightarrow> string set \<Rightarrow> tool_use list \<Rightarrow> string set" where
  "loaded_by r L [] = L"
| "loaded_by r L (u # us) =
     loaded_by r (if tu_name u = LoadToolName \<or> tu_name u = UnloadToolName then loaded_after r u L else L) us"

definition loaded :: "'w skill_world \<Rightarrow> string set" where
  "loaded w = {n. is_active n (state_from w)}"

lemma load_skill_effect:
  assumes "load_skill r u w = (fin, tags, w')" and "sw_state w \<noteq> None" and "tu_name u = LoadToolName"
  shows "sw_state w' \<noteq> None \<and> sw_rest w' = sw_rest w \<and> loaded w' = loaded_after r u (loaded w)"
  using assms
  by (auto simp: load_skill_def loaded_after_def loaded_def Let_def keep_state_def state_from_def
      activation_defs split: option.splits if_splits)

lemma unload_skill_effect:
  assumes "unload_skill r u w = (fin, tags, w')" and "sw_state w \<noteq> None" and "tu_name u = UnloadToolName"
  shows "sw_state w' \<noteq> None \<and> sw_rest w' = sw_rest w \<and> loaded w' = loaded_after r u (loaded w)"
  using assms
  by (auto simp: unload_skill_def loaded_after_def loaded_def Let_def keep_state_def state_from_def
      activation_defs split: option.splits if_splits)

lemma gated_call_refines:
  assumes g: "bind_skills ld ud r base = Some g" and w: "sw_state w \<noteq> None"
    and c: "run_call (surface_of g) (gated_handler r h) u w = (res, w')"
  shows "sw_state w' \<noteq> None \<and> sw_rest w' = run_base h (due_calls g (loaded w) [u]) (sw_rest w) \<and>
    loaded w' = loaded_by r (loaded w) [u]"
proof -
  note f = bind_fields[OF g]
  consider "tu_name u = LoadToolName" | "tu_name u = UnloadToolName"
    | "tu_name u \<noteq> LoadToolName" "tu_name u \<noteq> UnloadToolName" by blast
  then show ?thesis
  proof cases
    case 1
    with c f obtain fin tags where "load_skill r u w = (fin, tags, w')"
      by (auto simp: run_call_def surface_of_def gated_handler_def skill_middleware_def skill_handler_def
          split: prod.splits)
    from load_skill_effect[OF this w 1] 1 show ?thesis by simp
  next
    case 2
    with c f obtain fin tags where "unload_skill r u w = (fin, tags, w')"
      by (auto simp: run_call_def surface_of_def gated_handler_def skill_middleware_def skill_handler_def
          split: prod.splits)
    from unload_skill_effect[OF this w 2] 2 show ?thesis by simp
  next
    case 3
    show ?thesis
    proof (cases "gated_find g (tu_name u)")
      case None
      with c 3 w show ?thesis by (auto simp: run_call_def surface_of_def)
    next
      case (Some d)
      then have "td_name d = tu_name u" using gated_find_name[OF g] by blast
      with c 3 w Some f(1) show ?thesis
        by (auto simp: run_call_def surface_of_def gated_handler_def skill_middleware_def skill_handler_def
            loaded_def state_from_def split: prod.splits option.splits if_splits)
    qed
  qed
qed

lemma run_base_append: "run_base h (xs @ ys) w = run_base h ys (run_base h xs w)"
  by (induction xs arbitrary: w) auto

lemma due_calls_Cons: "due_calls g L (u # us) = due_calls g L [u] @ due_calls g (loaded_by (gs_reg g) L [u]) us"
  by auto

section \<open>Properties\<close>

text \<open>C32: Gating is what the names say, over any sequence of calls: through the middleware, the handler of
  a base tool runs exactly for the calls whose tool is ungated or whose skill was loaded by an earlier
  call of load_skill and not unloaded since, in order, and the activation set holds exactly the loaded
  names; a refused, unknown or malformed call touches neither.\<close>

theorem gated_dispatch_refines:
  assumes "bind_skills ld ud r base = Some g" and "sw_state w \<noteq> None"
    and "dispatch_seq (surface_of g) (gated_handler r h) uses w = (rs, w')"
  shows "sw_rest w' = run_base h (due_calls g (loaded w) uses) (sw_rest w) \<and>
    loaded w' = loaded_by r (loaded w) uses"
  using assms(2,3)
proof (induction uses arbitrary: w rs)
  case (Cons u us)
  obtain res w1 where c: "run_call (surface_of g) (gated_handler r h) u w = (res, w1)" by fastforce
  with Cons.prems(2) obtain rs1 where
    rest: "dispatch_seq (surface_of g) (gated_handler r h) us w1 = (rs1, w')"
    by (auto split: prod.splits)
  note one = gated_call_refines[OF assms(1) Cons.prems(1) c]
  with Cons.IH[OF _ rest] bind_fields(1)[OF assms(1)] show ?case
    unfolding due_calls_Cons[of g _ u us] run_base_append by simp
qed (simp add: loaded_def)

definition pdf_skill :: skill where
  "pdf_skill = \<lparr>sk_name = ''pdf'', sk_description = ''Forms.'', sk_body = ''how to'', sk_source = []\<rparr>"

definition fill_tool :: tool_def where
  "fill_tool = meta_def ''fill'' [] []"

definition pdf_registry :: registry where
  "pdf_registry = \<lparr>rg_skills = [pdf_skill], rg_by_name = [''pdf'' \<mapsto> pdf_skill], rg_gates = [''fill'' \<mapsto> ''pdf'']\<rparr>"

definition pdf_surface :: gated_set where
  "pdf_surface = the (bind_skills [] [] pdf_registry [fill_tool])"

lemma pdf_registry_made: "Option.bind (new_registry [pdf_skill]) (declare_gate ''pdf'' ''fill'') = Some pdf_registry"
  by (simp add: new_registry_def declare_gate_def pdf_registry_def pdf_skill_def)

lemma pdf_surface_made: "bind_skills [] [] pdf_registry [fill_tool] = Some pdf_surface"
  by (simp add: pdf_surface_def bind_skills_def fill_tool_def meta_def_def LoadToolName_def UnloadToolName_def Let_def)

definition call_of :: "string \<Rightarrow> string \<Rightarrow> tool_use" where
  "call_of name skill = \<lparr>tu_id = ''u'', tu_name = name, tu_input = json_render (JObj [(''name'', JStr skill)])\<rparr>"

lemma name_input_call [simp]: "name_input (tu_input (call_of name s)) = Some s"
  using json_parse_render[of "JObj [(''name'', JStr s)]"]
  by (auto simp: name_input_def call_of_def field_str_def json_field_def)

definition count_calls :: "nat tagged_handler" where
  "count_calls d u n = (Returned (Inr []), [], Suc n)"

definition pdf_calls :: "tool_use list" where
  "pdf_calls = [call_of ''fill'' ''a'', call_of LoadToolName ''pdf'', call_of ''fill'' ''a'',
     call_of UnloadToolName ''pdf'', call_of ''fill'' ''a'']"

theorem gated_dispatch_refines_witness:
  "sw_rest (snd (dispatch_seq (surface_of pdf_surface) (gated_handler pdf_registry count_calls) pdf_calls
     \<lparr>sw_state = Some new_state, sw_rest = 0\<rparr>)) = 1"
proof -
  let ?w = "\<lparr>sw_state = Some new_state, sw_rest = 0\<rparr> :: nat skill_world"
  obtain rs w' where d: "dispatch_seq (surface_of pdf_surface) (gated_handler pdf_registry count_calls) pdf_calls ?w = (rs, w')"
    by fastforce
  have L: "loaded ?w = {}" by (simp add: loaded_def state_from_def is_active_iff)
  have names: "''fill'' \<noteq> LoadToolName" "''fill'' \<noteq> UnloadToolName"
    "trim_space ''pdf'' = ''pdf''" "tu_name (call_of n s) = n" for n s
    by (simp_all add: LoadToolName_def UnloadToolName_def trim_space_def trim_by_def trim_left_by_def
        trim_right_by_def is_space_def call_of_def)
  have "due_calls pdf_surface {} pdf_calls = [(fill_tool, call_of ''fill'' ''a'')]"
    by (simp add: pdf_calls_def names loaded_after_def bind_fields[OF pdf_surface_made] gate_for_def
        pdf_registry_def fill_tool_def meta_def_def)
  with gated_dispatch_refines[OF pdf_surface_made _ d] L d show ?thesis by (simp add: count_calls_def)
qed

text \<open>What a run offers is documented: in every request the loop sends over a gated surface with its
  reconciler, each offered tool that has a gate belongs to a loaded skill whose body is still among the
  observations of that very request (unless the skill was activated outside a dispatch); and a skill
  whose body survived the context strategy is not retired.\<close>

theorem offered_tools_documented:
  assumes "bind_skills ld ud r base = Some g"
    and "ag_visible ag = gated_visible g" and "ag_reconcile ag = Some gated_reconcile"
    and "iter_messages ag iter st bw = (msgs, w)" and "rq = iter_request ag iter msgs w"
  shows "(\<forall>t sk. t \<in> set (rq_tools rq) \<longrightarrow> gate_for r (ts_name t) = Some sk \<longrightarrow>
      ts_name t \<noteq> LoadToolName \<longrightarrow> ts_name t \<noteq> UnloadToolName \<longrightarrow>
      (\<exists>i. body_of sk (state_from w) = Some i \<and> (i = [] \<or> i \<in> observations_in (rq_messages rq)))) \<and>
    (\<forall>sk i. body_of sk (state_from (snd bw)) = Some i \<longrightarrow> i \<in> observations_in (rq_messages rq) \<longrightarrow>
      body_of sk (state_from w) = Some i)"
proof -
  note f = bind_fields[OF assms(1)]
  have notice: "observations_in (with_notice m n) = observations_in m" for m n
    by (cases m rule: rev_cases) (auto simp: with_notice_def observations_in_def)
  have w: "w = gated_reconcile (observations_in msgs) (snd bw)"
    using assms(3,4) notice by (auto simp: iter_messages_def Let_def split: if_splits)
  have rq: "rq_messages rq = msgs" "rq_tools rq = specs_of (gated_visible g w)"
    using assms(2,5) by (simp_all add: iter_request_def)
  have "\<exists>i. body_of sk (state_from w) = Some i \<and> (i = [] \<or> i \<in> observations_in msgs)"
    if "t \<in> set (rq_tools rq)" "gate_for r (ts_name t) = Some sk"
      "ts_name t \<noteq> LoadToolName" "ts_name t \<noteq> UnloadToolName" for t sk
  proof -
    have "is_active sk (state_from w)"
      using that f unfolding rq(2) by (auto simp: specs_of_def spec_of_def gated_visible_def Let_def)
    then show ?thesis
      unfolding is_active_iff w reconciled_body by (auto split: option.splits if_splits)
  qed
  then show ?thesis unfolding rq(1) by (auto simp: w reconciled_body)
qed

definition pdf_agent :: "nat skill_world agent" where
  "pdf_agent = \<lparr>ag_system = [], ag_model = [], ag_max_iters = 5, ag_max_tokens = 0, ag_terminal = [],
     ag_force_last = 0, ag_strategy = flat_apply, ag_visible = gated_visible pdf_surface,
     ag_find = gated_find pdf_surface, ag_reconcile = Some gated_reconcile, ag_notice = None,
     ag_client = (\<lambda>_ bw. ((Inl ErrServer, [], 0), bw)), ag_dispatch = (\<lambda>us bw. ([], bw)), ag_show = (\<lambda>_. [])\<rparr>"

theorem offered_tools_documented_witness:
  "\<forall>b. spec_of fill_tool \<notin> set (rq_tools (iter_request pdf_agent 1 [user_text ''hi'']
     (snd (iter_messages pdf_agent 1 (start_run [user_text ''hi''])
       (b, \<lparr>sw_state = Some (activate ''pdf'' ''u1'' new_state), sw_rest = 0\<rparr>)))))"
proof (intro allI notI)
  fix b :: budget
  let ?bw = "(b, \<lparr>sw_state = Some (activate ''pdf'' ''u1'' new_state), sw_rest = 0 :: nat\<rparr>)"
  obtain msgs w where im: "iter_messages pdf_agent 1 (start_run [user_text ''hi'']) ?bw = (msgs, w)"
    by fastforce
  then have msgs: "msgs = [user_text ''hi'']"
    by (auto simp: iter_messages_def pdf_agent_def start_run_def flat_apply_def Let_def)
  then have "observations_in msgs = {}" by (simp add: observations_in_def user_text_def)
  moreover have "w = gated_reconcile (observations_in msgs) (snd ?bw)"
    using im msgs by (auto simp: iter_messages_def pdf_agent_def start_run_def flat_apply_def Let_def)
  ultimately have gone: "body_of ''pdf'' (state_from w) = None"
    by (simp only: reconciled_body) (simp add: state_from_def activation_defs)
  assume "spec_of fill_tool \<in> set (rq_tools (iter_request pdf_agent 1 [user_text ''hi''] (snd (iter_messages pdf_agent 1
     (start_run [user_text ''hi'']) ?bw))))"
  with im msgs have offered: "spec_of fill_tool \<in> set (rq_tools (iter_request pdf_agent 1 msgs w))" by simp
  have "gate_for pdf_registry (ts_name (spec_of fill_tool)) = Some ''pdf''"
    "ts_name (spec_of fill_tool) \<noteq> LoadToolName" "ts_name (spec_of fill_tool) \<noteq> UnloadToolName"
    by (simp_all add: gate_for_def pdf_registry_def spec_of_def fill_tool_def meta_def_def LoadToolName_def UnloadToolName_def)
  with offered_tools_documented[OF pdf_surface_made _ _ im refl] offered gone show False
    by (auto simp: pdf_agent_def)
qed

end
