(* ===== verification/SkillFile.thy ===== *)
theory SkillFile
  imports Skill Paths
begin

text \<open>
  Skill files (\<^verbatim>\<open>skill/skill.go\<close>): the front-matter parser and the directory loader. The file
  system the loader reads is an argument. Error values carry their sentinel; the paths and quotes of
  the messages are left out.
\<close>

section \<open>Text\<close>

abbreviation LF :: char where "LF \<equiv> CHR 0x0A"
abbreviation CR :: char where "CR \<equiv> CHR 0x0D"

definition bom :: string where "bom = [CHR 0xEF, CHR 0xBB, CHR 0xBF]"
definition delim :: string where "delim = ''---''"
definition FileName :: string where "FileName = ''SKILL.md''"

definition ErrNoFrontmatter :: err where
  [sentinel_defs]: "ErrNoFrontmatter = Sentinel ''skill: missing YAML frontmatter''"
definition ErrBadFrontmatter :: err where
  [sentinel_defs]: "ErrBadFrontmatter = Sentinel ''skill: malformed frontmatter''"
definition ErrNoName :: err where
  [sentinel_defs]: "ErrNoName = Sentinel ''skill: no name''"
definition ErrNoDescription :: err where
  [sentinel_defs]: "ErrNoDescription = Sentinel ''skill: no description''"

fun replace_crlf :: "string \<Rightarrow> string" where
  "replace_crlf (c # d # s) = (if c = CR \<and> d = LF then LF # replace_crlf s else c # replace_crlf (d # s))"
| "replace_crlf s = s"

definition trim_bom :: "string \<Rightarrow> string" where
  "trim_bom s = (if has_prefix s bom then drop (length bom) s else s)"

section \<open>Front matter\<close>

text \<open>Only a matched pair of quotes around the whole value is removed.\<close>

definition unquote :: "string \<Rightarrow> string" where
  "unquote s =
     (if length s \<ge> 2 \<and> (hd s = CHR 0x22 \<and> last s = CHR 0x22 \<or> hd s = CHR 0x27 \<and> last s = CHR 0x27)
      then butlast (tl s) else s)"

text \<open>
  \<^verbatim>\<open>readBlock\<close>, over the remaining lines: the indent found so far, the text, whether any was
  written. The result has the lines after the block.
\<close>

fun read_block :: "nat option \<Rightarrow> string \<Rightarrow> bool \<Rightarrow> string list \<Rightarrow> string \<times> string list" where
  "read_block indent b wrote [] = (b, [])"
| "read_block indent b wrote (line # ls) =
     (if trim_space line = [] then read_block indent (if wrote then b @ [LF] else b) wrote ls
      else
        (let lead = length (takeWhile (\<lambda>c. c = CHR '' '' \<or> c = CHR 0x09) line);
             ind = (case indent of None \<Rightarrow> max lead 1 | Some n \<Rightarrow> n)
         in if lead < ind then (b, line # ls)
            else read_block (Some ind) ((if wrote then b @ [LF] else b) @ drop ind line) True ls))"

lemma read_block_length: "length (snd (read_block indent b wrote ls)) \<le> length ls"
  by (induction indent b wrote ls rule: read_block.induct) (auto simp: Let_def le_SucI)

lemma read_block_le: "read_block indent b wrote ls = (t, rest) \<Longrightarrow> length rest \<le> length ls"
  using read_block_length[of indent b wrote ls] by simp

definition fold_newlines :: "string \<Rightarrow> string" where
  "fold_newlines s = map (\<lambda>c. if c = LF then CHR '' '' else c) s"

function parse_keys :: "string list \<Rightarrow> (string \<rightharpoonup> string) \<Rightarrow> err + (string \<rightharpoonup> string)" where
  "parse_keys [] out = Inr out"
| "parse_keys (line # ls) out =
     (if trim_space line = [] \<or> has_prefix (trim_space line) ''#'' then parse_keys ls out
      else if CHR '':'' \<notin> set line then Inl (Wrapf line [ErrBadFrontmatter])
      else
        (let key = trim_space (takeWhile (\<lambda>c. c \<noteq> CHR '':'') line);
             rest = trim_space (tl (dropWhile (\<lambda>c. c \<noteq> CHR '':'') line))
         in if key = [] then Inl (Wrapf line [ErrBadFrontmatter])
            else if rest \<noteq> ''|'' \<and> rest \<noteq> ''>'' then parse_keys ls (out(key \<mapsto> unquote rest))
            else (case read_block None [] False ls of (block, next) \<Rightarrow>
              parse_keys next (out(key \<mapsto> trim_right_by (\<lambda>c. c = CHR '' '' \<or> c = LF)
                (if rest = ''>'' then fold_newlines block else block))))))"
  by pat_completeness auto
termination
  by (relation "measure (\<lambda>(ls, out). length ls)") (auto dest!: read_block_le[OF sym] simp: le_imp_less_Suc)

definition split_frontmatter :: "string \<Rightarrow> err + (string \<rightharpoonup> string) \<times> string" where
  "split_frontmatter text =
     (let lines = split_on LF (trim_bom (replace_crlf text)) in
      if lines = [] \<or> trim_space (hd lines) \<noteq> delim then Inl ErrNoFrontmatter
      else
        (let front = takeWhile (\<lambda>l. trim_space l \<noteq> delim) (tl lines);
             back = dropWhile (\<lambda>l. trim_space l \<noteq> delim) (tl lines)
         in if back = [] then Inl (Wrapf ''no closing'' [ErrNoFrontmatter])
            else (case parse_keys front Map.empty of
                Inl e \<Rightarrow> Inl e
              | Inr meta \<Rightarrow> Inr (meta, join_with [LF] (tl back)))))"

text \<open>A missing key reads as the empty string.\<close>

definition meta_value :: "(string \<rightharpoonup> string) \<Rightarrow> string \<Rightarrow> string" where
  "meta_value meta k = (case meta k of Some v \<Rightarrow> v | None \<Rightarrow> [])"

definition parse_skill :: "string \<Rightarrow> string \<Rightarrow> err + skill" where
  "parse_skill text source =
     (case split_frontmatter text of
        Inl e \<Rightarrow> Inl (Wrapf source [e])
      | Inr (meta, body) \<Rightarrow>
          (let given = trim_space (meta_value meta ''name'');
               name = (if given = [] \<and> source \<noteq> [] then path_base (path_dir source) else given);
               desc = trim_space (meta_value meta ''description'')
           in if given = [] \<and> (name = [] \<or> name = ''.'' \<or> name = ''/'') then Inl (Wrapf source [ErrNoName])
              else if desc = [] then Inl (Wrapf source [ErrNoDescription])
              else Inr \<lparr>sk_name = name, sk_description = desc, sk_body = trim_space body, sk_source = source\<rparr>))"

section \<open>Loading a directory\<close>

text \<open>
  What \<^verbatim>\<open>os\<close> says of the root, of a path, and of the file at it.
\<close>

record skill_fs =
  fs_entries :: "err + (string \<times> bool) list"
  fs_stat :: "string \<Rightarrow> bool"
  fs_read :: "string \<Rightarrow> err + string"

definition parse_file :: "skill_fs \<Rightarrow> string \<Rightarrow> err + skill" where
  "parse_file fs path = (case fs_read fs path of
     Inl e \<Rightarrow> Inl (Wrapf ''skill: read'' [e]) | Inr text \<Rightarrow> parse_skill text path)"

text \<open>The names seen are those of the skills kept; the second component are the errors reported.\<close>

fun load_entries :: "skill_fs \<Rightarrow> string \<Rightarrow> (string \<times> bool) list \<Rightarrow> skill list \<Rightarrow> err list \<Rightarrow> skill list \<times> err list" where
  "load_entries fs base [] out errs = (out, errs)"
| "load_entries fs base ((name, is_dir) # es) out errs =
     (let path = join_path [base, name, FileName] in
      if \<not> is_dir \<or> \<not> fs_stat fs path then load_entries fs base es out errs
      else (case parse_file fs path of
          Inl e \<Rightarrow> load_entries fs base es out (errs @ [Wrapf ''skill: skipping'' [e]])
        | Inr s \<Rightarrow>
            if sk_name s \<in> set (map sk_name out)
            then load_entries fs base es out (errs @ [Wrapf ''skill: skipping, duplicate skill name'' []])
            else load_entries fs base es (out @ [s]) errs))"

definition load_dir :: "skill_fs \<Rightarrow> string \<Rightarrow> (err + skill list) \<times> err list" where
  "load_dir fs base =
     (case fs_entries fs of
        Inl e \<Rightarrow> if errors_is e ErrNotExist then (Inr [], []) else (Inl (Wrapf ''skill: scan'' [e]), [])
      | Inr es \<Rightarrow> (case load_entries fs base es [] [] of (out, errs) \<Rightarrow> (Inr (sort_key sk_name out), errs)))"

section \<open>Facts\<close>

lemma replace_crlf_free: "CR \<notin> set s \<Longrightarrow> replace_crlf s = s"
  by (induction s rule: replace_crlf.induct) auto

lemma replace_crlf_step: "c \<noteq> CR \<Longrightarrow> replace_crlf (c # s) = c # replace_crlf s"
  by (cases s) auto

definition to_crlf :: "string \<Rightarrow> string" where
  "to_crlf s = concat (map (\<lambda>c. if c = LF then [CR, LF] else [c]) s)"

lemma replace_to_crlf: "CR \<notin> set s \<Longrightarrow> replace_crlf (to_crlf s) = s"
  by (induction s) (auto simp: to_crlf_def replace_crlf_step)

lemma trim_right_Cons:
  assumes "\<not> p c"
  shows "\<exists>t. trim_right_by p (c # s) = c # t"
proof (cases "list_all p s")
  case True
  then have "dropWhile p (rev s @ [c]) = [c]"
    using assms by (auto simp: list_all_iff dropWhile_append)
  then show ?thesis by (simp add: trim_right_by_def)
next
  case False
  then have "dropWhile p (rev s @ [c]) = dropWhile p (rev s) @ [c]"
    by (auto simp: list_all_iff dropWhile_append)
  then show ?thesis by (simp add: trim_right_by_def)
qed

lemma trim_space_Cons: "\<not> is_space c \<Longrightarrow> \<exists>t. trim_space (c # s) = c # t"
  using trim_right_Cons[of is_space c s] by (simp add: trim_space_def trim_by_def trim_left_by_def)

lemma trim_space_skip: "is_space c \<Longrightarrow> trim_space (c # s) = trim_space s"
  by (simp add: trim_space_def trim_by_def trim_left_by_def)

lemma trimmed_ends:
  assumes "trim_space s = s" and "s \<noteq> []"
  shows "\<not> is_space (hd s) \<and> \<not> is_space (last s)"
proof -
  have shorter: "length (trim_space (c # t)) < length (c # t)" if "is_space c" for c t
    using trim_right_length[of is_space "dropWhile is_space t"] length_dropWhile_le[of is_space t] that
    by (simp add: trim_space_def trim_by_def trim_left_by_def)
  have hd: "\<not> is_space (hd s)"
  proof
    assume "is_space (hd s)"
    with shorter[of "hd s" "tl s"] assms show False by simp
  qed
  with assms have "rev (dropWhile is_space (rev s)) = s"
    by (cases s) (simp_all add: trim_space_def trim_by_def trim_left_by_def trim_right_by_def)
  then have "dropWhile is_space (rev s) = rev s" by (metis rev_rev_ident)
  with assms(2) have "\<not> is_space (hd (rev s))" by (metis hd_dropWhile rev_is_Nil_conv)
  with assms(2) hd show ?thesis by (simp add: hd_rev)
qed

lemma spaces_of_lines: "is_space CHR '' ''" "is_space LF" "\<not> is_space CHR ''n''" "\<not> is_space CHR ''d''"
    "\<not> is_space CHR ''-''" "is_space CHR 0x09"
  by (simp_all add: is_space_def)

lemma read_block_started:
  assumes "\<And>l. l \<in> set ls \<Longrightarrow> l = [] \<or> trim_space l \<noteq> []"
  shows "read_block (Some 2) b True (map ((@) ''  '') ls) = (b @ concat (map ((#) LF) ls), [])"
  using assms
proof (induction ls arbitrary: b)
  case (Cons l ls)
  show ?case
  proof (cases "l = []")
    case True
    have "trim_space ''  '' = []" by (simp add: trim_space_def trim_by_def trim_left_by_def trim_right_by_def is_space_def)
    with True Cons show ?thesis by simp
  next
    case False
    with Cons.prems[of l] have "trim_space (''  '' @ l) \<noteq> []"
      by (simp add: trim_space_skip spaces_of_lines)
    with Cons show ?thesis by (simp add: Let_def)
  qed
qed simp

lemma join_lines: "l @ concat (map ((#) LF) ls) = join_with [LF] (l # ls)"
proof (induction ls arbitrary: l)
  case (Cons a ls)
  from Cons.IH[of a, symmetric] show ?case by simp
qed simp

lemma read_block_lines:
  assumes "l \<noteq> []" and "\<not> is_space (hd l)" and "\<And>l. l \<in> set ls \<Longrightarrow> l = [] \<or> trim_space l \<noteq> []"
  shows "read_block None [] False (map ((@) ''  '') (l # ls)) = (join_with [LF] (l # ls), [])"
proof -
  obtain c s where l: "l = c # s" "\<not> is_space c" using assms by (cases l) auto
  then have "c \<noteq> CHR '' ''" "c \<noteq> CHR 0x09" using spaces_of_lines by metis+
  moreover have "trim_space (''  '' @ l) \<noteq> []"
    using trim_space_Cons[OF l(2), of s] l(1) by (auto simp: trim_space_skip spaces_of_lines)
  ultimately have "read_block None [] False (map ((@) ''  '') (l # ls)) =
      read_block (Some 2) l True (map ((@) ''  '') ls)"
    using l by (simp add: Let_def numeral_2_eq_2)
  also have "\<dots> = (l @ concat (map ((#) LF) ls), [])" by (rule read_block_started) (rule assms(3))
  also note join_lines
  finally show ?thesis .
qed

section \<open>Writing a skill file\<close>

text \<open>A skill file as its authors write it: the name, and the description as a block.\<close>

definition skill_front :: "string \<Rightarrow> string list \<Rightarrow> string list" where
  "skill_front name desc = (''name: '' @ name) # ''description: |'' # map ((@) ''  '') desc"

definition skill_text :: "string \<Rightarrow> string list \<Rightarrow> string \<Rightarrow> string" where
  "skill_text name desc body =
     concat (map (\<lambda>l. l @ [LF]) (delim # skill_front name desc @ [delim])) @ body"

definition plain_scalar :: "string \<Rightarrow> bool" where
  "plain_scalar s \<longleftrightarrow> s \<noteq> [] \<and> trim_space s = s \<and> set s \<inter> {LF, CR} = {} \<and> unquote s = s \<and> s \<noteq> ''|'' \<and> s \<noteq> ''>''"

definition plain_block :: "string list \<Rightarrow> bool" where
  "plain_block ls \<longleftrightarrow> join_with [LF] ls \<noteq> [] \<and> trim_space (join_with [LF] ls) = join_with [LF] ls \<and>
     list_all (\<lambda>l. set l \<inter> {LF, CR} = {} \<and> (l = [] \<or> trim_space l \<noteq> []) \<and> trim_space l \<noteq> delim) ls"

lemma plain_block_first:
  assumes "plain_block ls"
  obtains l ls' where "ls = l # ls'" "l \<noteq> []" "\<not> is_space (hd l)"
proof (cases ls)
  case Nil
  with assms show ?thesis by (simp add: plain_block_def)
next
  case (Cons l ls')
  have ends: "\<not> is_space (hd (join_with [LF] ls))" using trimmed_ends assms by (simp add: plain_block_def)
  have "l \<noteq> []"
  proof
    assume "l = []"
    with Cons assms have "ls' \<noteq> []" by (auto simp: plain_block_def)
    with \<open>l = []\<close> Cons ends show False by (simp add: join_with_Cons is_space_def)
  qed
  moreover from this Cons ends have "\<not> is_space (hd l)" by (cases ls') (auto simp: join_with_Cons)
  ultimately show ?thesis using that Cons by blast
qed

lemma trim_right_id: "s \<noteq> [] \<Longrightarrow> \<not> p (last s) \<Longrightarrow> trim_right_by p s = s"
  by (cases s rule: rev_cases) (auto simp: trim_right_by_def)

lemma parse_front:
  assumes "plain_scalar name" and "plain_block desc"
  shows "parse_keys (skill_front name desc) Map.empty =
    Inr [''name'' \<mapsto> name, ''description'' \<mapsto> join_with [LF] desc]"
proof -
  obtain l ls where desc: "desc = l # ls" "l \<noteq> []" "\<not> is_space (hd l)"
    using plain_block_first[OF assms(2)] by metis
  have block: "read_block None [] False (map ((@) ''  '') desc) = (join_with [LF] desc, [])"
    unfolding desc(1) using desc(2,3) assms(2)
    by (intro read_block_lines) (auto simp: desc(1) plain_block_def list_all_iff)
  have "\<not> is_space (last (join_with [LF] desc))" "join_with [LF] desc \<noteq> []"
    using trimmed_ends assms(2) by (auto simp: plain_block_def)
  then have tail: "trim_right_by (\<lambda>c. c = CHR '' '' \<or> c = LF) (join_with [LF] desc) = join_with [LF] desc"
    by (intro trim_right_id) (auto simp: is_space_def)
  obtain t where t: "trim_space (''name: '' @ name) = CHR ''n'' # t"
    using trim_space_Cons[of "CHR ''n''" "''ame: '' @ name"] by (auto simp: spaces_of_lines)
  obtain t' where t': "trim_space ''description: |'' = CHR ''d'' # t'"
    using trim_space_Cons[of "CHR ''d''" "''escription: |''"] by (auto simp: spaces_of_lines)
  have keys: "trim_space ''name'' = ''name''" "trim_space ''description'' = ''description''" "trim_space '' |'' = ''|''"
    by (simp_all add: trim_space_def trim_by_def trim_left_by_def trim_right_by_def is_space_def)
  have "trim_space (CHR '' '' # name) = name"
    using assms(1) by (simp add: trim_space_skip spaces_of_lines plain_scalar_def)
  then have "parse_keys (skill_front name desc) Map.empty =
      parse_keys (''description: |'' # map ((@) ''  '') desc) [''name'' \<mapsto> name]"
    using assms(1) t keys by (simp add: skill_front_def plain_scalar_def Let_def has_prefix_def)
  also have "\<dots> = Inr [''name'' \<mapsto> name, ''description'' \<mapsto> join_with [LF] desc]"
    using t' keys block tail by (simp add: Let_def has_prefix_def)
  finally show ?thesis .
qed

lemma front_no_delim:
  assumes "plain_block desc"
  shows "\<forall>l\<in>set (skill_front name desc). trim_space l \<noteq> delim"
proof -
  have "trim_space (''name: '' @ name) \<noteq> delim"
    using trim_space_Cons[of "CHR ''n''" "''ame: '' @ name"] by (auto simp: spaces_of_lines delim_def)
  moreover have "trim_space ''description: |'' \<noteq> delim"
    using trim_space_Cons[of "CHR ''d''" "''escription: |''"] by (auto simp: spaces_of_lines delim_def)
  moreover have "trim_space (''  '' @ l) = trim_space l" for l
    by (simp add: trim_space_skip spaces_of_lines)
  ultimately show ?thesis using assms by (auto simp: skill_front_def plain_block_def list_all_iff)
qed

lemma skill_text_chars:
  assumes "plain_scalar name" and "plain_block desc"
  shows "\<forall>l\<in>set (delim # skill_front name desc @ [delim]). LF \<notin> set l \<and> CR \<notin> set l"
  using assms by (auto simp: skill_front_def plain_scalar_def plain_block_def list_all_iff delim_def)

lemma parse_normalized:
  assumes "plain_scalar name" and "plain_block desc" and "trim_space body = body"
    and "replace_crlf text = skill_text name desc body \<or> replace_crlf text = bom @ skill_text name desc body"
  shows "parse_skill text source =
    Inr \<lparr>sk_name = name, sk_description = join_with [LF] desc, sk_body = body, sk_source = source\<rparr>"
proof -
  let ?t = "skill_text name desc body"
  have "trim_bom ?t = ?t" by (simp add: trim_bom_def skill_text_def delim_def bom_def has_prefix_def)
  moreover have "trim_bom (bom @ ?t) = ?t" by (simp add: trim_bom_def)
  ultimately have "trim_bom (replace_crlf text) = ?t" using assms(4) by metis
  moreover have "split_on LF ?t = (delim # skill_front name desc @ [delim]) @ split_on LF body"
    unfolding skill_text_def using skill_text_chars[OF assms(1,2)] by (intro split_lines) blast
  moreover have d: "trim_space delim = delim"
    by (simp add: delim_def trim_space_def trim_by_def trim_left_by_def trim_right_by_def is_space_def)
  moreover have "takeWhile (\<lambda>l. trim_space l \<noteq> delim) (skill_front name desc @ delim # xs) = skill_front name desc"
    "dropWhile (\<lambda>l. trim_space l \<noteq> delim) (skill_front name desc @ delim # xs) = delim # xs" for xs
    using front_no_delim[OF assms(2), of name] d by (simp_all add: takeWhile_append dropWhile_append)
  ultimately have "split_frontmatter text =
      Inr ([''name'' \<mapsto> name, ''description'' \<mapsto> join_with [LF] desc], body)"
    unfolding split_frontmatter_def Let_def by (simp add: parse_front[OF assms(1,2)])
  then show ?thesis
    using assms by (simp add: parse_skill_def Let_def meta_value_def plain_scalar_def plain_block_def)
qed

section \<open>Properties\<close>


lemma small_scalars: "plain_scalar ''pdf''" "plain_block [''Forms:'', [], '' fill''] " "trim_space ''Body'' = ''Body''"
  by (simp_all add: plain_scalar_def plain_block_def unquote_def delim_def trim_space_def trim_by_def
      trim_left_by_def trim_right_by_def is_space_def)


text \<open>
  The closing delimiter is looked for in trimmed lines: a description block with an indented rule of
  three dashes ends the front matter, and the rest of it becomes the body.
\<close>

lemma indented_rule_ends_front_matter:
  "parse_skill (concat (map (\<lambda>l. l @ [LF]) [delim, ''name: a'', ''description: |'', ''  one'', ''  ---'', ''  two'', delim]) @ ''Body'') []
     = Inr \<lparr>sk_name = ''a'', sk_description = ''one'', sk_body = ''two'' @ [LF] @ delim @ [LF] @ ''Body'', sk_source = []\<rparr>"
proof -
  let ?rest = "concat (map (\<lambda>l. l @ [LF]) [''  two'', delim]) @ ''Body''"
  have "concat (map (\<lambda>l. l @ [LF]) [delim, ''name: a'', ''description: |'', ''  one'', ''  ---'', ''  two'', delim]) @ ''Body''
      = concat (map (\<lambda>l. l @ [LF]) (delim # skill_front ''a'' [''one''] @ [''  ---''])) @ ?rest"
    by (simp add: skill_front_def)
  moreover have "trim_space ?rest = ''two'' @ [LF] @ delim @ [LF] @ ''Body''"
    by (simp add: delim_def trim_space_def trim_by_def trim_left_by_def trim_right_by_def is_space_def)
  ultimately show ?thesis
    by (simp add: parse_skill_def split_frontmatter_def Let_def skill_front_def delim_def replace_crlf_step
        trim_bom_def bom_def has_prefix_def trim_space_def trim_by_def trim_left_by_def trim_right_by_def
        is_space_def numeral_2_eq_2 unquote_def meta_value_def)
qed

lemma load_entries_kept:
  assumes "load_entries fs base es out errs = (out', errs')" and "distinct (map sk_name out)"
  shows "distinct (map sk_name out') \<and>
    length out' + length errs' = length out + length errs +
      length (filter (\<lambda>(n, d). d \<and> fs_stat fs (join_path [base, n, FileName])) es) \<and>
    (\<forall>s\<in>set out'. s \<in> set out \<or> (\<exists>n. (n, True) \<in> set es \<and> parse_file fs (join_path [base, n, FileName]) = Inr s))"
  using assms
proof (induction fs base es out errs rule: load_entries.induct)
  case (2 fs base name is_dir es out errs)
  let ?path = "join_path [base, name, FileName]"
  consider "\<not> is_dir \<or> \<not> fs_stat fs ?path"
    | e where "is_dir" "fs_stat fs ?path" "parse_file fs ?path = Inl e"
    | s where "is_dir" "fs_stat fs ?path" "parse_file fs ?path = Inr s" "sk_name s \<in> set (map sk_name out)"
    | s where "is_dir" "fs_stat fs ?path" "parse_file fs ?path = Inr s" "sk_name s \<notin> set (map sk_name out)"
    by (cases "parse_file fs ?path") blast+
  then show ?case
  proof cases
    case 1
    with "2.IH"(1)[of ?path] "2.prems" show ?thesis by auto
  next
    case 2
    with "2.IH"(2)[of ?path] "2.prems" show ?thesis by auto
  next
    case 3
    with "2.IH"(3)[of ?path] "2.prems" show ?thesis by auto
  next
    case 4
    with "2.IH"(4)[of ?path] "2.prems" show ?thesis by auto
  qed
qed auto

text \<open>C34: Loading a directory never stalls on one bad file: every directory that holds a skill file is
  either loaded or reported, nothing else is loaded, and the skills that come back are sorted by
  distinct names, so building a registry over them cannot panic and finds each under its name.\<close>

theorem loaded_directory_registers:
  assumes "load_dir fs base = (Inr ss, errs)" and "fs_entries fs = Inr es"
  shows "length ss + length errs =
      length (filter (\<lambda>(n, d). d \<and> fs_stat fs (join_path [base, n, FileName])) es) \<and>
    sorted (map sk_name ss) \<and>
    (\<forall>s\<in>set ss. \<exists>n. (n, True) \<in> set es \<and> parse_file fs (join_path [base, n, FileName]) = Inr s) \<and>
    (\<exists>r. new_registry ss = Some r \<and> (\<forall>s\<in>set ss. rg_by_name r (sk_name s) = Some s))"
proof -
  obtain out where le: "load_entries fs base es [] [] = (out, errs)" and ss: "ss = sort_key sk_name out"
    using assms by (auto simp: load_dir_def split: prod.splits)
  note kept = load_entries_kept[OF le]
  have "distinct (map sk_name ss)"
    using kept ss by (simp add: distinct_map)
  then obtain r where r: "new_registry ss = Some r" by (simp add: new_registry_def)
  then have "\<forall>s\<in>set ss. rg_by_name r (sk_name s) = Some s"
    by (auto simp: new_registry_def comp_def intro!: map_of_is_SomeI split: if_splits)
  with r have "\<exists>r. new_registry ss = Some r \<and> (\<forall>s\<in>set ss. rg_by_name r (sk_name s) = Some s)" by blast
  moreover have "length ss = length out" "set ss = set out" "sorted (map sk_name ss)" by (simp_all add: ss)
  ultimately show ?thesis using kept by simp
qed

definition two_dirs :: skill_fs where
  "two_dirs = \<lparr>fs_entries = Inr [(''a'', True), (''b'', True), (''c'', False)], fs_stat = (\<lambda>_. True),
     fs_read = (\<lambda>p. if p = join_path [''r'', ''a'', FileName]
       then Inr (skill_text ''pdf'' [''Forms:'', [], '' fill''] ''Body'') else Inl ErrNotExist)\<rparr>"

theorem loaded_directory_registers_witness:
  "\<exists>s r errs. load_dir two_dirs ''r'' = (Inr [s], errs) \<and> length errs = 1 \<and>
     new_registry [s] = Some r \<and> rg_by_name r (sk_name s) = Some s"
proof -
  have a: "parse_skill (skill_text ''pdf'' [''Forms:'', [], '' fill''] ''Body'') p = Inr
      \<lparr>sk_name = ''pdf'', sk_description = ''Forms:'' @ [LF, LF] @ '' fill'', sk_body = ''Body'', sk_source = p\<rparr>" for p
    using parse_normalized[OF small_scalars disjI1[OF replace_crlf_free], of p]
    by (simp add: skill_text_def skill_front_def delim_def)
  have paths: "join_path [''r'', ''b'', FileName] \<noteq> join_path [''r'', ''a'', FileName]"
    by (simp add: join_path_def clean_path_def clean_elems_def clean_elem_def is_abs_def has_prefix_def FileName_def)
  obtain s errs where l: "load_dir two_dirs ''r'' = (Inr [s], errs)"
    by (simp add: load_dir_def two_dirs_def parse_file_def Let_def a paths)
  from loaded_directory_registers[OF l, of "[(''a'', True), (''b'', True), (''c'', False)]"]
  show ?thesis using l by (intro exI[of _ s]) (auto simp: two_dirs_def)
qed

end
