(* ===== verification/Calc.thy ===== *)
theory Calc
  imports Errors
begin

text \<open>
  The calculator of the built-in tools (\<^verbatim>\<open>tool/builtin/calc.go\<close>): a recursive-descent evaluator
  over what is left of its input; positions in errors are what has been read. The numbers and what the
  code asks of \<^verbatim>\<open>math\<close> and \<^verbatim>\<open>strconv\<close> are the fields of \<open>calc_ops\<close>, so nothing is
  assumed of floating-point arithmetic.
\<close>

section \<open>The evaluator\<close>

record 'n calc_ops =
  co_parse :: "string \<Rightarrow> 'n option"
  co_add :: "'n \<Rightarrow> 'n \<Rightarrow> 'n"
  co_sub :: "'n \<Rightarrow> 'n \<Rightarrow> 'n"
  co_mul :: "'n \<Rightarrow> 'n \<Rightarrow> 'n"
  co_div :: "'n \<Rightarrow> 'n \<Rightarrow> 'n"
  co_mod :: "'n \<Rightarrow> 'n \<Rightarrow> 'n"
  co_pow :: "'n \<Rightarrow> 'n \<Rightarrow> 'n"
  co_neg :: "'n \<Rightarrow> 'n"
  co_zero :: "'n \<Rightarrow> bool"
  co_sqrt :: "'n \<Rightarrow> 'n"
  co_abs :: "'n \<Rightarrow> 'n"
  co_floor :: "'n \<Rightarrow> 'n"
  co_ceil :: "'n \<Rightarrow> 'n"
  co_round :: "'n \<Rightarrow> 'n"
  co_pi :: 'n
  co_e :: 'n
  co_nan :: "'n \<Rightarrow> bool"
  co_inf :: "'n \<Rightarrow> bool"
  co_integral :: "'n \<Rightarrow> bool"
  co_extreme :: "'n \<Rightarrow> bool"
  co_plain :: "'n \<Rightarrow> string"
  co_general :: "'n \<Rightarrow> string"
  co_six :: "'n \<Rightarrow> string"

text \<open>
  \<^verbatim>\<open>formatNumber\<close> prints integral values below \<open>10 ^ 15\<close> plainly (\<open>co_plain\<close>), extreme ones
  in the general format, everything else with six decimals (\<open>co_six\<close>) less trailing zeros.
\<close>

definition format_number :: "'n calc_ops \<Rightarrow> 'n \<Rightarrow> string" where
  "format_number ops v =
     (if co_integral ops v then co_plain ops v
      else if co_extreme ops v then co_general ops v
      else (let s = trim_right_by (\<lambda>c. c = CHR ''0'') (co_six ops v) in
        if has_suffix s ''.'' then butlast s else s))"

definition ErrCalc :: err where
  "ErrCalc = CallerErr (Sentinel ''builtin: cannot evaluate expression'')"

definition calc_func :: "'n calc_ops \<Rightarrow> string \<Rightarrow> ('n \<Rightarrow> 'n) option" where
  "calc_func ops name =
     (if name = ''sqrt'' then Some (co_sqrt ops)
      else if name = ''abs'' then Some (co_abs ops)
      else if name = ''floor'' then Some (co_floor ops)
      else if name = ''ceil'' then Some (co_ceil ops)
      else if name = ''round'' then Some (co_round ops) else None)"

text \<open>\<open>n\<close> is the length of the source, \<open>t\<close> what is left of it.\<close>

definition calc_errorf :: "nat \<Rightarrow> string \<Rightarrow> string \<Rightarrow> err" where
  "calc_errorf n t msg = Wrapf (msg @ '' at offset '' @ itoa (n - length t)) [ErrCalc]"

definition skip_space :: "string \<Rightarrow> string" where
  "skip_space s = dropWhile (\<lambda>c. c \<in> set ('' '' @ [CHR 0x09, CHR 0x0A, CHR 0x0D])) s"

definition next_is :: "char \<Rightarrow> string \<Rightarrow> bool" where
  "next_is c s = (s \<noteq> [] \<and> hd s = c)"

definition num_char :: "char \<Rightarrow> bool" where
  "num_char c = (c \<in> set ''0123456789.'')"

definition letter :: "char \<Rightarrow> bool" where
  "letter c = (let n = (of_char c :: nat) in 97 \<le> n \<and> n \<le> 122 \<or> 65 \<le> n \<and> n \<le> 90)"

definition calc_number :: "'n calc_ops \<Rightarrow> nat \<Rightarrow> string \<Rightarrow> err + 'n \<times> string" where
  "calc_number ops n t =
     (case co_parse ops (takeWhile num_char t) of
        Some v \<Rightarrow> Inr (v, dropWhile num_char t)
      | None \<Rightarrow> Inl (calc_errorf n t (''malformed number '' @ t)))"

function calc_expr :: "'n calc_ops \<Rightarrow> nat \<Rightarrow> string \<Rightarrow> err + 'n \<times> string"
  and calc_expr_loop :: "'n calc_ops \<Rightarrow> nat \<Rightarrow> 'n \<Rightarrow> string \<Rightarrow> err + 'n \<times> string"
  and calc_term :: "'n calc_ops \<Rightarrow> nat \<Rightarrow> string \<Rightarrow> err + 'n \<times> string"
  and calc_term_loop :: "'n calc_ops \<Rightarrow> nat \<Rightarrow> 'n \<Rightarrow> string \<Rightarrow> err + 'n \<times> string"
  and calc_unary :: "'n calc_ops \<Rightarrow> nat \<Rightarrow> string \<Rightarrow> err + 'n \<times> string"
  and calc_power :: "'n calc_ops \<Rightarrow> nat \<Rightarrow> string \<Rightarrow> err + 'n \<times> string"
  and calc_primary :: "'n calc_ops \<Rightarrow> nat \<Rightarrow> string \<Rightarrow> err + 'n \<times> string"
  and calc_call :: "'n calc_ops \<Rightarrow> nat \<Rightarrow> string \<Rightarrow> err + 'n \<times> string" where
  "calc_expr ops n s =
     (case calc_term ops n s of Inl e \<Rightarrow> Inl e | Inr (v, t) \<Rightarrow> calc_expr_loop ops n v t)"
| "calc_expr_loop ops n v s =
     (let s = skip_space s in
      if next_is CHR ''+'' s then
        (case calc_term ops n (tl s) of Inl e \<Rightarrow> Inl e | Inr (r, t) \<Rightarrow> calc_expr_loop ops n (co_add ops v r) t)
      else if next_is CHR ''-'' s then
        (case calc_term ops n (tl s) of Inl e \<Rightarrow> Inl e | Inr (r, t) \<Rightarrow> calc_expr_loop ops n (co_sub ops v r) t)
      else Inr (v, s))"
| "calc_term ops n s =
     (case calc_unary ops n s of Inl e \<Rightarrow> Inl e | Inr (v, t) \<Rightarrow> calc_term_loop ops n v t)"
| "calc_term_loop ops n v s =
     (let s = skip_space s in
      if next_is CHR ''*'' s then
        (case calc_unary ops n (tl s) of Inl e \<Rightarrow> Inl e | Inr (r, t) \<Rightarrow> calc_term_loop ops n (co_mul ops v r) t)
      else if next_is CHR ''/'' s then
        (case calc_unary ops n (tl s) of Inl e \<Rightarrow> Inl e
         | Inr (r, t) \<Rightarrow> if co_zero ops r then Inl (Wrapf ''division by zero'' [ErrCalc])
                       else calc_term_loop ops n (co_div ops v r) t)
      else if next_is CHR ''%'' s then
        (case calc_unary ops n (tl s) of Inl e \<Rightarrow> Inl e
         | Inr (r, t) \<Rightarrow> if co_zero ops r then Inl (Wrapf ''modulo by zero'' [ErrCalc])
                       else calc_term_loop ops n (co_mod ops v r) t)
      else Inr (v, s))"
| "calc_unary ops n s =
     (let s = skip_space s in
      if next_is CHR ''-'' s then
        (case calc_unary ops n (tl s) of Inl e \<Rightarrow> Inl e | Inr (v, t) \<Rightarrow> Inr (co_neg ops v, t))
      else if next_is CHR ''+'' s then calc_unary ops n (tl s)
      else calc_power ops n s)"
| "calc_power ops n s =
     (case calc_primary ops n s of Inl e \<Rightarrow> Inl e
      | Inr (b, t) \<Rightarrow>
          (let t = skip_space t in
           if \<not> next_is CHR ''^'' t then Inr (b, t)
           else (case calc_unary ops n (tl t) of Inl e \<Rightarrow> Inl e | Inr (x, u) \<Rightarrow> Inr (co_pow ops b x, u))))"
| "calc_primary ops n s =
     (let s = skip_space s in
      if s = [] then Inl (calc_errorf n s ''unexpected end of expression'')
      else if next_is CHR ''('' s then
        (case calc_expr ops n (tl s) of Inl e \<Rightarrow> Inl e
         | Inr (v, t) \<Rightarrow>
             (let t = skip_space t in
              if \<not> next_is CHR '')'' t then Inl (calc_errorf n t ''missing closing parenthesis'')
              else Inr (v, tl t)))
      else if num_char (hd s) then calc_number ops n s
      else if letter (hd s) then calc_call ops n s
      else Inl (calc_errorf n s (''unexpected '' @ [hd s])))"
| "calc_call ops n s =
     (let name = to_lower (takeWhile letter s); t = dropWhile letter s in
      if name = ''pi'' then Inr (co_pi ops, t)
      else if name = ''e'' then Inr (co_e ops, t)
      else (case calc_func ops name of
          None \<Rightarrow> Inl (calc_errorf n s (''unknown function '' @ name @ '' (supported: sqrt, abs, floor, ceil, round)''))
        | Some f \<Rightarrow>
            (let t = skip_space t in
             if \<not> next_is CHR ''('' t then Inl (calc_errorf n t (name @ '' expects a parenthesised argument''))
             else (case calc_expr ops n (tl t) of Inl e \<Rightarrow> Inl e
               | Inr (v, u) \<Rightarrow>
                   (let u = skip_space u in
                    if \<not> next_is CHR '')'' u then Inl (calc_errorf n u ''missing closing parenthesis'')
                    else Inr (f v, tl u))))))"
  by pat_completeness auto

lemma skip_space_le: "length (skip_space s) \<le> length s"
  by (simp add: skip_space_def length_dropWhile_le)

lemma next_is_shorter: "next_is c s \<Longrightarrow> length (tl s) < length s"
  by (cases s) (auto simp: next_is_def)

lemma tl_skip_less: "next_is c (skip_space s) \<Longrightarrow> length (tl (skip_space s)) < length s"
  using next_is_shorter[of c "skip_space s"] skip_space_le[of s] by simp

lemma dropWhile_less: "s \<noteq> [] \<Longrightarrow> p (hd s) \<Longrightarrow> length (dropWhile p s) < length s"
  by (cases s) (auto simp: length_dropWhile_le le_imp_less_Suc)

lemma calc_number_less:
  "calc_number ops n s = Inr (v, t) \<Longrightarrow> s \<noteq> [] \<Longrightarrow> num_char (hd s) \<Longrightarrow> length t < length s"
  by (auto simp: calc_number_def dropWhile_less split: option.splits)

lemma letters_less: "to_lower (takeWhile letter s) = c # cs \<Longrightarrow> length (dropWhile letter s) < length s"
  by (cases s) (auto simp: to_lower_def length_dropWhile_le le_imp_less_Suc split: if_splits)

lemma calc_func_name: "calc_func ops name = Some f \<Longrightarrow> \<exists>c cs. name = c # cs"
  by (auto simp: calc_func_def split: if_splits)

text \<open>Every rule but the two loops consumes at least one byte; this is what ends the recursion.\<close>

lemma consumes:
  "calc_expr_calc_expr_loop_calc_term_calc_term_loop_calc_unary_calc_power_calc_primary_calc_call_dom (Inl (Inl (Inl (ops, n, s)))) \<Longrightarrow> calc_expr ops n s = Inr (v, t) \<Longrightarrow> length t < length s"
  "calc_expr_calc_expr_loop_calc_term_calc_term_loop_calc_unary_calc_power_calc_primary_calc_call_dom (Inl (Inl (Inr (ops, n, w, s)))) \<Longrightarrow> calc_expr_loop ops n w s = Inr (v, t) \<Longrightarrow> length t \<le> length s"
  "calc_expr_calc_expr_loop_calc_term_calc_term_loop_calc_unary_calc_power_calc_primary_calc_call_dom (Inl (Inr (Inl (ops, n, s)))) \<Longrightarrow> calc_term ops n s = Inr (v, t) \<Longrightarrow> length t < length s"
  "calc_expr_calc_expr_loop_calc_term_calc_term_loop_calc_unary_calc_power_calc_primary_calc_call_dom (Inl (Inr (Inr (ops, n, w, s)))) \<Longrightarrow> calc_term_loop ops n w s = Inr (v, t) \<Longrightarrow> length t \<le> length s"
  "calc_expr_calc_expr_loop_calc_term_calc_term_loop_calc_unary_calc_power_calc_primary_calc_call_dom (Inr (Inl (Inl (ops, n, s)))) \<Longrightarrow> calc_unary ops n s = Inr (v, t) \<Longrightarrow> length t < length s"
  "calc_expr_calc_expr_loop_calc_term_calc_term_loop_calc_unary_calc_power_calc_primary_calc_call_dom (Inr (Inl (Inr (ops, n, s)))) \<Longrightarrow> calc_power ops n s = Inr (v, t) \<Longrightarrow> length t < length s"
  "calc_expr_calc_expr_loop_calc_term_calc_term_loop_calc_unary_calc_power_calc_primary_calc_call_dom (Inr (Inr (Inl (ops, n, s)))) \<Longrightarrow> calc_primary ops n s = Inr (v, t) \<Longrightarrow> length t < length s"
  "calc_expr_calc_expr_loop_calc_term_calc_term_loop_calc_unary_calc_power_calc_primary_calc_call_dom (Inr (Inr (Inr (ops, n, s)))) \<Longrightarrow> calc_call ops n s = Inr (v, t) \<Longrightarrow> length t < length s"
proof (induction ops n s and ops n w s and ops n s and ops n w s and ops n s and ops n s and ops n s and ops n s
    arbitrary: v t and v t and v t and v t and v t and v t and v t and v t rule: calc_expr_calc_expr_loop_calc_term_calc_term_loop_calc_unary_calc_power_calc_primary_calc_call.pinduct)
  case (1 ops n s)
  then show ?case by (fastforce simp: calc_expr.psimps split: sum.splits)
next
  case (2 ops n w s)
  show ?case using "2.prems" tl_skip_less[of _ s] skip_space_le[of s] "2.IH"[OF refl]
    by (fastforce simp: calc_expr_loop.psimps[OF "2.hyps"] Let_def simp del: length_tl split: sum.splits if_splits)
next
  case (3 ops n s)
  then show ?case by (fastforce simp: calc_term.psimps split: sum.splits)
next
  case (4 ops n w s)
  show ?case using "4.prems" tl_skip_less[of _ s] skip_space_le[of s] "4.IH"[OF refl]
    by (fastforce simp: calc_term_loop.psimps[OF "4.hyps"] Let_def simp del: length_tl split: sum.splits if_splits)
next
  case (5 ops n s)
  show ?case using "5.prems" tl_skip_less[of _ s] skip_space_le[of s] "5.IH"[OF refl]
    by (fastforce simp: calc_unary.psimps[OF "5.hyps"] Let_def simp del: length_tl split: sum.splits if_splits)
next
  case (6 ops n s)
  obtain b u where p: "calc_primary ops n s = Inr (b, u)" "length u < length s"
    using "6.prems" "6.IH"(1) by (auto simp: calc_power.psimps[OF "6.hyps"] split: sum.splits)
  show ?case
  proof (cases "next_is CHR ''^'' (skip_space u)")
    case True
    with "6.prems" p(1) obtain x where "calc_unary ops n (tl (skip_space u)) = Inr (x, t)"
      by (auto simp: calc_power.psimps[OF "6.hyps"] Let_def simp del: length_tl split: sum.splits)
    from "6.IH"(2)[OF p(1) refl refl _ this] True tl_skip_less[OF True] p(2) show ?thesis by simp
  next
    case False
    with "6.prems" p skip_space_le[of u] show ?thesis
      by (auto simp: calc_power.psimps[OF "6.hyps"] Let_def)
  qed
next
  case (7 ops n s)
  let ?s = "skip_space s"
  have "?s \<noteq> []" using "7.prems" by (auto simp: calc_primary.psimps[OF "7.hyps"] Let_def)
  then consider "next_is CHR ''('' ?s" | "\<not> next_is CHR ''('' ?s" "num_char (hd ?s)"
    | "\<not> next_is CHR ''('' ?s" "\<not> num_char (hd ?s)" by blast
  then show ?case
  proof cases
    case 1
    with "7.prems" \<open>?s \<noteq> []\<close> obtain u where
      e: "calc_expr ops n (tl ?s) = Inr (v, u)" "next_is CHR '')'' (skip_space u)" "t = tl (skip_space u)"
      by (auto simp: calc_primary.psimps[OF "7.hyps"] Let_def split: sum.splits if_splits)
    from "7.IH"(1)[OF refl \<open>?s \<noteq> []\<close> 1 e(1)] tl_skip_less[OF 1] tl_skip_less[OF e(2)] e(3) show ?thesis by simp
  next
    case 2
    with "7.prems" \<open>?s \<noteq> []\<close> calc_number_less[of ops n ?s v t] skip_space_le[of s] show ?thesis
      by (auto simp: calc_primary.psimps[OF "7.hyps"] Let_def)
  next
    case 3
    with "7.prems" \<open>?s \<noteq> []\<close> have "letter (hd ?s)" "calc_call ops n ?s = Inr (v, t)"
      by (auto simp: calc_primary.psimps[OF "7.hyps"] Let_def split: if_splits)
    with 3 \<open>?s \<noteq> []\<close> "7.IH"(2)[OF refl \<open>?s \<noteq> []\<close>] skip_space_le[of s] show ?thesis by simp
  qed
next
  case (8 ops n s)
  let ?name = "to_lower (takeWhile letter s)" and ?t = "dropWhile letter s"
  have named: "length ?t < length s"
  proof (cases ?name)
    case Nil
    with "8.prems" show ?thesis by (auto simp: calc_call.psimps[OF "8.hyps"] Let_def calc_func_def)
  next
    case (Cons c cs)
    then show ?thesis by (rule letters_less)
  qed
  show ?case
  proof (cases "?name = ''pi'' \<or> ?name = ''e''")
    case True
    with "8.prems" named show ?thesis by (auto simp: calc_call.psimps[OF "8.hyps"] Let_def)
  next
    case False
    with "8.prems" obtain f x u where e: "calc_func ops ?name = Some f" "next_is CHR ''('' (skip_space ?t)"
      "calc_expr ops n (tl (skip_space ?t)) = Inr (x, u)" "next_is CHR '')'' (skip_space u)" "t = tl (skip_space u)"
      by (auto simp: calc_call.psimps[OF "8.hyps"] Let_def split: sum.splits if_splits option.splits)
    from "8.IH"[OF refl refl _ _ e(1) refl _ e(3)] False e(2) tl_skip_less[OF e(2)] tl_skip_less[OF e(4)] named e(5)
    show ?thesis by simp
  qed
qed

termination calc_expr
  by (relation "inv_image (less_than <*lex*> less_than) (case_sum
    (case_sum (case_sum (\<lambda>(ops, n, s). (length s, 6)) (\<lambda>(ops, n, v, s). (length s, 0)))
              (case_sum (\<lambda>(ops, n, s). (length s, 5)) (\<lambda>(ops, n, v, s). (length s, 0))))
    (case_sum (case_sum (\<lambda>(ops, n, s). (length s, 4)) (\<lambda>(ops, n, s). (length s, 3)))
              (case_sum (\<lambda>(ops, n, s). (length s, 2)) (\<lambda>(ops, n, s). (length s, 1 :: nat)))))")
   (auto dest!: consumes tl_skip_less simp del: length_tl
     intro: le_neq_implies_less[OF skip_space_le] order_less_le_trans[OF _ length_dropWhile_le])

declare calc_expr.simps [simp del] calc_expr_loop.simps [simp del] calc_term.simps [simp del]
  calc_term_loop.simps [simp del] calc_unary.simps [simp del] calc_power.simps [simp del]
  calc_primary.simps [simp del] calc_call.simps [simp del]


definition eval_expr :: "'n calc_ops \<Rightarrow> string \<Rightarrow> err + string" where
  "eval_expr ops src =
     (if trim_space src = [] then Inl (Wrapf ''field 'expression' must not be empty'' [ErrCalc])
      else (case calc_expr ops (length src) src of
          Inl e \<Rightarrow> Inl e
        | Inr (v, t) \<Rightarrow>
            (let t = skip_space t in
             if t \<noteq> [] then Inl (calc_errorf (length src) t (''unexpected '' @ [hd t]))
             else if co_nan ops v then Inl (Wrapf ''result is not a number'' [ErrCalc])
             else if co_inf ops v then Inl (Wrapf ''result overflowed to infinity'' [ErrCalc])
             else Inr (format_number ops v))))"

section \<open>Expressions\<close>

text \<open>The trees the grammar stands for, what they mean, and how they are written with no more
  parentheses than precedence asks for; \<open>p\<close> is the tightest level the context accepts.\<close>

datatype calc_op = OpAdd | OpSub | OpMul | OpDiv | OpMod | OpPow

datatype calc_ast =
    Lit string
  | PiConst
  | EConst
  | Neg calc_ast
  | Pos calc_ast
  | Bin calc_op calc_ast calc_ast
  | Fn string calc_ast

fun apply_op :: "'n calc_ops \<Rightarrow> calc_op \<Rightarrow> 'n \<Rightarrow> 'n \<Rightarrow> err + 'n" where
  "apply_op ops OpAdd x y = Inr (co_add ops x y)"
| "apply_op ops OpSub x y = Inr (co_sub ops x y)"
| "apply_op ops OpMul x y = Inr (co_mul ops x y)"
| "apply_op ops OpDiv x y = (if co_zero ops y then Inl (Wrapf ''division by zero'' [ErrCalc]) else Inr (co_div ops x y))"
| "apply_op ops OpMod x y = (if co_zero ops y then Inl (Wrapf ''modulo by zero'' [ErrCalc]) else Inr (co_mod ops x y))"
| "apply_op ops OpPow x y = Inr (co_pow ops x y)"

definition both :: "(err + 'a) \<Rightarrow> ('a \<Rightarrow> err + 'b) \<Rightarrow> err + 'b" where
  "both r f = (case r of Inl e \<Rightarrow> Inl e | Inr v \<Rightarrow> f v)"

fun eval_ast :: "'n calc_ops \<Rightarrow> calc_ast \<Rightarrow> err + 'n" where
  "eval_ast ops (Lit s) = Inr (the (co_parse ops s))"
| "eval_ast ops PiConst = Inr (co_pi ops)"
| "eval_ast ops EConst = Inr (co_e ops)"
| "eval_ast ops (Neg a) = both (eval_ast ops a) (\<lambda>v. Inr (co_neg ops v))"
| "eval_ast ops (Pos a) = eval_ast ops a"
| "eval_ast ops (Bin k a b) = both (eval_ast ops a) (\<lambda>x. both (eval_ast ops b) (apply_op ops k x))"
| "eval_ast ops (Fn f a) = both (eval_ast ops a) (\<lambda>v. Inr (the (calc_func ops f) v))"

fun op_char :: "calc_op \<Rightarrow> char" where
  "op_char OpAdd = CHR ''+''"
| "op_char OpSub = CHR ''-''"
| "op_char OpMul = CHR ''*''"
| "op_char OpDiv = CHR ''/''"
| "op_char OpMod = CHR ''%''"
| "op_char OpPow = CHR ''^''"

text \<open>The level of an operator, and of its operands: sums and products lean left, powers right.\<close>

fun op_levels :: "calc_op \<Rightarrow> nat \<times> nat \<times> nat" where
  "op_levels OpAdd = (1, 1, 2)"
| "op_levels OpSub = (1, 1, 2)"
| "op_levels OpMul = (2, 2, 3)"
| "op_levels OpDiv = (2, 2, 3)"
| "op_levels OpMod = (2, 2, 3)"
| "op_levels OpPow = (4, 5, 3)"

definition parens :: "bool \<Rightarrow> string \<Rightarrow> string" where
  "parens b s = (if b then CHR ''('' # s @ '')'' else s)"

fun show_ast :: "nat \<Rightarrow> calc_ast \<Rightarrow> string" where
  "show_ast p (Lit s) = s"
| "show_ast p PiConst = ''pi''"
| "show_ast p EConst = ''e''"
| "show_ast p (Neg a) = parens (3 < p) (CHR ''-'' # show_ast 3 a)"
| "show_ast p (Pos a) = parens (3 < p) (CHR ''+'' # show_ast 3 a)"
| "show_ast p (Bin k a b) = (case op_levels k of (l, pa, pb) \<Rightarrow>
     parens (l < p) (show_ast pa a @ op_char k # show_ast pb b))"
| "show_ast p (Fn f a) = f @ CHR ''('' # show_ast 1 a @ '')''"

fun ast_ok :: "'n calc_ops \<Rightarrow> calc_ast \<Rightarrow> bool" where
  "ast_ok ops (Lit s) = (s \<noteq> [] \<and> list_all num_char s \<and> co_parse ops s \<noteq> None)"
| "ast_ok ops (Neg a) = ast_ok ops a"
| "ast_ok ops (Pos a) = ast_ok ops a"
| "ast_ok ops (Bin k a b) = (ast_ok ops a \<and> ast_ok ops b)"
| "ast_ok ops (Fn f a) = (calc_func ops f \<noteq> None \<and> ast_ok ops a)"
| "ast_ok ops _ = True"

section \<open>Parsing what is written\<close>

definition lift_rest :: "string \<Rightarrow> (err + 'n) \<Rightarrow> err + 'n \<times> string" where
  "lift_rest t r = both r (\<lambda>v. Inr (v, t))"

definition fresh :: "string \<Rightarrow> bool" where
  "fresh t \<longleftrightarrow> t = [] \<or> \<not> num_char (hd t) \<and> \<not> letter (hd t)"

definition follows :: "char list \<Rightarrow> string \<Rightarrow> bool" where
  "follows cs t \<longleftrightarrow> fresh t \<and> (\<forall>c\<in>set cs. \<not> next_is c (skip_space t))"

lemma skip_skip [simp]: "skip_space (skip_space t) = skip_space t"
  by (simp add: skip_space_def)

lemma expr_loop_skip: "calc_expr_loop ops n v (skip_space t) = calc_expr_loop ops n v t"
  by (subst (1 2) calc_expr_loop.simps) simp

lemma term_loop_skip: "calc_term_loop ops n v (skip_space t) = calc_term_loop ops n v t"
  by (subst (1 2) calc_term_loop.simps) simp

lemma both_assoc: "both (both r f) g = both r (\<lambda>v. both (f v) g)"
  by (simp add: both_def split: sum.splits)

lemma both_Inr [simp]: "both (Inr v) f = f v"
  by (simp add: both_def)

lemma calc_steps:
  "calc_expr ops n s = both (calc_term ops n s) (\<lambda>(v, t). calc_expr_loop ops n v t)"
  "calc_term ops n s = both (calc_unary ops n s) (\<lambda>(v, t). calc_term_loop ops n v t)"
  by (auto simp: both_def calc_expr.simps calc_term.simps split: sum.splits)


definition reads_primary :: "'n calc_ops \<Rightarrow> nat \<Rightarrow> string \<Rightarrow> (err + 'n) \<Rightarrow> bool" where
  "reads_primary ops n s r \<longleftrightarrow> (\<forall>t. fresh t \<longrightarrow> calc_primary ops n (s @ t) = lift_rest t r)"

definition reads_unary :: "'n calc_ops \<Rightarrow> nat \<Rightarrow> string \<Rightarrow> (err + 'n) \<Rightarrow> bool" where
  "reads_unary ops n s r \<longleftrightarrow>
     (\<forall>t. follows ''^'' t \<longrightarrow> calc_unary ops n (s @ t) = lift_rest (skip_space t) r)"

definition reads_term :: "'n calc_ops \<Rightarrow> nat \<Rightarrow> string \<Rightarrow> (err + 'n) \<Rightarrow> bool" where
  "reads_term ops n s r \<longleftrightarrow>
     (\<forall>t. follows ''^'' t \<longrightarrow> calc_term ops n (s @ t) = both r (\<lambda>v. calc_term_loop ops n v t))"

definition reads_expr :: "'n calc_ops \<Rightarrow> nat \<Rightarrow> string \<Rightarrow> (err + 'n) \<Rightarrow> bool" where
  "reads_expr ops n s r \<longleftrightarrow>
     (\<forall>t. follows ''^*/%'' t \<longrightarrow> calc_expr ops n (s @ t) = both r (\<lambda>v. calc_expr_loop ops n v t))"

text \<open>A mark: a character that is not blank and not part of a number or name.\<close>

definition mark :: "char \<Rightarrow> bool" where
  "mark c \<longleftrightarrow> skip_space [c] = [c] \<and> \<not> num_char c \<and> \<not> letter c"

lemma marks [simp]:
  "mark CHR ''('' " "mark CHR '')''" "mark CHR ''+''" "mark CHR ''-''" "mark CHR ''*''" "mark CHR ''/''"
  "mark CHR ''%''" "mark CHR ''^''"
  by (simp_all add: mark_def skip_space_def num_char_def letter_def)

lemma skip_mark: "mark c \<Longrightarrow> skip_space (c # t) = c # t"
  by (auto simp: mark_def skip_space_def)

lemma next_is_Cons [simp]: "next_is c (d # t) = (d = c)" "\<not> next_is c []"
  by (auto simp: next_is_def)

lemma follows_mark: "mark d \<Longrightarrow> d \<notin> set cs \<Longrightarrow> follows cs (d # t)"
  by (auto simp: follows_def fresh_def skip_mark mark_def)

lemma follows_weaken: "follows cs t \<Longrightarrow> set ds \<subseteq> set cs \<Longrightarrow> follows ds t"
  by (auto simp: follows_def)

lemma reads_paren:
  assumes "reads_expr ops n s r"
  shows "reads_primary ops n (CHR ''('' # s @ '')'') r"
  unfolding reads_primary_def
proof (intro allI impI)
  fix t assume "fresh t"
  have "calc_expr_loop ops n v (CHR '')'' # t) = Inr (v, CHR '')'' # t)" for v
    by (subst calc_expr_loop.simps) (simp add: skip_mark)
  with assms have "calc_expr ops n (s @ CHR '')'' # t) = both r (\<lambda>v. Inr (v, CHR '')'' # t))"
    by (simp add: reads_expr_def follows_mark)
  then show "calc_primary ops n ((CHR ''('' # s @ '')'') @ t) = lift_rest t r"
    by (subst calc_primary.simps) (simp add: skip_mark lift_rest_def both_def split: sum.splits)
qed

lemma reads_primary_unary:
  assumes "reads_primary ops n (c # s) r" and "skip_space [c] = [c]" and "c \<noteq> CHR ''-''" and "c \<noteq> CHR ''+''"
  shows "reads_unary ops n (c # s) r"
  unfolding reads_unary_def
proof (intro allI impI)
  fix t assume t: "follows ''^'' t"
  have skip: "skip_space (c # u) = c # u" for u
    using assms(2) by (auto simp: skip_space_def split: if_splits)
  have "calc_primary ops n (c # s @ t) = lift_rest t r"
    using assms(1) t by (simp add: reads_primary_def follows_def)
  then have "calc_power ops n (c # s @ t) = lift_rest (skip_space t) r"
    using t by (subst calc_power.simps) (auto simp: lift_rest_def both_def follows_def split: sum.splits)
  then show "calc_unary ops n ((c # s) @ t) = lift_rest (skip_space t) r"
    using assms(3,4) by (subst calc_unary.simps) (simp add: skip)
qed

lemma reads_unary_term: "reads_unary ops n s r \<Longrightarrow> reads_term ops n s r"
  by (simp add: reads_unary_def reads_term_def calc_steps lift_rest_def both_assoc term_loop_skip)

lemma reads_term_expr:
  assumes "reads_term ops n s r"
  shows "reads_expr ops n s r"
  unfolding reads_expr_def
proof (intro allI impI)
  fix t assume t: "follows ''^*/%'' t"
  then have "calc_term_loop ops n v t = Inr (v, skip_space t)" for v
    by (subst calc_term_loop.simps) (simp add: follows_def)
  with assms t show "calc_expr ops n (s @ t) = both r (\<lambda>v. calc_expr_loop ops n v t)"
    by (simp add: reads_term_def calc_steps(1) both_assoc expr_loop_skip follows_weaken)
qed

lemma reads_sign:
  assumes "reads_unary ops n s r"
  shows "reads_unary ops n (CHR ''-'' # s) (both r (\<lambda>v. Inr (co_neg ops v)))"
    and "reads_unary ops n (CHR ''+'' # s) r"
  using assms
  by (auto simp: reads_unary_def calc_unary.simps[of ops n "_ # _"] skip_mark lift_rest_def both_def split: sum.splits)

lemma reads_power:
  assumes "reads_primary ops n (c # s) r" and "skip_space [c] = [c]" and "c \<noteq> CHR ''-''" and "c \<noteq> CHR ''+''"
    and "reads_unary ops n s' r'"
  shows "reads_unary ops n (c # s @ CHR ''^'' # s') (both r (\<lambda>x. both r' (apply_op ops OpPow x)))"
  unfolding reads_unary_def
proof (intro allI impI)
  fix t assume t: "follows ''^'' t"
  have skip: "skip_space (c # u) = c # u" for u
    using assms(2) by (auto simp: skip_space_def split: if_splits)
  have "calc_primary ops n (c # s @ CHR ''^'' # s' @ t) = lift_rest (CHR ''^'' # s' @ t) r"
    using assms(1) by (simp add: reads_primary_def fresh_def num_char_def letter_def)
  moreover have "calc_unary ops n (s' @ t) = lift_rest (skip_space t) r'"
    using assms(5) t by (simp add: reads_unary_def)
  ultimately have "calc_power ops n (c # s @ CHR ''^'' # s' @ t) =
      lift_rest (skip_space t) (both r (\<lambda>x. both r' (apply_op ops OpPow x)))"
    by (subst calc_power.simps) (auto simp: lift_rest_def both_def skip_mark split: sum.splits)
  then show "calc_unary ops n ((c # s @ CHR ''^'' # s') @ t) =
      lift_rest (skip_space t) (both r (\<lambda>x. both r' (apply_op ops OpPow x)))"
    using assms(3,4) by (subst calc_unary.simps) (simp add: skip)
qed

lemma reads_product:
  assumes "reads_term ops n s r" and "reads_unary ops n s' r'" and "k \<in> {OpMul, OpDiv, OpMod}"
  shows "reads_term ops n (s @ op_char k # s') (both r (\<lambda>x. both r' (apply_op ops k x)))"
  unfolding reads_term_def
proof (intro allI impI)
  fix t assume t: "follows ''^'' t"
  have m: "mark (op_char k)" "follows ''^'' (op_char k # s' @ t)"
    using assms(3) by (auto intro!: follows_mark)
  have u: "calc_unary ops n (s' @ t) = lift_rest (skip_space t) r'"
    using assms(2) t by (simp add: reads_unary_def)
  have "calc_term_loop ops n x (op_char k # s' @ t) =
      both r' (\<lambda>y. both (apply_op ops k x y) (\<lambda>v. calc_term_loop ops n v t))" for x
    using assms(3) u
    by (subst calc_term_loop.simps) (auto simp: skip_mark lift_rest_def both_def term_loop_skip split: sum.splits)
  then show "calc_term ops n ((s @ op_char k # s') @ t) =
      both (both r (\<lambda>x. both r' (apply_op ops k x))) (\<lambda>v. calc_term_loop ops n v t)"
    using assms(1) m(2) by (simp add: reads_term_def both_assoc)
qed

lemma reads_sum:
  assumes "reads_expr ops n s r" and "reads_term ops n s' r'" and "k \<in> {OpAdd, OpSub}"
  shows "reads_expr ops n (s @ op_char k # s') (both r (\<lambda>x. both r' (apply_op ops k x)))"
  unfolding reads_expr_def
proof (intro allI impI)
  fix t assume t: "follows ''^*/%'' t"
  have m: "mark (op_char k)" "follows ''^*/%'' (op_char k # s' @ t)"
    using assms(3) by (auto intro!: follows_mark)
  have "calc_term_loop ops n v t = Inr (v, skip_space t)" for v
    using t by (subst calc_term_loop.simps) (simp add: follows_def)
  then have u: "calc_term ops n (s' @ t) = lift_rest (skip_space t) r'"
    using assms(2) follows_weaken[OF t, of "''^''"] by (simp add: reads_term_def lift_rest_def)
  have "calc_expr_loop ops n x (op_char k # s' @ t) =
      both r' (\<lambda>y. both (apply_op ops k x y) (\<lambda>v. calc_expr_loop ops n v t))" for x
    using assms(3) u
    by (subst calc_expr_loop.simps) (auto simp: skip_mark lift_rest_def both_def expr_loop_skip split: sum.splits)
  then show "calc_expr ops n ((s @ op_char k # s') @ t) =
      both (both r (\<lambda>x. both r' (apply_op ops k x))) (\<lambda>v. calc_expr_loop ops n v t)"
    using assms(1) m(2) by (simp add: reads_expr_def both_assoc)
qed


lemma num_char_solid: "num_char c \<Longrightarrow> skip_space (c # t) = c # t \<and> c \<noteq> CHR ''('' \<and> c \<noteq> CHR ''-'' \<and> c \<noteq> CHR ''+''"
  by (auto simp: num_char_def skip_space_def)

lemma letter_solid: "letter c \<Longrightarrow> skip_space (c # t) = c # t \<and> c \<noteq> CHR ''('' \<and> c \<noteq> CHR ''-'' \<and> c \<noteq> CHR ''+'' \<and> \<not> num_char c"
proof -
  assume "letter c"
  moreover have "\<not> letter d" if "d \<in> set (''0123456789. (-+'' @ [CHR 0x09, CHR 0x0A, CHR 0x0D])" for d
    using that by (auto simp: letter_def)
  ultimately have "c \<notin> set (''0123456789. (-+'' @ [CHR 0x09, CHR 0x0A, CHR 0x0D])" by blast
  then show ?thesis by (simp add: skip_space_def num_char_def)
qed

lemma takeWhile_fresh:
  assumes "list_all p s" and "t = [] \<or> \<not> p (hd t)"
  shows "takeWhile p (s @ t) = s \<and> dropWhile p (s @ t) = t"
  using assms by (induction s) (cases t; simp)+

lemma reads_literal:
  assumes "s \<noteq> []" and "list_all num_char s" and "co_parse ops s = Some v"
  shows "reads_primary ops n s (Inr v)"
  unfolding reads_primary_def
proof (intro allI impI)
  fix t assume "fresh t"
  then have "takeWhile num_char (s @ t) = s" "dropWhile num_char (s @ t) = t"
    using takeWhile_fresh[OF assms(2), of t] by (auto simp: fresh_def)
  moreover obtain c s' where "s = c # s'" "num_char c" using assms(1,2) by (cases s) auto
  ultimately show "calc_primary ops n (s @ t) = lift_rest t (Inr v)"
    using num_char_solid[of c "s' @ t"] assms(3)
    by (subst calc_primary.simps) (auto simp: Let_def next_is_def calc_number_def lift_rest_def)
qed

lemma reads_name:
  assumes "s \<noteq> []" and "list_all letter s"
    and "\<And>t. fresh t \<or> hd t = CHR ''('' \<Longrightarrow> takeWhile letter (s @ t) = s \<Longrightarrow> dropWhile letter (s @ t) = t \<Longrightarrow>
      calc_call ops n (s @ t) = f t"
    and "fresh t \<or> t \<noteq> [] \<and> hd t = CHR ''(''"
  shows "calc_primary ops n (s @ t) = f t"
proof -
  have "t = [] \<or> \<not> letter (hd t)" using assms(4) by (auto simp: fresh_def letter_def)
  note w = takeWhile_fresh[OF assms(2) this]
  obtain c s' where "s = c # s'" "letter c" using assms(1,2) by (cases s) auto
  then show ?thesis
    using letter_solid[of c "s' @ t"] assms(3)[of t] assms(4) w
    by (subst calc_primary.simps) (auto simp: Let_def next_is_def)
qed

lemma reads_constant:
  "reads_primary ops n ''pi'' (Inr (co_pi ops))" "reads_primary ops n ''e'' (Inr (co_e ops))"
proof -
  show "reads_primary ops n ''pi'' (Inr (co_pi ops))"
    unfolding reads_primary_def
    by (intro allI impI reads_name)
      (auto simp: letter_def lift_rest_def calc_call.simps[of ops n "''pi'' @ _", simplified] to_lower_def to_lower_char_def Let_def)
  show "reads_primary ops n ''e'' (Inr (co_e ops))"
    unfolding reads_primary_def
    by (intro allI impI reads_name)
      (auto simp: letter_def lift_rest_def calc_call.simps[of ops n "''e'' @ _", simplified] to_lower_def to_lower_char_def Let_def)
qed

lemma calc_func_names:
  "calc_func ops f = Some g \<Longrightarrow> f \<noteq> [] \<and> list_all letter f \<and> to_lower f = f \<and> f \<noteq> ''pi'' \<and> f \<noteq> ''e''"
  by (auto simp: calc_func_def letter_def to_lower_def to_lower_char_def split: if_splits)

lemma reads_function:
  assumes "calc_func ops f = Some g" and "reads_expr ops n s r"
  shows "reads_primary ops n (f @ CHR ''('' # s @ '')'') (both r (\<lambda>v. Inr (g v)))"
  unfolding reads_primary_def
proof (intro allI impI)
  fix t assume "fresh t"
  note names = calc_func_names[OF assms(1)]
  let ?u = "CHR ''('' # s @ CHR '')'' # t"
  have "calc_expr_loop ops n v (CHR '')'' # t) = Inr (v, CHR '')'' # t)" for v
    by (subst calc_expr_loop.simps) (simp add: skip_mark)
  with assms(2) have e: "calc_expr ops n (s @ CHR '')'' # t) = both r (\<lambda>v. Inr (v, CHR '')'' # t))"
    by (simp add: reads_expr_def follows_mark)
  have w: "takeWhile letter (f @ ?u) = f" "dropWhile letter (f @ ?u) = ?u"
    using takeWhile_fresh[of letter f ?u] names by (auto simp: letter_def)
  have "calc_call ops n (f @ ?u) = lift_rest t (both r (\<lambda>v. Inr (g v)))"
    using names assms(1) e w
    by (subst calc_call.simps) (auto simp: Let_def skip_mark lift_rest_def both_def split: sum.splits)
  moreover obtain c f' where "f = c # f'" "letter c" using names by (cases f) auto
  ultimately show "calc_primary ops n ((f @ CHR ''('' # s @ '')'') @ t) = lift_rest t (both r (\<lambda>v. Inr (g v)))"
    using letter_solid[of c "f' @ ?u"]
    by (subst calc_primary.simps) (auto simp: Let_def next_is_def)
qed

definition reads_all :: "'n calc_ops \<Rightarrow> nat \<Rightarrow> calc_ast \<Rightarrow> bool" where
  "reads_all ops n a \<longleftrightarrow> reads_primary ops n (show_ast 5 a) (eval_ast ops a) \<and>
     reads_unary ops n (show_ast 3 a) (eval_ast ops a) \<and>
     reads_term ops n (show_ast 2 a) (eval_ast ops a) \<and> reads_expr ops n (show_ast 1 a) (eval_ast ops a)"

definition solid_start :: "string \<Rightarrow> bool" where
  "solid_start s \<longleftrightarrow> (\<exists>c t. s = c # t \<and> skip_space [c] = [c] \<and> c \<noteq> CHR ''-'' \<and> c \<noteq> CHR ''+'')"

lemma show_primary_start: "ast_ok ops a \<Longrightarrow> solid_start (show_ast 5 a)"
proof (cases a)
  case (Lit s)
  assume "ast_ok ops a"
  with Lit show ?thesis using num_char_solid[of _ "[]"] by (cases s) (auto simp: solid_start_def)
next
  case (Fn f b)
  assume "ast_ok ops a"
  with Fn obtain g where "calc_func ops f = Some g" by auto
  with Fn calc_func_names[of ops f g] show ?thesis
    using letter_solid[of _ "[]"] by (cases f) (auto simp: solid_start_def)
next
  case (Bin k b c)
  then show ?thesis by (cases k) (auto simp: solid_start_def parens_def skip_space_def)
qed (auto simp: solid_start_def parens_def skip_space_def)

lemma chain_primary:
  "reads_primary ops n s r \<Longrightarrow> solid_start s \<Longrightarrow> reads_unary ops n s r"
  by (auto simp: solid_start_def intro!: reads_primary_unary)

lemmas chain = reads_unary_term reads_term_expr reads_paren

lemma all_levels: "ast_ok ops a \<Longrightarrow> reads_all ops n a"
proof (induction a)
  case (Lit s)
  then obtain v where "co_parse ops s = Some v" by auto
  with Lit have p: "reads_primary ops n s (eval_ast ops (Lit s))" by (auto intro: reads_literal)
  from chain_primary[OF p] show_primary_start[OF Lit] p show ?case
    by (auto simp: reads_all_def intro: chain)
next
  case PiConst
  have p: "reads_primary ops n ''pi'' (eval_ast ops PiConst)" using reads_constant by simp
  from chain_primary[OF p] show_primary_start[OF PiConst] p show ?case
    by (auto simp: reads_all_def intro: chain)
next
  case EConst
  have p: "reads_primary ops n ''e'' (eval_ast ops EConst)" using reads_constant by simp
  from chain_primary[OF p] show_primary_start[OF EConst] p show ?case
    by (auto simp: reads_all_def intro: chain)
next
  case (Neg a)
  then have u: "reads_unary ops n (CHR ''-'' # show_ast 3 a) (eval_ast ops (Neg a))"
    by (auto simp: reads_all_def intro: reads_sign)
  from reads_paren[OF reads_term_expr[OF reads_unary_term[OF u]]] u show ?case
    by (auto simp: reads_all_def parens_def intro: chain)
next
  case (Pos a)
  then have u: "reads_unary ops n (CHR ''+'' # show_ast 3 a) (eval_ast ops (Pos a))"
    by (auto simp: reads_all_def intro: reads_sign)
  from reads_paren[OF reads_term_expr[OF reads_unary_term[OF u]]] u show ?case
    by (auto simp: reads_all_def parens_def intro: chain)
next
  case (Bin k a b)
  let ?e = "eval_ast ops (Bin k a b)"
  have IH: "reads_all ops n a" "reads_all ops n b" using Bin by auto
  consider "k = OpPow" | "k \<in> {OpMul, OpDiv, OpMod}" | "k \<in> {OpAdd, OpSub}" by (cases k) auto
  then show ?case
  proof cases
    case 1
    obtain c t where "show_ast 5 a = c # t" "skip_space [c] = [c]" "c \<noteq> CHR ''-''" "c \<noteq> CHR ''+''"
      using show_primary_start[of ops a] Bin.prems by (auto simp: solid_start_def)
    with IH 1 have u: "reads_unary ops n (show_ast 5 a @ CHR ''^'' # show_ast 3 b) ?e"
      by (auto simp: reads_all_def intro!: reads_power)
    from reads_paren[OF reads_term_expr[OF reads_unary_term[OF u]]] u 1 show ?thesis
      by (auto simp: reads_all_def parens_def intro: chain)
  next
    case 2
    then have shape: "op_levels k = (2, 2, 3)" by auto
    have t: "reads_term ops n (show_ast 2 a @ op_char k # show_ast 3 b) ?e"
      using IH 2 by (simp add: reads_all_def reads_product)
    have p: "reads_primary ops n (show_ast 5 (Bin k a b)) ?e"
      using reads_paren[OF reads_term_expr[OF t]] shape by (simp add: parens_def)
    from chain_primary[OF p] show_primary_start[OF Bin.prems] t p shape show ?thesis
      by (auto simp: reads_all_def parens_def intro: chain)
  next
    case 3
    then have shape: "op_levels k = (1, 1, 2)" by auto
    have e: "reads_expr ops n (show_ast 1 a @ op_char k # show_ast 2 b) ?e"
      using IH 3 by (simp add: reads_all_def reads_sum)
    have p: "reads_primary ops n (show_ast 5 (Bin k a b)) ?e"
      using reads_paren[OF e] shape by (simp add: parens_def)
    from chain_primary[OF p] show_primary_start[OF Bin.prems] e p shape show ?thesis
      by (auto simp: reads_all_def parens_def intro: chain)
  qed
next
  case (Fn f a)
  then obtain g where g: "calc_func ops f = Some g" by auto
  then have p: "reads_primary ops n (f @ CHR ''('' # show_ast 1 a @ '')'') (eval_ast ops (Fn f a))"
    using Fn by (auto simp: reads_all_def dest!: reads_function[OF g])
  from chain_primary[OF p] show_primary_start[OF Fn.prems] p show ?case
    by (auto simp: reads_all_def intro: chain)
qed


lemma trim_space_solid: "c \<in> set s \<Longrightarrow> \<not> is_space c \<Longrightarrow> trim_space s \<noteq> []"
proof -
  assume c: "c \<in> set s" "\<not> is_space c"
  then have "dropWhile is_space s \<noteq> []" by (metis dropWhile_eq_Nil_conv)
  then have "hd (dropWhile is_space s) \<in> set (rev (dropWhile is_space s))" "\<not> is_space (hd (dropWhile is_space s))"
    by (simp_all add: hd_dropWhile)
  then have "dropWhile is_space (rev (dropWhile is_space s)) \<noteq> []" by (metis dropWhile_eq_Nil_conv)
  then show ?thesis by (simp add: trim_space_def trim_by_def trim_left_by_def trim_right_by_def)
qed

lemma number_not_space: "num_char c \<Longrightarrow> \<not> is_space c" "letter c \<Longrightarrow> \<not> is_space c"
  by (auto simp: num_char_def is_space_def letter_def)

lemma show_ast_solid: "ast_ok ops a \<Longrightarrow> \<exists>c\<in>set (show_ast p a). \<not> is_space c"
proof (induction a arbitrary: p)
  case (Lit s)
  then show ?case using number_not_space(1) by (cases s) auto
next
  case (Bin k a b)
  then show ?case by (cases k) (fastforce simp: parens_def)+
next
  case (Fn f a)
  then show ?case by (auto simp: is_space_def)
qed (auto simp: is_space_def parens_def)

section \<open>Failures\<close>

definition calc_fault :: "err \<Rightarrow> bool" where
  "calc_fault e \<longleftrightarrow> (\<exists>m. e = Wrapf m [ErrCalc])"

lemma calc_number_fault: "calc_number ops n s = Inl e \<Longrightarrow> calc_fault e"
  by (auto simp: calc_number_def calc_fault_def calc_errorf_def split: option.splits)

lemma calc_faults:
  "calc_expr ops n s = Inl e \<Longrightarrow> calc_fault e"
  "calc_expr_loop ops n w s = Inl e \<Longrightarrow> calc_fault e"
  "calc_term ops n s = Inl e \<Longrightarrow> calc_fault e"
  "calc_term_loop ops n w s = Inl e \<Longrightarrow> calc_fault e"
  "calc_unary ops n s = Inl e \<Longrightarrow> calc_fault e"
  "calc_power ops n s = Inl e \<Longrightarrow> calc_fault e"
  "calc_primary ops n s = Inl e \<Longrightarrow> calc_fault e"
  "calc_call ops n s = Inl e \<Longrightarrow> calc_fault e"
proof (induction ops n s and ops n w s and ops n s and ops n w s and ops n s and ops n s and ops n s and ops n s
    arbitrary: e and e and e and e and e and e and e and e rule: calc_expr_calc_expr_loop_calc_term_calc_term_loop_calc_unary_calc_power_calc_primary_calc_call.induct)
  case (1 ops n s)
  then show ?case by (auto simp: calc_expr.simps split: sum.splits)
next
  case (2 ops n w s)
  then show ?case by (auto simp: calc_expr_loop.simps[of _ _ _ s] Let_def split: sum.splits if_splits)
next
  case (3 ops n s)
  then show ?case by (auto simp: calc_term.simps split: sum.splits)
next
  case (4 ops n w s)
  then show ?case
    by (auto simp: calc_term_loop.simps[of _ _ _ s] Let_def calc_fault_def split: sum.splits if_splits)
next
  case (5 ops n s)
  then show ?case by (auto simp: calc_unary.simps[of _ _ s] Let_def split: sum.splits if_splits)
next
  case (6 ops n s)
  then show ?case by (auto simp: calc_power.simps Let_def split: sum.splits if_splits)
next
  case (7 ops n s)
  then show ?case
    by (auto simp: calc_primary.simps[of _ _ s] Let_def calc_fault_def calc_errorf_def
        dest: calc_number_fault split: sum.splits if_splits)
next
  case (8 ops n s)
  then show ?case
    by (auto simp: calc_call.simps[of _ _ s] Let_def calc_fault_def calc_errorf_def
        split: sum.splits if_splits option.splits)
qed

section \<open>Properties\<close>

text \<open>C35: The calculator computes what the expression means: any expression tree, written with only the
  parentheses precedence requires, evaluates to the value of the tree. Sums and products group to the
  left, powers to the right and above a sign in front, a sign binds an exponent, operands are evaluated
  left to right, and the first division or remainder by zero is the error.\<close>

theorem calc_evaluates:
  assumes "ast_ok ops a"
  shows "eval_expr ops (show_ast 1 a) = (case eval_ast ops a of
     Inl e \<Rightarrow> Inl e
   | Inr v \<Rightarrow> if co_nan ops v then Inl (Wrapf ''result is not a number'' [ErrCalc])
       else if co_inf ops v then Inl (Wrapf ''result overflowed to infinity'' [ErrCalc])
       else Inr (format_number ops v))"
proof -
  have "trim_space (show_ast 1 a) \<noteq> []"
    using show_ast_solid[OF assms] trim_space_solid by blast
  moreover have "calc_expr ops n (show_ast 1 a @ []) = both (eval_ast ops a) (\<lambda>v. calc_expr_loop ops n v [])" for n
    using all_levels[OF assms, of n] by (auto simp: reads_all_def reads_expr_def follows_def fresh_def skip_space_def)
  moreover have "calc_expr_loop ops n v [] = Inr (v, [])" for n v
    by (simp add: calc_expr_loop.simps skip_space_def)
  ultimately show ?thesis
    by (auto simp: eval_expr_def both_def skip_space_def split: sum.splits)
qed

definition toy_ops :: "int calc_ops" where
  "toy_ops = \<lparr>co_parse = (\<lambda>s. if s = ''2'' then Some 2 else if s = ''3'' then Some 3 else None),
     co_add = (+), co_sub = (-), co_mul = (*), co_div = (div), co_mod = (mod), co_pow = (\<lambda>x y. x ^ nat y),
     co_neg = uminus, co_zero = (\<lambda>x. x = 0), co_sqrt = id, co_abs = abs, co_floor = id, co_ceil = id,
     co_round = id, co_pi = 3, co_e = 2, co_nan = (\<lambda>_. False), co_inf = (\<lambda>_. False),
     co_integral = (\<lambda>_. True), co_extreme = (\<lambda>_. False),
     co_plain = (\<lambda>v. if v < 0 then ''-'' @ itoa (nat (- v)) else itoa (nat v)),
     co_general = (\<lambda>_. []), co_six = (\<lambda>_. [])\<rparr>"

theorem calc_evaluates_witness:
  "eval_expr toy_ops ''2-3--2^3^2*(2-2)'' = Inr ''-1'' \<and>
   eval_expr toy_ops ''2/(2-2)'' = Inl (Wrapf ''division by zero'' [ErrCalc])"
proof -
  let ?two = "Lit ''2''" and ?three = "Lit ''3''"
  let ?a = "Bin OpSub (Bin OpSub ?two ?three)
    (Bin OpMul (Neg (Bin OpPow ?two (Bin OpPow ?three ?two))) (Bin OpSub ?two ?two))"
  let ?b = "Bin OpDiv ?two (Bin OpSub ?two ?two)"
  have shown: "show_ast 1 ?a = ''2-3--2^3^2*(2-2)''" "show_ast 1 ?b = ''2/(2-2)''" by (simp_all add: parens_def)
  have ok: "ast_ok toy_ops ?a" "ast_ok toy_ops ?b" by (simp_all add: toy_ops_def num_char_def)
  have "char_of (49 :: nat) = CHR ''1''" by code_simp
  then show ?thesis
    using calc_evaluates[OF ok(1)] calc_evaluates[OF ok(2)] unfolding shown
    by (simp add: toy_ops_def both_def format_number_def itoa.simps)
qed

text \<open>Evaluation always returns, and every failure is the caller's: whatever the source text, the
  result is a number or an error of the calculator's class, which counts as a caller fault and so never
  against the tool's circuit breaker.\<close>

theorem calc_failures_are_caller_faults:
  "case eval_expr ops src of Inr s \<Rightarrow> True | Inl e \<Rightarrow> errors_is e ErrCalc \<and> is_caller_fault e"
proof (cases "eval_expr ops src")
  case (Inl e)
  then have "calc_fault e"
    using calc_faults(1)[of ops "length src" src]
    by (auto simp: eval_expr_def Let_def calc_fault_def calc_errorf_def split: sum.splits if_splits)
  with Inl show ?thesis by (auto simp: calc_fault_def ErrCalc_def)
qed simp

end
