(* ===== verification/Sse.thy ===== *)
theory Sse
  imports Errors Json
begin

text \<open>
  Server-sent events: the reader of both provider clients (\<^verbatim>\<open>llm/internal/sse/sse.go\<close>) over the
  lines a \<^verbatim>\<open>bufio.Scanner\<close> makes of a body, and the writer of the event stream of a session
  (\<^verbatim>\<open>httpapi/api.go\<close>), with the resume point of a reconnecting client. A body is the bytes that
  arrive and how reading ends; the JSON of an event is a text that may be missing.
\<close>

section \<open>Lines\<close>

definition ErrTooLong :: err where
  [sentinel_defs]: "ErrTooLong = Sentinel ''bufio.Scanner: token too long''"

definition max_line :: nat where "max_line = 8388608"

definition drop_cr :: "string \<Rightarrow> string" where
  "drop_cr l = (if l \<noteq> [] \<and> last l = CHR 0x0D then butlast l else l)"

text \<open>The scanner returns an unterminated last line unless it is empty.\<close>

definition body_lines :: "string \<Rightarrow> string list" where
  "body_lines body = (let ps = split_on CHR 0x0A body in if last ps = [] then butlast ps else ps)"

fun scan_lines :: "nat \<Rightarrow> string list \<Rightarrow> err option \<Rightarrow> string list \<times> err option" where
  "scan_lines m [] fl = ([], fl)"
| "scan_lines m (l # ls) fl =
     (if m \<le> length l then ([], Some ErrTooLong)
      else (case scan_lines m ls fl of (ts, f) \<Rightarrow> (drop_cr l # ts, f)))"

section \<open>Reading events\<close>

record sse_event =
  ev_type :: string
  ev_data :: string

text \<open>
  One call of \<^verbatim>\<open>Next\<close>: the type, the data, whether data was seen and whether anything was, over the
  lines to come. The result is the event, the error, and the lines left.
\<close>

fun sse_next :: "err option \<Rightarrow> string \<Rightarrow> string \<Rightarrow> bool \<Rightarrow> bool \<Rightarrow> string list
    \<Rightarrow> sse_event option \<times> err option \<times> string list" where
  "sse_next fl ty dat saw seen [] =
     (case fl of Some e \<Rightarrow> (None, Some e, [])
      | None \<Rightarrow> (if seen then Some \<lparr>ev_type = ty, ev_data = dat\<rparr> else None, None, []))"
| "sse_next fl ty dat saw seen (l # ls) =
     (let line = drop_cr l in
      if line = [] then
        (if seen then (Some \<lparr>ev_type = ty, ev_data = dat\<rparr>, None, ls) else sse_next fl ty dat saw seen ls)
      else if hd line = CHR '':'' then sse_next fl ty dat saw seen ls
      else
        (let field = takeWhile (\<lambda>c. c \<noteq> CHR '':'') line;
             val = (if CHR '':'' \<in> set line then tl (dropWhile (\<lambda>c. c \<noteq> CHR '':'') line) else []);
             val = (if has_prefix val '' '' then tl val else val)
         in if field = ''event'' then sse_next fl val dat saw True ls
            else if field = ''data''
              then sse_next fl ty ((if saw then dat @ [CHR 0x0A] else dat) @ val) True True ls
            else sse_next fl ty dat saw seen ls))"

lemma sse_next_left:
  "sse_next fl ty dat saw seen ls = (Some ev, e, rest) \<Longrightarrow> length rest \<le> length ls - 1"
proof (induction ls arbitrary: ty dat saw seen)
  case (Cons l ls)
  show ?case
  proof (cases "drop_cr l = [] \<and> seen")
    case True
    with Cons.prems show ?thesis by simp
  next
    case False
    with Cons.prems obtain ty' dat' saw' seen' where "sse_next fl ty' dat' saw' seen' ls = (Some ev, e, rest)"
      by (auto simp: Let_def split: if_splits)
    from Cons.IH[OF this] show ?thesis by simp
  qed
qed (auto split: option.splits if_splits)

lemma sse_next_shorter:
  "sse_next fl ty dat saw seen ls = (Some ev, e, rest) \<Longrightarrow> ls \<noteq> [] \<Longrightarrow> length rest < length ls"
  using sse_next_left[of fl ty dat saw seen ls ev e rest] by (cases ls) auto

text \<open>Calling \<^verbatim>\<open>Next\<close> until it says no: the events, and what \<^verbatim>\<open>Err\<close> says then.\<close>

function sse_events :: "err option \<Rightarrow> string list \<Rightarrow> sse_event list \<times> err option" where
  "sse_events fl ls =
     (case sse_next fl [] [] False False ls of
        (None, e, rest) \<Rightarrow> ([], e)
      | (Some ev, e, rest) \<Rightarrow>
          if ls = [] then ([ev], e)
          else (case sse_events fl rest of (evs, e) \<Rightarrow> (ev # evs, e)))"
  by pat_completeness auto
termination
  by (relation "measure (\<lambda>(fl, ls). length ls)") (auto dest!: sse_next_shorter[OF sym])

declare sse_events.simps [simp del]

definition sse_read :: "string \<Rightarrow> err option \<Rightarrow> sse_event list \<times> err option" where
  "sse_read body fl = (case scan_lines max_line (body_lines body) fl of (ls, f) \<Rightarrow> sse_events f ls)"

section \<open>Writing the stream of a session\<close>

text \<open>
  The handler's writes: heartbeats, frames (an event that cannot be rendered writes nothing) and the
  final summary. The retry hint comes first.
\<close>

datatype stream_write = Ping | SendFrame nat string "string option" | SendEnd "string option"

definition frame_lines :: "stream_write \<Rightarrow> string list" where
  "frame_lines x = (case x of
     Ping \<Rightarrow> ['': ping'']
   | SendFrame q kind (Some d) \<Rightarrow> [''id: '' @ itoa q, ''event: '' @ kind, ''data: '' @ d]
   | SendEnd (Some d) \<Rightarrow> [''event: end'', ''data: '' @ d]
   | _ \<Rightarrow> [])"

definition write_text :: "stream_write \<Rightarrow> string" where
  "write_text x = (if frame_lines x = [] then []
     else concat (map (\<lambda>l. l @ [CHR 0x0A]) (frame_lines x @ [[]])))"

definition retry_hint :: string where
  "retry_hint = ''retry: 1000'' @ [CHR 0x0A, CHR 0x0A]"

definition stream_text :: "stream_write list \<Rightarrow> string" where
  "stream_text ws = retry_hint @ concat (map write_text ws)"

text \<open>Where a client resumes: one past the id it saw last, or the number it asks for.\<close>

definition ErrBadHttpRequest :: err where
  [sentinel_defs]: "ErrBadHttpRequest = Sentinel ''httpapi: malformed request''"

text \<open>\<^verbatim>\<open>strconv.Atoi\<close> on 64 bits: an optional sign, digits, and a range check.\<close>

definition atoi :: "string \<Rightarrow> int option" where
  "atoi s =
     (let neg = has_prefix s ''-''; body = (if neg \<or> has_prefix s ''+'' then tl s else s) in
      if body = [] \<or> \<not> list_all is_digit body then None
      else (let v = (if neg then - int (nat_of_digits body) else int (nat_of_digits body)) in
        if - (2 ^ 63) \<le> v \<and> v < 2 ^ 63 then Some v else None))"

definition resume_from :: "string \<Rightarrow> string \<Rightarrow> err + int" where
  "resume_from last_id from =
     (let raw = trim_space last_id in
      if raw \<noteq> [] then
        (case atoi raw of
           Some n \<Rightarrow> if n < 0 then Inl (Wrapf raw [ErrBadHttpRequest]) else Inr (n + 1)
         | None \<Rightarrow> Inl (Wrapf raw [ErrBadHttpRequest]))
      else
        (let raw = trim_space from in
         if raw \<noteq> [] then
           (case atoi raw of
              Some n \<Rightarrow> if n < 0 then Inl (Wrapf raw [ErrBadHttpRequest]) else Inr n
            | None \<Rightarrow> Inl (Wrapf raw [ErrBadHttpRequest]))
         else Inr 0))"

section \<open>Facts\<close>

abbreviation NL :: char where "NL \<equiv> CHR 0x0A"
abbreviation CR :: char where "CR \<equiv> CHR 0x0D"

fun event_of :: "stream_write \<Rightarrow> sse_event list" where
  "event_of (SendFrame q kind (Some d)) = [\<lparr>ev_type = kind, ev_data = d\<rparr>]"
| "event_of (SendEnd (Some d)) = [\<lparr>ev_type = ''end'', ev_data = d\<rparr>]"
| "event_of _ = []"

definition line_ok :: "nat \<Rightarrow> string \<Rightarrow> bool" where
  "line_ok m l \<longleftrightarrow> l \<noteq> [] \<and> NL \<notin> set l \<and> CR \<notin> set l \<and> length l < m"

text \<open>A write fits: its kind and data are single lines below the reader's bound.\<close>

definition write_ok :: "stream_write \<Rightarrow> bool" where
  "write_ok x \<longleftrightarrow> list_all (line_ok max_line) (frame_lines x)"

lemma drop_cr_ok: "line_ok m l \<Longrightarrow> drop_cr l = l"
  by (metis drop_cr_def last_in_set line_ok_def)

lemma body_lines_append:
  assumes "\<And>l. l \<in> set ls \<Longrightarrow> NL \<notin> set l"
  shows "body_lines (concat (map (\<lambda>l. l @ [NL]) ls) @ b) = ls @ body_lines b"
  using split_lines[OF assms, of ls b] by (simp add: body_lines_def Let_def butlast_append)

lemma body_lines_free: "NL \<notin> set p \<Longrightarrow> body_lines p = (if p = [] then [] else [p])"
  by (simp add: body_lines_def)

lemma scan_lines_ok:
  assumes "\<And>l. l \<in> set ls \<Longrightarrow> l = [] \<or> line_ok m l" and "0 < m"
  shows "scan_lines m ls fl = (ls, fl)"
  using assms
proof (induction ls)
  case (Cons l ls)
  then have "l = [] \<or> line_ok m l" by simp
  then have "\<not> m \<le> length l" "drop_cr l = l"
    using Cons.prems(2) by (auto simp: line_ok_def drop_cr_ok[of m]) (metis drop_cr_def drop_cr_ok line_ok_def)+
  with Cons show ?case by simp
qed simp

text \<open>No event comes out of lines none of which is blank, when reading fails.\<close>

lemma sse_next_broken:
  assumes "\<And>l. l \<in> set ls \<Longrightarrow> drop_cr l \<noteq> []"
  shows "sse_next (Some e) ty dat saw seen ls = (None, Some e, [])"
  using assms by (induction ls arbitrary: ty dat saw seen) (simp_all add: Let_def)

lemma sse_skip_idle:
  assumes "write_ok x" and "event_of x = []"
  shows "sse_next fl [] [] False False (frame_lines x @ [[]] @ ls) = sse_next fl [] [] False False ls"
  using assms by (cases x) (auto simp: frame_lines_def drop_cr_def split: option.splits)

lemma sse_take_event:
  assumes "write_ok x" and "event_of x = [ev]"
  shows "sse_next fl [] [] False False (frame_lines x @ [[]] @ ls) = (Some ev, None, ls)"
proof (cases x)
  case (SendFrame q kind d)
  with assms obtain s where d: "d = Some s" "ev = \<lparr>ev_type = kind, ev_data = s\<rparr>" by (cases d) auto
  have "drop_cr (''id: '' @ itoa q) = ''id: '' @ itoa q" "drop_cr (''event: '' @ kind) = ''event: '' @ kind"
    "drop_cr (''data: '' @ s) = ''data: '' @ s"
    using assms(1) SendFrame d by (auto simp: write_ok_def frame_lines_def dest!: drop_cr_ok)
  moreover have "drop_cr [] = []" by (simp add: drop_cr_def)
  ultimately show ?thesis using SendFrame d
    by (simp add: frame_lines_def Let_def has_prefix_def)
next
  case (SendEnd d)
  with assms obtain s where d: "d = Some s" "ev = \<lparr>ev_type = ''end'', ev_data = s\<rparr>" by (cases d) auto
  have "drop_cr (''data: '' @ s) = ''data: '' @ s"
    using assms(1) SendEnd d by (auto simp: write_ok_def frame_lines_def dest!: drop_cr_ok)
  moreover have "drop_cr [] = []" "drop_cr ''event: end'' = ''event: end''" by (simp_all add: drop_cr_def)
  ultimately show ?thesis using SendEnd d
    by (simp add: frame_lines_def Let_def has_prefix_def)
qed (use assms in auto)

definition lines_of :: "stream_write \<Rightarrow> string list" where
  "lines_of x = (if frame_lines x = [] then [] else frame_lines x @ [[]])"

lemma write_text_lines: "write_text x = concat (map (\<lambda>l. l @ [NL]) (lines_of x))"
  by (simp add: write_text_def lines_of_def)

lemma write_text_all: "concat (map write_text ws) = concat (map (\<lambda>l. l @ [NL]) (concat (map lines_of ws)))"
  by (induction ws) (simp_all add: write_text_lines)

lemma sse_events_None: "sse_next fl [] [] False False ls = (None, e, r) \<Longrightarrow> sse_events fl ls = ([], e)"
  by (subst sse_events.simps) simp

lemma sse_events_Some:
  assumes "sse_next fl [] [] False False ls = (Some ev, e, r)"
  shows "sse_events fl ls = (ev # fst (sse_events fl r), snd (sse_events fl r))"
proof -
  have "ls \<noteq> []" using assms by (auto split: option.splits)
  with assms show ?thesis by (subst sse_events.simps) (auto split: prod.splits)
qed

lemma sse_events_cong:
  assumes "sse_next fl [] [] False False ls = sse_next fl [] [] False False ls'"
  shows "sse_events fl ls = sse_events fl ls'"
proof -
  obtain ev e r where n: "sse_next fl [] [] False False ls' = (ev, e, r)" by (metis prod_cases3)
  with assms show ?thesis using sse_events_None sse_events_Some by (cases ev) metis+
qed

lemma sse_events_writes:
  assumes "list_all write_ok ws"
  shows "sse_events fl (concat (map lines_of ws) @ rest) =
    (concat (map event_of ws) @ fst (sse_events fl rest), snd (sse_events fl rest))"
  using assms
proof (induction ws)
  case (Cons x ws)
  let ?ls = "concat (map lines_of ws) @ rest"
  have len: "event_of x = [] \<or> (\<exists>ev. event_of x = [ev])" by (cases x rule: event_of.cases) auto
  show ?case
  proof (cases "frame_lines x = []")
    case True
    then have "event_of x = []" by (cases x rule: event_of.cases) (auto simp: frame_lines_def)
    with True Cons show ?thesis by (simp add: lines_of_def)
  next
    case False
    show ?thesis
    proof (cases "event_of x")
      case Nil
      with Cons.prems have "sse_events fl (lines_of x @ ?ls) = sse_events fl ?ls"
        using sse_skip_idle[of x fl ?ls] False by (intro sse_events_cong) (simp add: lines_of_def)
      with Cons Nil show ?thesis by simp
    next
      case (Cons ev evs)
      with len have ev: "event_of x = [ev]" by auto
      with \<open>list_all write_ok (x # ws)\<close> have
        "sse_events fl (lines_of x @ ?ls) = (ev # fst (sse_events fl ?ls), snd (sse_events fl ?ls))"
        using sse_take_event[of x ev fl ?ls] False by (intro sse_events_Some) (simp add: lines_of_def)
      with ev Cons.IH \<open>list_all write_ok (x # ws)\<close> show ?thesis by simp
    qed
  qed
qed simp

lemma cut_lines:
  assumes "concat (map (\<lambda>l. l @ [NL]) (ls @ [[]])) = p @ q" and "q \<noteq> []"
    and "\<And>l. l \<in> set ls \<Longrightarrow> line_ok m l"
  shows "\<forall>l\<in>set (body_lines p). line_ok m l"
  using assms
proof (induction ls arbitrary: p)
  case Nil
  then have "p = []" by (cases p) (auto simp: Cons_eq_append_conv)
  then show ?case by (simp add: body_lines_free)
next
  case (Cons l ls)
  have l: "line_ok m l" using Cons.prems(3) by simp
  from Cons.prems(1) consider u where "l = p @ u" "p \<noteq> l" | "p = l" | p' where "p = l @ NL # p'"
    "concat (map (\<lambda>l. l @ [NL]) (ls @ [[]])) = p' @ q"
    by (auto simp: append_eq_append_conv2 Cons_eq_append_conv)
  then show ?case
  proof cases
    case 1
    with l show ?thesis by (auto simp: body_lines_free line_ok_def)
  next
    case 2
    with l show ?thesis by (auto simp: body_lines_free line_ok_def)
  next
    case 3
    have "body_lines (l @ NL # p') = l # body_lines p'"
      using body_lines_append[of "[l]" p'] l by (simp add: line_ok_def)
    with Cons.IH[OF 3(2) Cons.prems(2)] Cons.prems(3) l 3(1) show ?thesis by simp
  qed
qed

lemma trim_space_noop: "(\<And>c. c \<in> set s \<Longrightarrow> \<not> is_space c) \<Longrightarrow> trim_space s = s"
proof -
  assume solid: "\<And>c. c \<in> set s \<Longrightarrow> \<not> is_space c"
  have "dropWhile is_space t = t" if "set t = set s" for t
    using solid that by (cases t) auto
  from this[of s] this[of "rev s"] show ?thesis
    by (simp add: trim_space_def trim_by_def trim_left_by_def trim_right_by_def)
qed

lemma resume_from_id:
  assumes "int q < 2 ^ 63"
  shows "resume_from (itoa q) from = Inr (int q + 1)"
proof -
  have d: "list_all is_digit (itoa q)" "itoa q \<noteq> []" by (simp_all add: itoa_digits)
  have solid: "\<not> is_space c \<and> c \<noteq> CHR ''-'' \<and> c \<noteq> CHR ''+''" if "is_digit c" for c
    using that by (auto simp: is_digit_def is_space_def)
  obtain c s where cs: "itoa q = c # s" "is_digit c" using d by (cases "itoa q") auto
  have "\<not> is_space c" if "c \<in> set (itoa q)" for c using d solid that by (auto simp: list_all_iff)
  then have "trim_space (itoa q) = itoa q" by (rule trim_space_noop)
  moreover have "atoi (itoa q) = Some (int q)"
    using d cs solid[of c] assms nat_of_digits_itoa[of q]
    by (auto simp: atoi_def Let_def has_prefix_def)
  ultimately show ?thesis using d(2) by (simp add: resume_from_def Let_def)
qed

lemma stream_read_back:
  assumes "list_all write_ok ws" and "write_ok x" and "write_text x = p @ q" and "q \<noteq> []"
  shows "sse_read (stream_text ws) None = (concat (map event_of ws), None) \<and>
    sse_read (stream_text ws @ p) (Some e) = (concat (map event_of ws), Some e)"
proof -
  let ?hd = "[''retry: 1000'', []]" and ?ls = "concat (map lines_of ws)"
  have hint: "write_ok (SendFrame 0 [] None)" by (simp add: write_ok_def frame_lines_def)
  have m: "0 < max_line" by (simp add: max_line_def)
  have body: "stream_text ws = concat (map (\<lambda>l. l @ [NL]) (?hd @ ?ls))"
    by (simp add: stream_text_def retry_hint_def write_text_all)
  have ok: "l = [] \<or> line_ok max_line l" if "l \<in> set (?hd @ ?ls)" for l
    using that assms(1)
    by (auto simp: list_all_iff write_ok_def lines_of_def line_ok_def max_line_def split: if_splits)
  have pok: "\<forall>l\<in>set (body_lines p). line_ok max_line l"
  proof (cases "frame_lines x = []")
    case True
    with assms(3,4) show ?thesis by (simp add: write_text_def)
  next
    case False
    then have "concat (map (\<lambda>l. l @ [NL]) (frame_lines x @ [[]])) = p @ q"
      using assms(3) by (simp add: write_text_def)
    from cut_lines[OF this assms(4)] assms(2) show ?thesis by (auto simp: write_ok_def list_all_iff)
  qed
  have nl: "NL \<notin> set l" if "l \<in> set (?hd @ ?ls)" for l using ok[OF that] by (auto simp: line_ok_def)
  have "body_lines (stream_text ws @ p) = (?hd @ ?ls) @ body_lines p"
    unfolding body using nl by (intro body_lines_append)
  moreover have "scan_lines max_line ((?hd @ ?ls) @ body_lines p) fl = ((?hd @ ?ls) @ body_lines p, fl)" for fl
    using ok pok m by (intro scan_lines_ok) auto
  moreover have "body_lines (stream_text ws) = ?hd @ ?ls"
    using body_lines_append[of "?hd @ ?ls" "[]"] nl unfolding body by (simp add: body_lines_free)
  moreover have "scan_lines max_line (?hd @ ?ls) fl = (?hd @ ?ls, fl)" for fl
    using ok m by (intro scan_lines_ok) auto
  moreover have first: "sse_events fl (?hd @ ls) = sse_events fl ls" for fl ls
    by (intro sse_events_cong) (simp add: Let_def drop_cr_def)
  have "sse_next (Some e) [] [] False False (body_lines p) = (None, Some e, [])"
    using pok by (intro sse_next_broken) (metis drop_cr_ok line_ok_def)
  then have "sse_events (Some e) (body_lines p) = ([], Some e)" by (rule sse_events_None)
  moreover have "sse_events None [] = ([], None)" by (rule sse_events_None[of _ _ _ "[]"]) simp
  moreover note sse_events_writes[OF assms(1), of None "[]"] sse_events_writes[OF assms(1), of "Some e" "body_lines p"]
  ultimately show ?thesis using first unfolding sse_read_def by simp
qed

section \<open>Properties\<close>

text \<open>C10: What the event stream writes, the reader reads back: over any interleaving of heartbeats, frames
  and the final summary, the reader yields exactly the events of the frames, in order, with their kinds
  and data; and when the connection breaks inside a frame it yields the complete frames before it and
  the error, never a partial event.\<close>

theorem event_stream_round_trip:
  assumes "list_all write_ok ws" and "write_ok x" and "write_text x = p @ q" and "q \<noteq> []"
  shows "sse_read (stream_text ws) None = (concat (map event_of ws), None) \<and>
    sse_read (stream_text ws @ p) (Some e) = (concat (map event_of ws), Some e)"
  using assms by (rule stream_read_back)

theorem event_stream_round_trip_witness:
  "sse_read (stream_text [Ping, SendFrame 0 ''turn_started'' (Some ''{}''), SendFrame 1 ''x'' None] @ ''event: en'') (Some ErrTooLong) =
     ([\<lparr>ev_type = ''turn_started'', ev_data = ''{}''\<rparr>], Some ErrTooLong)"
proof -
  let ?ws = "[Ping, SendFrame 0 ''turn_started'' (Some ''{}''), SendFrame 1 ''x'' None]"
  have "char_of (48 :: nat) = CHR ''0''" by code_simp
  then have ok: "list_all write_ok ?ws" "write_ok (SendEnd (Some ''{}''))"
    by (simp_all add: write_ok_def frame_lines_def line_ok_def max_line_def itoa.simps)
  have "write_text (SendEnd (Some ''{}'')) = ''event: en'' @ (''d'' @ NL # ''data: {}'' @ [NL, NL])"
    by (simp add: write_text_def frame_lines_def)
  from event_stream_round_trip[OF ok this, of ErrTooLong] show ?thesis by simp
qed

end
