(* ===== verification/EventStream.thy ===== *)
theory EventStream
  imports Session Sse
begin

text \<open>
  The event stream of a session across connections (\<^verbatim>\<open>httpapi/api.go\<close>): each connection is a reader
  of the session's log that starts where the client says to resume, and a reconnecting client says so
  with the id of the last frame it received.
\<close>

text \<open>C9: Reconnecting resumes exactly: whatever happened to the session in between, a client that comes
  back with the id of the last frame it received is given frames strictly after it, so that over both
  connections it sees increasing sequence numbers with no frame twice, every frame under its own number,
  and a number it is passed over has been evicted.\<close>

theorem reconnection_resumes_exactly:
  assumes "(follow_step system_view (session_step ag etext))\<^sup>*\<^sup>*
      (([], new_session cap t0, None, w0), follow_start from, []) ((h, s, p, w), f, ys)"
    and "ys \<noteq> []" and "int (length h) < 2 ^ 63"
    and "resume_from (itoa (fr_seq (snd (last ys)))) query = Inr r"
    and "(follow_step system_view (session_step ag etext))\<^sup>*\<^sup>*
      (([], new_session cap t0, None, w0), follow_start r, []) ((h', s', p', w'), f', zs)"
  shows "r = int (fst (last ys)) + 1 \<and> sorted_wrt (<) (map fst (ys @ zs)) \<and>
    (\<forall>(i, x) \<in> set (ys @ zs). fr_seq x = i) \<and>
    (\<forall>q. f' = Top q \<longrightarrow> (\<forall>i. r \<le> int i \<and> i < q \<and> i \<notin> fst ` set zs \<longrightarrow> i < se_base s'))"
proof -
  have inv: "session_log.follow_inv (nat from) ((h, s, p, w), f, ys)"
    using session_log.follow_reach_inv[OF assms(1)[unfolded follow_start_def] session_start_ok] .
  have inv': "session_log.follow_inv (nat r) ((h', s', p', w'), f', zs)"
    using session_log.follow_reach_inv[OF assms(5)[unfolded follow_start_def] session_start_ok] .
  have seq: "fr_seq (k ! i) = i" if "session_ok (k, u)" "i < length k" for k :: "'a frame list" and u :: "'a session \<times> (nat \<times> convo) option \<times> 'b" and i
  proof -
    have "map fr_seq k = [0..<length k]" using that(1) by (cases u) (auto simp: session_ok_def)
    then have "map fr_seq k ! i = [0..<length k] ! i" by simp
    then show ?thesis using that(2) by simp
  qed
  have ys: "sorted_wrt (<) (map fst ys)" "\<forall>y\<in>set ys. fst y < length h \<and> h ! fst y = snd y"
    using inv by (auto simp: session_log.follow_inv_def session_log.truthful_def)
  have zs: "sorted_wrt (<) (map fst zs)" "\<forall>y\<in>set zs. nat r \<le> fst y \<and> fst y < length h' \<and> h' ! fst y = snd y"
    using inv' by (auto simp: session_log.follow_inv_def session_log.truthful_def)
  have ok: "session_ok (h, s, p, w)" "session_ok (h', s', p', w')"
    using inv inv' by (auto simp: session_log.follow_inv_def)
  have own: "\<forall>y\<in>set ys. fr_seq (snd y) = fst y" "\<forall>y\<in>set zs. fr_seq (snd y) = fst y"
    using ys(2) zs(2) seq[OF ok(1)] seq[OF ok(2)] by metis+
  have last: "last ys \<in> set ys" using assms(2) by simp
  then have "fr_seq (snd (last ys)) = fst (last ys)" "fst (last ys) < length h" using own ys(2) by auto
  then have r: "r = int (fst (last ys)) + 1"
    using assms(3,4) resume_from_id[of "fst (last ys)" query] by simp
  have "fst y \<le> fst (last ys)" if "y \<in> set ys" for y
    using ys(1) that assms(2)
    by (cases ys rule: rev_cases) (auto simp: sorted_wrt_append intro: less_imp_le)
  then have "sorted_wrt (<) (map fst (ys @ zs))"
    using ys(1) zs r by (fastforce simp: sorted_wrt_append)
  moreover have "\<forall>q. f' = Top q \<longrightarrow> (\<forall>i. r \<le> int i \<and> i < q \<and> i \<notin> fst ` set zs \<longrightarrow> i < se_base s')"
    using inv' r
    by (auto simp: session_log.follow_inv_def session_log.delivered_def system_view_def session_view_def)
  ultimately show ?thesis using own r by auto
qed

theorem reconnection_resumes_exactly_witness:
  "\<exists>x :: unit frame. fr_seq x = 0 \<and> resume_from (itoa (fr_seq x)) [] = Inr 1 \<and>
     sorted_wrt (<) (map fst ([(0 :: nat, x)] @ []))"
proof -
  let ?step = "follow_step system_view (session_step stuck (\<lambda>_. ''failed''))"
  let ?c0 = "([], new_session 9 0 :: unit session, None, 0)"
  obtain s1 where s1: "session_send ''hi'' 1 (new_session 9 0 :: unit session) = (Inr (1, ask_input ''hi''), s1)"
    by (simp add: session_send_def new_session_def)
  define x where "x = next_frame 1 (TurnStarted 1 ''hi'') (new_session 9 0 :: unit session)"
  let ?c1 = "([x], s1, Some (1, ask_input ''hi''), 0)"
  have x: "fr_seq x = 0" by (simp add: x_def next_frame_def new_session_def)
  have log1: "se_frames s1 = [x]" "se_base s1 = 0"
    using s1 by (auto simp: session_send_def new_session_def emit_locked_def Let_def session_wake_def
        next_frame_def x_def)
  have "session_step stuck (\<lambda>_. ''failed'') ?c0 ?c1"
    using session_step.send[OF s1, of stuck "\<lambda>_. ''failed''" "[]" 0]
    by (simp add: logged_def x_def new_session_def)
  then have "?step (?c0, Top 0, []) (?c1, Top 0, [])" by (rule follow_step.other)
  moreover have "?step (?c1, Top 0, []) (?c1, Yielding 0 [x], [])"
    using follow_own.look[of system_view ?c1 0 "[]"] log1
    by (intro follow_step.own) (simp add: follow_top_def system_view_def session_view_def)
  moreover have "?step (?c1, Yielding 0 [x], []) (?c1, Top 1, [(0, x)])"
    using follow_own.hand[of system_view ?c1 0 x "[]" "[]"] by (intro follow_step.own) simp
  ultimately have first: "?step\<^sup>*\<^sup>* (?c0, follow_start 0, []) (?c1, Top 1, [(0, x)])"
    by (simp add: follow_start_def)
  have r: "resume_from (itoa (fr_seq (snd (last [(0 :: nat, x)])))) [] = Inr 1"
    using resume_from_id[of 0 "[]"] x by simp
  have "sorted_wrt (<) (map fst ([(0, x)] @ []))"
    using reconnection_resumes_exactly[OF first _ _ r rtranclp.rtrancl_refl] by simp
  with r x show ?thesis by (intro exI[of _ x]) simp
qed

end
