(* ===== verification/Rl.thy ===== *)
theory Rl
  imports AgentLoop Permission
begin

text \<open>
  Rollouts (\<^verbatim>\<open>rl/rl.go\<close>, \<^verbatim>\<open>rl/rollout.go\<close>, \<^verbatim>\<open>rl/group.go\<close>,
  \<^verbatim>\<open>rl/verify.go\<close>): folding an event stream into steps, pricing and classifying an episode,
  scoring it with verifiers, and the statistics of a group of samples. Rewards and costs are real
  numbers. What an environment, an agent and a verifier do is an argument, a panic included; workspaces,
  logs and wall-clock times are not modelled.
\<close>

section \<open>Episodes\<close>

record step =
  sp_iteration :: int
  sp_tools :: "string list"
  sp_failed :: "string list"
  sp_denied :: "string list"
  sp_millis :: int
  sp_usage :: usage

datatype failure_kind =
    Success | KMaxIterations | KBudget | KWallClock | KToolLoop | KContextWindow | KRefused | KMaxTokens
  | KDenied | KPanicked | KCancelled | VerifierFailed | KProvider | KOther

record episode =
  ep_sample :: nat
  ep_task :: string
  ep_steps :: "step list"
  ep_err :: "err option"
  ep_reward :: real
  ep_breakdown :: "string \<rightharpoonup> real"
  ep_cost :: real
  ep_priced :: bool
  ep_unpriced :: "string list"
  ep_failure :: failure_kind

definition usage_sum :: "usage list \<Rightarrow> usage" where
  "usage_sum us = foldl usage_add no_usage us"

definition ep_turns :: "episode \<Rightarrow> nat" where "ep_turns ep = length (ep_steps ep)"

definition ep_tool_calls :: "episode \<Rightarrow> nat" where
  "ep_tool_calls ep = sum_list (map (length \<circ> sp_tools) (ep_steps ep))"

definition ep_tool_errors :: "episode \<Rightarrow> nat" where
  "ep_tool_errors ep = sum_list (map (length \<circ> sp_failed) (ep_steps ep))"

definition ep_usage :: "episode \<Rightarrow> usage" where
  "ep_usage ep = usage_sum (map sp_usage (ep_steps ep))"

definition ep_prompt_tokens :: "episode \<Rightarrow> int" where
  "ep_prompt_tokens ep = (let u = ep_usage ep in u_input u + u_cache_read u + u_cache_write u)"

definition ep_output_tokens :: "episode \<Rightarrow> int" where
  "ep_output_tokens ep = u_output (ep_usage ep)"

section \<open>Folding the event stream\<close>

datatype run_event =
    IterStart int
  | LLMStart string
  | LLMDone string usage int
  | ToolStart string
  | ToolDone tool_use_id string bool "err option"
  | Decided tool_use_id bool
  | SubagentEvent string run_event
  | OtherEvent

record folder =
  fo_steps :: "step list"
  fo_models :: "string list"
  fo_asked :: string
  fo_denied :: "tool_use_id set"

definition empty_folder :: folder where
  "empty_folder = \<lparr>fo_steps = [], fo_models = [], fo_asked = [], fo_denied = {}\<rparr>"

definition new_step :: "int \<Rightarrow> step" where
  "new_step n = \<lparr>sp_iteration = n, sp_tools = [], sp_failed = [], sp_denied = [], sp_millis = 0,
     sp_usage = no_usage\<rparr>"

text \<open>\<^verbatim>\<open>current\<close> opens a step when there is none; \<open>on_current\<close> updates the one it returns.\<close>

definition opened :: "step list \<Rightarrow> step list" where
  "opened ss = (if ss = [] then [new_step 1] else ss)"

definition on_current :: "(step \<Rightarrow> step) \<Rightarrow> folder \<Rightarrow> folder" where
  "on_current f fo = fo\<lparr>fo_steps := butlast (opened (fo_steps fo)) @ [f (last (opened (fo_steps fo)))]\<rparr>"

definition note_model :: "string \<Rightarrow> folder \<Rightarrow> folder" where
  "note_model name fo =
     (let name = (if name = [] then fo_asked fo else name) in
      if name = [] \<or> name \<in> set (fo_models fo) then fo
      else fo\<lparr>fo_models := fo_models fo @ [name]\<rparr>)"

definition refused :: "tool_use_id \<Rightarrow> err option \<Rightarrow> folder \<Rightarrow> bool" where
  "refused i e fo = ((case e of Some e \<Rightarrow> errors_is e ErrDenied | None \<Rightarrow> False) \<or> i \<in> fo_denied fo)"

definition usage_tokens :: "usage \<Rightarrow> int" where
  "usage_tokens u = u_input u + u_output u + u_cache_write u + u_cache_read u"

fun fold_event :: "string \<Rightarrow> run_event \<Rightarrow> folder \<Rightarrow> folder" where
  "fold_event pre (IterStart n) fo =
     (if pre = [] then fo\<lparr>fo_steps := fo_steps fo @ [new_step n]\<rparr> else fo)"
| "fold_event pre (LLMStart m) fo = fo\<lparr>fo_asked := m\<rparr>"
| "fold_event pre (LLMDone m u ms) fo =
     (let fo = on_current (\<lambda>s. s\<lparr>sp_usage := usage_add (sp_usage s) u,
                 sp_millis := (if pre = [] then sp_millis s + ms else sp_millis s)\<rparr>) fo
      in if usage_tokens u > 0 then note_model m fo else fo)"
| "fold_event pre (ToolStart t) fo = on_current (\<lambda>s. s\<lparr>sp_tools := sp_tools s @ [pre @ t]\<rparr>) fo"
| "fold_event pre (ToolDone i t ok e) fo =
     (if ok then fo
      else on_current (\<lambda>s. let s = s\<lparr>sp_failed := sp_failed s @ [pre @ t]\<rparr> in
             if refused i e fo then s\<lparr>sp_denied := sp_denied s @ [pre @ t]\<rparr> else s) fo)"
| "fold_event pre (Decided i allowed) fo =
     (if \<not> allowed then fo\<lparr>fo_denied := insert i (fo_denied fo)\<rparr> else fo)"
| "fold_event pre (SubagentEvent name inner) fo = fold_event (pre @ name @ ''/'') inner fo"
| "fold_event pre OtherEvent fo = fo"

definition fold_events :: "run_event list \<Rightarrow> folder" where
  "fold_events evs = foldl (\<lambda>fo e. fold_event [] e fo) empty_folder evs"

section \<open>Pricing and classifying\<close>

definition priced_spend :: "(string \<times> rate) list option \<Rightarrow> string list \<Rightarrow> episode \<Rightarrow> bool \<times> string list" where
  "priced_spend pricing models ep =
     (if usage_tokens (ep_usage ep) > 0 \<and> ep_cost ep = 0 then (False, models)
      else
        (let unpriced = (case pricing of None \<Rightarrow> [] | Some t \<Rightarrow> filter (\<lambda>m. \<not> priced t m) models)
         in (unpriced = [], unpriced)))"

definition set_priced :: "(string \<times> rate) list option \<Rightarrow> string list \<Rightarrow> episode \<Rightarrow> episode" where
  "set_priced pricing models ep =
     (case priced_spend pricing models ep of (b, us) \<Rightarrow> ep\<lparr>ep_priced := b, ep_unpriced := us\<rparr>)"

definition denials :: "episode \<Rightarrow> nat" where
  "denials ep = sum_list (map (length \<circ> sp_denied) (ep_steps ep))"

definition ErrPanic :: err where
  [sentinel_defs]: "ErrPanic = Sentinel ''wombat: agent loop panicked''"

definition classify :: "episode \<Rightarrow> real \<Rightarrow> failure_kind" where
  "classify ep threshold =
     (case ep_err ep of
        None \<Rightarrow> if ep_reward ep \<ge> threshold then Success else VerifierFailed
      | Some e \<Rightarrow>
          if errors_is e ErrBudgetExhausted then KBudget
          else if errors_is e ErrWallClock \<or> errors_is e ErrDeadlineExceeded then KWallClock
          else if errors_is e ErrToolLoop \<or> errors_is e ErrToolCallLimit then KToolLoop
          else if errors_is e ErrStepLimit then KMaxIterations
          else if errors_is e ErrMaxIterations then KMaxIterations
          else if errors_is e ErrMaxTokens then KMaxTokens
          else if errors_is e ErrRefused then KRefused
          else if errors_is e ErrPanic then KPanicked
          else if errors_is e ErrContextWindow then KContextWindow
          else if errors_is e ErrRateLimit \<or> errors_is e ErrOverloaded \<or> errors_is e ErrServer \<or>
            errors_is e ErrTransport \<or> errors_is e ErrBadRequest \<or> errors_is e ErrAuth \<or> errors_is e ErrNotFound
            then KProvider
          else if errors_is e ErrDenied then KDenied
          else if errors_is e ErrCanceled then KCancelled
          else if denials ep > 0 then KDenied else KOther)"

section \<open>Verifiers\<close>

text \<open>A verifier gives a name and a score, or panics (\<^const>\<open>None\<close>); it may be nil.\<close>

type_synonym verifier = "(episode \<Rightarrow> (string \<times> real) option) option"

definition safe_verify :: "verifier \<Rightarrow> nat \<Rightarrow> episode \<Rightarrow> string \<times> real" where
  "safe_verify v i ep =
     (case v of None \<Rightarrow> ([], 0)
      | Some f \<Rightarrow> (case f ep of None \<Rightarrow> (''verifier#'' @ itoa i, 0) | Some r \<Rightarrow> r))"

definition score_one :: "episode \<Rightarrow> real \<times> (string \<rightharpoonup> real) \<Rightarrow> nat \<times> verifier \<Rightarrow> real \<times> (string \<rightharpoonup> real)" where
  "score_one ep acc iv =
     (case acc of (tot, b) \<Rightarrow> case iv of (i, v) \<Rightarrow> case safe_verify v i ep of (name, s) \<Rightarrow>
       (let name = (if name = [] then ''verifier#'' @ itoa i else name);
            name = (if b name \<noteq> None then name @ ''#'' @ itoa i else name)
        in (tot + s, b(name \<mapsto> s))))"

definition score :: "verifier list \<Rightarrow> episode \<Rightarrow> real \<times> (string \<rightharpoonup> real)" where
  "score vs ep = foldl (score_one ep) (0, Map.empty) (zip [0..<length vs] vs)"

definition turn_penalty :: "real \<Rightarrow> verifier" where
  "turn_penalty per = Some (\<lambda>ep. Some (''turn_penalty'', - per * real (length (ep_steps ep))))"

definition cost_penalty :: "real \<Rightarrow> verifier" where
  "cost_penalty per = Some (\<lambda>ep. Some (''cost_penalty'', - per * ep_cost ep))"

definition tool_error_penalty :: "real \<Rightarrow> verifier" where
  "tool_error_penalty per = Some (\<lambda>ep. Some (''tool_error_penalty'', - per * real (ep_tool_errors ep)))"

section \<open>One episode, and a group of them\<close>

text \<open>
  What the environment and the agent of a sample do: reset (a task id), build (possibly a nil agent),
  the run (its events, its error, the cost its budget tallied) and the score; \<^const>\<open>None\<close> is a panic.
\<close>

record sample_env =
  env_reset :: "nat \<Rightarrow> (err + string) option"
  env_build :: "nat \<Rightarrow> (err + bool) option"
  env_run :: "nat \<Rightarrow> (run_event list \<times> err option \<times> real) option"
  env_score :: "episode \<Rightarrow> (real \<times> (string \<rightharpoonup> real) \<times> err option) option"

definition blank_episode :: "nat \<Rightarrow> episode" where
  "blank_episode i = \<lparr>ep_sample = i, ep_task = [], ep_steps = [], ep_err = None, ep_reward = 0,
     ep_breakdown = Map.empty, ep_cost = 0, ep_priced = False, ep_unpriced = [], ep_failure = KOther\<rparr>"

definition failed_with :: "real \<Rightarrow> err \<Rightarrow> episode \<Rightarrow> episode" where
  "failed_with threshold e ep = (let ep = ep\<lparr>ep_err := Some e\<rparr> in ep\<lparr>ep_failure := classify ep threshold\<rparr>)"

definition panicked :: "episode \<Rightarrow> episode" where
  "panicked ep = ep\<lparr>ep_err := Some (Wrapf ''rl: episode panicked'' []), ep_failure := KPanicked\<rparr>"

definition run_episode :: "sample_env \<Rightarrow> (string \<times> rate) list option \<Rightarrow> real \<Rightarrow> nat \<Rightarrow> episode" where
  "run_episode env pricing threshold i =
     (let ep = blank_episode i in
      case env_reset env i of
        None \<Rightarrow> set_priced pricing [] (panicked ep)
      | Some (Inl e) \<Rightarrow> set_priced pricing [] (failed_with threshold (Wrapf ''could not reset'' [e]) ep)
      | Some (Inr task) \<Rightarrow>
          (let ep = ep\<lparr>ep_task := task\<rparr> in
           case env_build env i of
             None \<Rightarrow> set_priced pricing [] (panicked ep)
           | Some (Inl e) \<Rightarrow> set_priced pricing [] (failed_with threshold (Wrapf ''building the agent'' [e]) ep)
           | Some (Inr nil) \<Rightarrow>
               if nil then set_priced pricing [] (failed_with threshold (Wrapf ''nil agent'' []) ep)
               else (case env_run env i of
                   None \<Rightarrow> set_priced pricing [] (panicked ep)
                 | Some (evs, e, cost) \<Rightarrow>
                     (let fo = fold_events evs;
                          ep = set_priced pricing (fo_models fo)
                            (ep\<lparr>ep_steps := fo_steps fo, ep_err := e, ep_cost := cost\<rparr>)
                      in case env_score env ep of
                           None \<Rightarrow> set_priced pricing (fo_models fo) (panicked ep)
                         | Some (reward, breakdown, serr) \<Rightarrow>
                             (let ep = ep\<lparr>ep_reward := reward, ep_breakdown := breakdown,
                                    ep_err := (case (serr, ep_err ep) of
                                       (Some s, None) \<Rightarrow> Some (Wrapf ''could not score'' [s]) | (_, x) \<Rightarrow> x)\<rparr>
                              in set_priced pricing (fo_models fo)
                                   (ep\<lparr>ep_failure := classify ep threshold\<rparr>))))))"

record group =
  g_task :: string
  g_episodes :: "episode option list"
  g_threshold :: real

text \<open>
  The samples finish in any order; each goroutine writes its own slot. A nil agent builder or a nil
  environment is \<^const>\<open>None\<close>; \<open>cause\<close> is the caller's cancellation, and then
  the group comes with the error.
\<close>

definition first_task :: "episode option list \<Rightarrow> string" where
  "first_task es = (case filter (\<lambda>e. ep_task e \<noteq> []) (List.map_filter id es) of e # _ \<Rightarrow> ep_task e | [] \<Rightarrow> [])"

definition rollout ::
  "(nat \<Rightarrow> episode) option \<Rightarrow> real \<Rightarrow> int \<Rightarrow> nat list \<Rightarrow> err option \<Rightarrow> group option \<times> err option" where
  "rollout run threshold n order cause =
     (case run of
        None \<Rightarrow> (None, Some (Wrapf ''rl: nil AgentFunc or nil Env'' []))
      | Some run \<Rightarrow>
          if n \<le> 0 then (None, Some (Wrapf ''rl: got no samples'' [Sentinel ''rl: sample count must be positive'']))
          else
            (let es = foldl (\<lambda>es i. es[i := Some (run i)]) (replicate (nat n) None) order
             in (Some \<lparr>g_task = first_task es, g_episodes = es, g_threshold = threshold\<rparr>,
                 map_option (\<lambda>c. Wrapf ''rl: rollout was cut short'' [c]) cause)))"

definition solved :: "group \<Rightarrow> episode option \<Rightarrow> bool" where
  "solved g ep = (case ep of None \<Rightarrow> False
     | Some e \<Rightarrow> g_threshold g > 0 \<and> ep_failure e \<noteq> Success \<and> ep_reward e \<ge> g_threshold g)"

definition succeeded :: "episode option \<Rightarrow> bool" where
  "succeeded ep = (case ep of None \<Rightarrow> False | Some e \<Rightarrow> ep_failure e = Success)"

definition successes :: "group \<Rightarrow> nat" where
  "successes g = length (filter succeeded (g_episodes g))"

definition pass_at :: "group \<Rightarrow> int \<Rightarrow> real" where
  "pass_at g k =
     (let n = length (g_episodes g); c = successes g in
      if k \<le> 0 \<or> k > int n then 0
      else if int n - int c < k then 1
      else 1 - foldl (\<lambda>p i. p * (real (n - c - i) / real (n - i))) 1 [0..<nat k])"

definition rewards :: "group \<Rightarrow> real list" where
  "rewards g = map (\<lambda>e. case e of None \<Rightarrow> 0 | Some e \<Rightarrow> ep_reward e) (g_episodes g)"

definition mean_reward :: "group \<Rightarrow> real" where
  "mean_reward g = (if g_episodes g = [] then 0 else sum_list (rewards g) / real (length (g_episodes g)))"

definition std_reward :: "group \<Rightarrow> real" where
  "std_reward g = (if g_episodes g = [] then 0
     else sqrt (sum_list (map (\<lambda>r. (r - mean_reward g) * (r - mean_reward g)) (rewards g)) /
       real (length (g_episodes g))))"

definition better :: "(real \<Rightarrow> real \<Rightarrow> bool) \<Rightarrow> episode option \<Rightarrow> episode option \<Rightarrow> episode option" where
  "better cmp b ep = (case ep of None \<Rightarrow> b
     | Some e \<Rightarrow> (case b of None \<Rightarrow> Some e | Some x \<Rightarrow> if cmp (ep_reward e) (ep_reward x) then Some e else b))"

definition best :: "group \<Rightarrow> episode option" where
  "best g = foldl (better (\<lambda>r x. r > x)) None (g_episodes g)"

definition worst :: "group \<Rightarrow> episode option" where
  "worst g = foldl (better (\<lambda>r x. r < x)) None (g_episodes g)"

definition collect :: "(episode \<Rightarrow> real) \<Rightarrow> group \<Rightarrow> real list" where
  "collect f g = map f (List.map_filter id (g_episodes g))"

definition median :: "real list \<Rightarrow> real" where
  "median xs =
     (if xs = [] then 0
      else (let s = sort xs; mid = length s div 2 in
        if length s mod 2 = 1 then s ! mid else (s ! (mid - 1) + s ! mid) / 2))"

definition median_turns :: "group \<Rightarrow> real" where
  "median_turns g = median (collect (\<lambda>ep. real (length (ep_steps ep))) g)"

definition median_cost :: "group \<Rightarrow> real" where
  "median_cost g = median (collect ep_cost g)"

definition median_prompt_tokens :: "group \<Rightarrow> real" where
  "median_prompt_tokens g = median (collect (\<lambda>ep. of_int (ep_prompt_tokens ep)) g)"

definition median_output_tokens :: "group \<Rightarrow> real" where
  "median_output_tokens g = median (collect (\<lambda>ep. of_int (ep_output_tokens ep)) g)"

definition group_priced :: "group \<Rightarrow> bool" where
  "group_priced g = list_all (\<lambda>e. case e of None \<Rightarrow> True | Some e \<Rightarrow> ep_priced e) (g_episodes g)"

definition unpriced_models :: "group \<Rightarrow> string list" where
  "unpriced_models g = remdups_adj (sort (concat (map ep_unpriced (List.map_filter id (g_episodes g)))))"

definition failures :: "group \<Rightarrow> failure_kind \<Rightarrow> nat" where
  "failures g k = length (filter (\<lambda>e. ep_failure e = k) (List.map_filter id (g_episodes g)))"

section \<open>Accounting\<close>

text \<open>The totals of a list of steps.\<close>

definition steps_usage :: "step list \<Rightarrow> usage" where
  "steps_usage ss = usage_sum (map sp_usage ss)"

definition steps_count :: "(step \<Rightarrow> string list) \<Rightarrow> step list \<Rightarrow> nat" where
  "steps_count f ss = sum_list (map (length \<circ> f) ss)"

text \<open>What one event, a sub-agent's included, adds to them.\<close>

fun event_usage :: "run_event \<Rightarrow> usage" where
  "event_usage (LLMDone m u ms) = u"
| "event_usage (SubagentEvent n e) = event_usage e"
| "event_usage _ = no_usage"

fun event_tools :: "run_event \<Rightarrow> nat" where
  "event_tools (ToolStart t) = 1"
| "event_tools (SubagentEvent n e) = event_tools e"
| "event_tools _ = 0"

fun event_failures :: "run_event \<Rightarrow> nat" where
  "event_failures (ToolDone i t ok e) = (if ok then 0 else 1)"
| "event_failures (SubagentEvent n e) = event_failures e"
| "event_failures _ = 0"

fun own_turns :: "run_event list \<Rightarrow> int list" where
  "own_turns [] = []"
| "own_turns (IterStart n # evs) = n # own_turns evs"
| "own_turns (_ # evs) = own_turns evs"

lemma usage_add_simps [simp]: "usage_add no_usage u = u" "usage_add u no_usage = u"
  "usage_add (usage_add u v) w = usage_add u (usage_add v w)"
  by (simp_all add: usage_add_def no_usage_def)

lemma usage_add_comm: "usage_add u v = usage_add v u"
  by (simp add: usage_add_def)

lemma usage_sum_fold: "foldl usage_add u us = usage_add u (usage_sum us)"
  unfolding usage_sum_def
proof (induction us arbitrary: u)
  case (Cons v us)
  from Cons[of "usage_add u v"] Cons[of "usage_add no_usage v"] show ?case by simp
qed simp

lemma usage_sum_simps [simp]: "usage_sum [] = no_usage" "usage_sum (u # us) = usage_add u (usage_sum us)"
  "usage_sum (us @ vs) = usage_add (usage_sum us) (usage_sum vs)"
proof -
  show "usage_sum [] = no_usage" by (simp add: usage_sum_def)
  show "usage_sum (u # us) = usage_add u (usage_sum us)"
    using usage_sum_fold[of u us] by (simp add: usage_sum_def)
  show "usage_sum (us @ vs) = usage_add (usage_sum us) (usage_sum vs)"
    using usage_sum_fold[of "usage_sum us" vs] by (simp add: usage_sum_def)
qed

lemma steps_simps [simp]:
  "steps_usage [] = no_usage" "steps_usage (ss @ [s]) = usage_add (steps_usage ss) (sp_usage s)"
  "steps_count f [] = 0" "steps_count f (ss @ [s]) = steps_count f ss + length (f s)"
  by (simp_all add: steps_usage_def steps_count_def)

text \<open>Denials are failures, step by step.\<close>

definition step_ok :: "step \<Rightarrow> bool" where
  "step_ok s \<longleftrightarrow> set (sp_denied s) \<subseteq> set (sp_failed s) \<and> length (sp_denied s) \<le> length (sp_failed s)"

lemma opened_fields:
  "opened ss \<noteq> []" "steps_usage (opened ss) = steps_usage ss"
  "f (new_step 1) = [] \<Longrightarrow> steps_count f (opened ss) = steps_count f ss"
  "list_all step_ok ss \<Longrightarrow> list_all step_ok (opened ss)"
  by (auto simp: opened_def new_step_def steps_usage_def steps_count_def step_ok_def)

lemma on_current_steps:
  assumes "\<And>s. sp_iteration (f s) = sp_iteration s"
  obtains pre s where "opened (fo_steps fo) = pre @ [s]" "fo_steps (on_current f fo) = pre @ [f s]"
    "map sp_iteration (fo_steps (on_current f fo)) = map sp_iteration (opened (fo_steps fo))"
proof -
  obtain pre s where "opened (fo_steps fo) = pre @ [s]"
    using opened_fields(1) by (metis rev_exhaust)
  then show thesis using that[of pre s] assms by (simp add: on_current_def)
qed

lemma note_model_steps [simp]: "fo_steps (note_model m fo) = fo_steps fo"
  by (simp add: note_model_def Let_def)

definition turns_of :: "folder \<Rightarrow> int list" where
  "turns_of fo = map sp_iteration (fo_steps fo)"

lemma current_keeps:
  assumes "\<And>s. sp_iteration (f s) = sp_iteration s"
    and "\<And>s. step_ok s \<Longrightarrow> step_ok (f s)"
    and "\<And>s. sp_usage (f s) = usage_add (sp_usage s) u"
    and "\<And>s. length (sp_tools (f s)) = length (sp_tools s) + t"
    and "\<And>s. length (sp_failed (f s)) = length (sp_failed s) + d"
    and "list_all step_ok (fo_steps fo)"
  shows "steps_usage (fo_steps (on_current f fo)) = usage_add (steps_usage (fo_steps fo)) u \<and>
    steps_count sp_tools (fo_steps (on_current f fo)) = steps_count sp_tools (fo_steps fo) + t \<and>
    steps_count sp_failed (fo_steps (on_current f fo)) = steps_count sp_failed (fo_steps fo) + d \<and>
    list_all step_ok (fo_steps (on_current f fo)) \<and> turns_of (on_current f fo) = map sp_iteration (opened (fo_steps fo))"
proof -
  obtain pre s where o: "opened (fo_steps fo) = pre @ [s]" "fo_steps (on_current f fo) = pre @ [f s]"
    "map sp_iteration (fo_steps (on_current f fo)) = map sp_iteration (opened (fo_steps fo))"
    using on_current_steps[of f fo] assms(1) by blast
  have u: "steps_usage (fo_steps fo) = usage_add (steps_usage pre) (sp_usage s)"
    using opened_fields(2)[of "fo_steps fo"] o(1) by simp
  note op = opened_fields(4)[of "fo_steps fo"] opened_fields(3)[of sp_tools "fo_steps fo"]
    opened_fields(3)[of sp_failed "fo_steps fo"]
  from op o assms show ?thesis by (auto simp: turns_of_def new_step_def u)
qed

lemma fold_event_keeps:
  assumes "list_all step_ok (fo_steps fo)"
  shows "steps_usage (fo_steps (fold_event pre e fo)) = usage_add (steps_usage (fo_steps fo)) (event_usage e) \<and>
    steps_count sp_tools (fo_steps (fold_event pre e fo)) = steps_count sp_tools (fo_steps fo) + event_tools e \<and>
    steps_count sp_failed (fo_steps (fold_event pre e fo)) = steps_count sp_failed (fo_steps fo) + event_failures e \<and>
    list_all step_ok (fo_steps (fold_event pre e fo)) \<and>
    (turns_of (fold_event pre e fo) = turns_of fo @ (if pre = [] then own_turns [e] else []) \<or>
     fo_steps fo = [] \<and> own_turns [e] = [] \<and> turns_of (fold_event pre e fo) = [1])"
  using assms
proof (induction e arbitrary: pre)
  case (LLMDone m u ms)
  let ?f = "\<lambda>s. s\<lparr>sp_usage := usage_add (sp_usage s) u, sp_millis := (if pre = [] then sp_millis s + ms else sp_millis s)\<rparr>"
  have "fo_steps (fold_event pre (LLMDone m u ms) fo) = fo_steps (on_current ?f fo)" by (simp add: Let_def)
  moreover from this have "turns_of (fold_event pre (LLMDone m u ms) fo) = turns_of (on_current ?f fo)"
    by (simp add: turns_of_def)
  moreover have "step_ok (?f s)" if "step_ok s" for s using that by (simp add: step_ok_def)
  moreover note current_keeps[of ?f u 0 0 fo] LLMDone
  ultimately show ?case by (auto simp del: fold_event.simps simp: opened_def turns_of_def new_step_def)
next
  case (ToolStart t)
  have "step_ok (s\<lparr>sp_tools := sp_tools s @ [pre @ t]\<rparr>)" if "step_ok s" for s using that by (simp add: step_ok_def)
  with ToolStart current_keeps[of "\<lambda>s. s\<lparr>sp_tools := sp_tools s @ [pre @ t]\<rparr>" no_usage 1 0 fo]
  show ?case by (auto simp: opened_def turns_of_def new_step_def)
next
  case (ToolDone i t ok e)
  show ?case
  proof (cases ok)
    case False
    let ?f = "\<lambda>s. let s = s\<lparr>sp_failed := sp_failed s @ [pre @ t]\<rparr> in
             if refused i e fo then s\<lparr>sp_denied := sp_denied s @ [pre @ t]\<rparr> else s"
    have "step_ok (?f s)" if "step_ok s" for s using that by (auto simp: step_ok_def Let_def)
    with current_keeps[of ?f no_usage 0 1 fo] ToolDone False
    show ?thesis by (auto simp: Let_def opened_def turns_of_def new_step_def)
  qed (use ToolDone in \<open>simp add: turns_of_def\<close>)
next
  case (SubagentEvent n e)
  from SubagentEvent.IH[of "pre @ n @ ''/''"] SubagentEvent.prems show ?case by auto
qed (auto simp: turns_of_def new_step_def step_ok_def)

lemma fold_events_keep:
  assumes "list_all step_ok (fo_steps fo)" and "fo_steps fo \<noteq> []"
  shows "let fo' = foldl (\<lambda>fo e. fold_event [] e fo) fo evs in
    fo_steps fo' \<noteq> [] \<and> turns_of fo' = turns_of fo @ own_turns evs \<and>
    steps_usage (fo_steps fo') = usage_add (steps_usage (fo_steps fo)) (usage_sum (map event_usage evs)) \<and>
    steps_count sp_tools (fo_steps fo') = steps_count sp_tools (fo_steps fo) + sum_list (map event_tools evs) \<and>
    steps_count sp_failed (fo_steps fo') = steps_count sp_failed (fo_steps fo) + sum_list (map event_failures evs) \<and>
    list_all step_ok (fo_steps fo')"
  using assms
proof (induction evs arbitrary: fo)
  case (Cons e evs)
  let ?fo = "fold_event [] e fo"
  note one = fold_event_keeps[OF Cons.prems(1), of "[]" e]
  then have t: "turns_of ?fo = turns_of fo @ own_turns [e]" using Cons.prems(2) by simp
  then have "fo_steps ?fo \<noteq> []" using Cons.prems(2) by (auto simp: turns_of_def)
  moreover have "own_turns (e # evs) = own_turns [e] @ own_turns evs" by (cases e) auto
  ultimately show ?case using Cons.IH[of ?fo] one t by (simp add: Let_def)
qed simp

section \<open>Statistics\<close>

lemma binomial_step: "k < m \<Longrightarrow> real (m choose Suc k) * real (Suc k) = real (m choose k) * real (m - k)"
proof -
  assume "k < m"
  have "Suc k * (m choose Suc k) = (m - k) * (m choose k)"
    by (metis binomial_absorption binomial_absorb_comp)
  then have "real (Suc k * (m choose Suc k)) = real ((m - k) * (m choose k))" by simp
  then show ?thesis by (simp only: of_nat_mult mult.commute)
qed

lemma running_product:
  assumes "k \<le> m" and "m \<le> n"
  shows "foldl (\<lambda>p i. p * (real (m - i) / real (n - i))) 1 [0..<k] = real (m choose k) / real (n choose k)"
  using assms
proof (induction k)
  case (Suc k)
  have pos: "real (n choose k) > 0" "real (n choose Suc k) > 0" "real (n - k) > 0" "real (Suc k) > 0"
    using Suc.prems by (simp_all add: zero_less_binomial_iff)
  have "real (m choose Suc k) * real (Suc k) = real (m choose k) * real (m - k)"
    "real (n choose Suc k) * real (Suc k) = real (n choose k) * real (n - k)"
    using Suc.prems binomial_step[of k m] binomial_step[of k n] by simp_all
  then have "real (m choose k) / real (n choose k) * (real (m - k) / real (n - k)) =
      (real (m choose Suc k) * real (Suc k)) / (real (n choose Suc k) * real (Suc k))"
    by simp
  also have "\<dots> = real (m choose Suc k) / real (n choose Suc k)"
    using pos(4) by (intro mult_divide_mult_cancel_right) linarith
  finally show ?case using Suc by simp
qed simp

lemma failures_card: "card {i. i < length xs \<and> \<not> P (xs ! i)} = length xs - length (filter P xs)"
proof -
  have "length (filter (\<lambda>x. \<not> P x) xs) = length xs - length (filter P xs)"
    using sum_length_filter_compl[of P xs] by linarith
  then show ?thesis by (simp add: length_filter_conv_card)
qed

lemma score_keys:
  assumes "\<And>i v name s. (i, v) \<in> set ivs \<Longrightarrow> safe_verify v i ep = (name, s) \<Longrightarrow>
      CHR ''#'' \<notin> set name \<or> name = ''verifier#'' @ itoa i"
    and "map fst ivs = [j..<k]"
    and "\<And>n. n \<in> dom b \<Longrightarrow> CHR ''#'' \<notin> set n \<or> (\<exists>m i. n = m @ ''#'' @ itoa i \<and> i < j \<and> CHR ''#'' \<notin> set m)"
    and "finite (dom b)" and "tot = (\<Sum>n\<in>dom b. the (b n))"
    and "foldl (score_one ep) (tot, b) ivs = (tot', b')"
  shows "finite (dom b') \<and> tot' = (\<Sum>n\<in>dom b'. the (b' n)) \<and> card (dom b') = card (dom b) + length ivs"
  using assms
proof (induction ivs arbitrary: b tot j)
  case (Cons iv ivs)
  obtain v where iv: "iv = (j, v)" and rest: "map fst ivs = [Suc j..<k]"
  proof -
    have "j < k" using Cons.prems(2) by (cases "j < k") auto
    from Cons.prems(2) upt_conv_Cons[OF this] that show thesis by (cases iv) auto
  qed
  obtain name s where v: "safe_verify v j ep = (name, s)" by fastforce
  define n1 where "n1 = (if name = [] then ''verifier#'' @ itoa j else name)"
  define n2 where "n2 = (if b n1 \<noteq> None then n1 @ ''#'' @ itoa j else n1)"
  have digits: "CHR ''#'' \<notin> set (itoa i)" for i
    using itoa_digits[of i] by (auto simp: list_all_iff is_digit_def)
  have inj: "m = m' \<and> i = i'" if "m @ ''#'' @ itoa i = m' @ ''#'' @ itoa i'" "CHR ''#'' \<notin> set m" "CHR ''#'' \<notin> set m'"
    for m m' i i'
  proof -
    have "m = m'" "itoa i = itoa i'"
      using that split_on_append[of "CHR ''#''" m "itoa i"] split_on_append[of "CHR ''#''" m' "itoa i'"]
      by (metis (no_types, opaque_lifting) append_Cons append_Nil list.inject split_on_free digits)+
    then show ?thesis by (metis nat_of_digits_itoa)
  qed
  have new: "m @ ''#'' @ itoa j \<notin> dom b" if "CHR ''#'' \<notin> set m" for m
    using Cons.prems(3)[of "m @ ''#'' @ itoa j"] inj[of m j] that by fastforce
  have ver: "CHR ''#'' \<notin> set ''verifier''" by simp
  have n1: "CHR ''#'' \<notin> set n1 \<or> n1 = ''verifier'' @ ''#'' @ itoa j"
    using Cons.prems(1)[of j v name s] iv v by (auto simp: n1_def)
  have fresh: "n2 \<notin> dom b"
  proof (cases "b n1 = None")
    case False
    then have "CHR ''#'' \<notin> set n1" using n1 new[OF ver] by auto
    with new False show ?thesis by (simp add: n2_def)
  qed (simp add: n2_def domIff)
  have shape: "CHR ''#'' \<notin> set n2 \<or> (\<exists>m. n2 = m @ ''#'' @ itoa j \<and> CHR ''#'' \<notin> set m)"
  proof (cases "b n1 = None")
    case True
    with n1 ver show ?thesis by (auto simp: n2_def)
  next
    case False
    then have "CHR ''#'' \<notin> set n1" using n1 new[OF ver] by auto
    with False show ?thesis by (auto simp: n2_def)
  qed
  have step: "foldl (score_one ep) (tot + s, b(n2 \<mapsto> s)) ivs = (tot', b')"
  proof -
    have "score_one ep (tot, b) (j, v) = (tot + s, b(n2 \<mapsto> s))"
      using v by (simp add: score_one_def n1_def n2_def Let_def)
    with Cons.prems(6) iv show ?thesis by simp
  qed
  have keys: "CHR ''#'' \<notin> set n \<or> (\<exists>m i. n = m @ ''#'' @ itoa i \<and> i < Suc j \<and> CHR ''#'' \<notin> set m)"
    if "n \<in> dom (b(n2 \<mapsto> s))" for n
    using that shape Cons.prems(3)[of n] by (auto intro: less_SucI)
  have "(\<Sum>n\<in>dom b. the ((b(n2 \<mapsto> s)) n)) = (\<Sum>n\<in>dom b. the (b n))"
    using fresh by (intro sum.cong) auto
  then have tot: "tot + s = (\<Sum>n\<in>dom (b(n2 \<mapsto> s)). the ((b(n2 \<mapsto> s)) n))"
    using fresh Cons.prems(4,5) by (simp add: add.commute)
  have "finite (dom b') \<and> tot' = (\<Sum>n\<in>dom b'. the (b' n)) \<and> card (dom b') = card (dom (b(n2 \<mapsto> s))) + length ivs"
  proof (rule Cons.IH[OF _ rest keys _ tot step])
    show "finite (dom (b(n2 \<mapsto> s)))" using Cons.prems(4) by simp
  qed (use Cons.prems(1) in \<open>meson list.set_intros(2)\<close>)
  then show ?case using fresh Cons.prems(4) by simp
qed simp

lemma median_split:
  fixes xs :: "real list"
  assumes "xs \<noteq> []"
  shows "length xs \<le> 2 * length (filter (\<lambda>x. x \<le> median xs) xs) \<and>
    length xs \<le> 2 * length (filter (\<lambda>x. median xs \<le> x) xs)"
proof -
  let ?s = "sort xs" and ?n = "length xs"
  let ?lo = "(?n - 1) div 2" and ?hi = "?n div 2"
  have n: "?hi < ?n" "?lo \<le> ?hi" using assms by (cases xs; simp)+
  have "sorted ?s" by simp
  then have mono: "?s ! i \<le> ?s ! j" if "i \<le> j" "j < ?n" for i j
    using that by (simp add: sorted_nth_mono)
  have odd: "?lo = ?hi" if "?n mod 2 = 1" using that by presburger
  have even: "?lo = ?hi - 1" if "?n mod 2 \<noteq> 1" using that n by presburger
  have med: "?s ! ?lo \<le> median xs \<and> median xs \<le> ?s ! ?hi"
    using assms odd even mono[of ?lo ?hi] n by (auto simp: median_def Let_def)
  have le: "?s ! i \<le> median xs" if "i < Suc ?lo" for i
    using mono[of i ?lo] med n that by fastforce
  have ge: "median xs \<le> ?s ! i" if "?hi \<le> i" "i < ?n" for i
    using mono[of ?hi i] med that by fastforce
  have count: "card {i. i < ?n \<and> P (?s ! i)} = length (filter P xs)" for P
  proof -
    have "size (mset (filter P ?s)) = size (mset (filter P xs))" by (simp only: mset_filter mset_sort)
    then have "length (filter P ?s) = length (filter P xs)" by (simp only: size_mset)
    then show ?thesis using length_filter_conv_card[of P ?s] by (simp only: length_sort)
  qed
  have "card {..<Suc ?lo} \<le> card {i. i < ?n \<and> ?s ! i \<le> median xs}"
    using le n by (intro card_mono) auto
  then have "Suc ?lo \<le> length (filter (\<lambda>x. x \<le> median xs) xs)"
    unfolding count[of "\<lambda>x. x \<le> median xs"] by simp
  moreover have "card {?hi..<?n} \<le> card {i. i < ?n \<and> median xs \<le> ?s ! i}"
    using ge by (intro card_mono) auto
  then have "?n - ?hi \<le> length (filter (\<lambda>x. median xs \<le> x) xs)"
    unfolding count[of "\<lambda>x. median xs \<le> x"] by simp
  moreover have "?n \<le> 2 * Suc ?lo" "?n \<le> 2 * (?n - ?hi)" by presburger+
  ultimately show ?thesis by linarith
qed

section \<open>Properties\<close>

text \<open>pass@k is the probability it stands for: with k at most the number of samples, it equals the
  share of all k-element choices of samples that contain a success.\<close>

theorem pass_at_is_subset_probability:
  assumes "0 < k" and "k \<le> length (g_episodes g)"
  shows "pass_at g (int k) =
    real (card {S. S \<subseteq> {..<length (g_episodes g)} \<and> card S = k \<and> (\<exists>i\<in>S. succeeded (g_episodes g ! i))}) /
    real (card {S. S \<subseteq> {..<length (g_episodes g)} \<and> card S = k})"
proof -
  let ?n = "length (g_episodes g)" and ?c = "successes g"
  let ?F = "{i. i < ?n \<and> \<not> succeeded (g_episodes g ! i)}"
  let ?all = "{S. S \<subseteq> {..<?n} \<and> card S = k}" and ?none = "{S. S \<subseteq> ?F \<and> card S = k}"
  have c: "?c \<le> ?n" by (simp add: successes_def)
  have F: "finite ?F" "card ?F = ?n - ?c" using failures_card[of "g_episodes g" succeeded] by (auto simp: successes_def)
  have all: "card ?all = ?n choose k" by (simp add: n_subsets)
  have none: "card ?none = (?n - ?c) choose k" using n_subsets[OF F(1)] F(2) by simp
  have fin: "finite ?all" by (rule finite_subset[of _ "Pow {..<?n}"]) auto
  have "{S. S \<subseteq> {..<?n} \<and> card S = k \<and> (\<exists>i\<in>S. succeeded (g_episodes g ! i))} = ?all - ?none" by auto
  moreover have "?none \<subseteq> ?all" by auto
  ultimately have some: "card {S. S \<subseteq> {..<?n} \<and> card S = k \<and> (\<exists>i\<in>S. succeeded (g_episodes g ! i))} =
      (?n choose k) - ((?n - ?c) choose k)"
    using fin all none by (simp add: card_Diff_subset finite_subset)
  have pos: "0 < (?n choose k)" using assms(2) by (simp add: zero_less_binomial_iff)
  have le: "(?n - ?c) choose k \<le> ?n choose k"
    unfolding all[symmetric] none[symmetric] using fin by (rule card_mono) auto
  have "pass_at g (int k) = 1 - real ((?n - ?c) choose k) / real (?n choose k)"
  proof (cases "?n - ?c < k")
    case True
    then have "int ?n - int ?c < int k" using c by linarith
    with True assms show ?thesis by (simp add: pass_at_def Let_def binomial_eq_0)
  next
    case False
    then have "\<not> int ?n - int ?c < int k" using c by linarith
    with False assms show ?thesis using running_product[of k "?n - ?c" ?n] by (simp add: pass_at_def Let_def)
  qed
  also have "\<dots> = (real (?n choose k) - real ((?n - ?c) choose k)) / real (?n choose k)"
    using pos by (simp add: field_simps)
  also have "\<dots> = real ((?n choose k) - ((?n - ?c) choose k)) / real (?n choose k)"
    using le by (simp add: of_nat_diff)
  finally show ?thesis unfolding some all .
qed

definition good_episode :: episode where
  "good_episode = (blank_episode 0)\<lparr>ep_failure := Success\<rparr>"

theorem pass_at_is_subset_probability_witness:
  "real (card {S. S \<subseteq> {..<2 :: nat} \<and> card S = 1 \<and> (\<exists>i\<in>S. succeeded ([None, Some good_episode] ! i))}) /
     real (card {S. S \<subseteq> {..<2 :: nat} \<and> card S = 1}) = 1 / 2"
proof -
  define g where "g = \<lparr>g_task = [], g_episodes = [None, Some good_episode], g_threshold = 1\<rparr>"
  have eps: "g_episodes g = [None, Some good_episode]" and len: "length (g_episodes g) = 2"
    by (simp_all add: g_def)
  have "pass_at g (int 1) = 1 / 2"
    by (simp add: pass_at_def eps successes_def succeeded_def good_episode_def Let_def)
  with pass_at_is_subset_probability[of 1 g, unfolded len, unfolded eps, OF zero_less_one one_le_numeral]
  show ?thesis by (rule trans[OF sym])
qed

text \<open>C36: An episode's books balance: the turns are exactly the iterations the agent itself started, the
  tokens, tool calls and tool failures of its steps add up to those of the whole stream, those of
  sub-agents of any depth included, and in every step the refused calls are among the failed ones.\<close>

theorem episode_accounting:
  "let ss = fo_steps (fold_events (IterStart n # evs)) in
     map sp_iteration ss = n # own_turns evs \<and>
     usage_sum (map sp_usage ss) = usage_sum (map event_usage evs) \<and>
     sum_list (map (length \<circ> sp_tools) ss) = sum_list (map event_tools evs) \<and>
     sum_list (map (length \<circ> sp_failed) ss) = sum_list (map event_failures evs) \<and>
     list_all (\<lambda>s. set (sp_denied s) \<subseteq> set (sp_failed s) \<and> length (sp_denied s) \<le> length (sp_failed s)) ss"
proof -
  let ?fo = "fold_event [] (IterStart n) empty_folder"
  have "fo_steps ?fo = [new_step n]" by (simp add: empty_folder_def)
  with fold_events_keep[of ?fo evs] show ?thesis
    by (auto simp: fold_events_def Let_def turns_of_def steps_usage_def steps_count_def step_ok_def[abs_def]
        new_step_def empty_folder_def comp_def)
qed

text \<open>The breakdown explains the reward: as long as no verifier's own name contains the separator the
  combiner uses, the reward is the sum of the breakdown and every verifier has a term of its own, also
  when names repeat, are empty, or the verifier panics.\<close>

theorem score_breakdown_adds_up:
  assumes "score vs ep = (tot, b)"
    and "\<And>f name s. Some f \<in> set vs \<Longrightarrow> f ep = Some (name, s) \<Longrightarrow> CHR ''#'' \<notin> set name"
  shows "tot = (\<Sum>n\<in>dom b. the (b n)) \<and> card (dom b) = length vs"
proof -
  let ?ivs = "zip [0..<length vs] vs"
  have "CHR ''#'' \<notin> set name \<or> name = ''verifier#'' @ itoa i"
    if "(i, v) \<in> set ?ivs" "safe_verify v i ep = (name, s)" for i v name s
    using that assms(2) by (auto simp: safe_verify_def dest!: set_zip_rightD split: option.splits)
  from score_keys[of ?ivs ep 0 "length vs" Map.empty 0 tot b, OF this] assms(1) show ?thesis
    by (simp add: score_def)
qed

theorem score_breakdown_adds_up_witness:
  "\<exists>b. score [turn_penalty 1, None, turn_penalty 2] (blank_episode 0) = (0, b) \<and> card (dom b) = 3"
proof -
  obtain tot b where s: "score [turn_penalty 1, None, turn_penalty 2] (blank_episode 0) = (tot, b)" by fastforce
  have "tot = 0" using s by (auto simp: score_def score_one_def safe_verify_def turn_penalty_def blank_episode_def Let_def upt_rec)
  moreover have "CHR ''#'' \<notin> set name"
    if "Some f \<in> set [turn_penalty 1, None, turn_penalty 2]" "f (blank_episode 0) = Some (name, x)" for f name x
    using that by (auto simp: turn_penalty_def)
  then have "card (dom b) = length [turn_penalty 1, None, turn_penalty 2]"
    using score_breakdown_adds_up[OF s] by blast
  ultimately show ?thesis using s by auto
qed

text \<open>
  Without that condition it does not: a verifier may be named like the suffixed form of a later one.
\<close>

lemma score_breakdown_collision:
  "let v = (\<lambda>n. Some (\<lambda>_. Some (n, 1))); (tot, b) = score [v ''a#2'', v ''a'', v ''a''] ep
   in tot = 3 \<and> (\<Sum>n\<in>dom b. the (b n)) = 2"
proof -
  have "char_of (50 :: nat) = CHR ''2''" by code_simp
  then have "itoa 2 = ''2''" by (simp add: itoa.simps)
  moreover have "dom [''a#2'' \<mapsto> 1 :: real, ''a'' \<mapsto> 1] = {''a#2'', ''a''}" by auto
  ultimately show ?thesis
    by (simp add: score_def score_one_def safe_verify_def Let_def upt_rec numeral_2_eq_2)
qed

lemma fill_slots:
  "foldl (\<lambda>es i. es[i := Some (run i)]) es order = map (\<lambda>j. if j \<in> set order then Some (run j) else es ! j) [0..<length es]"
proof (induction order arbitrary: es)
  case (Cons i order)
  show ?case by (auto simp: Cons.IH nth_list_update intro!: nth_equalityI)
qed (auto intro: nth_equalityI)

lemma best_of_samples:
  assumes "0 < n"
  shows "\<exists>i<n. foldl (better (\<lambda>r x. r > x)) None (map (Some \<circ> run) [0..<n]) = Some (run i) \<and>
    (\<forall>j<n. ep_reward (run j) \<le> ep_reward (run i) \<and> (j < i \<longrightarrow> ep_reward (run j) < ep_reward (run i)))"
  using assms
proof (induction n)
  case (Suc n)
  show ?case
  proof (cases "n = 0")
    case True
    then show ?thesis by (auto simp: better_def)
  next
    case False
    then have "0 < n" by simp
    from Suc.IH[OF this] obtain i where i: "i < n"
      "foldl (better (\<lambda>r x. r > x)) None (map (Some \<circ> run) [0..<n]) = Some (run i)"
      "\<forall>j<n. ep_reward (run j) \<le> ep_reward (run i) \<and> (j < i \<longrightarrow> ep_reward (run j) < ep_reward (run i))"
      by blast
    from i(2) have step: "foldl (better (\<lambda>r x. r > x)) None (map (Some \<circ> run) [0..<Suc n]) =
        better (\<lambda>r x. r > x) (Some (run i)) (Some (run n))"
      by (simp add: comp_def)
    show ?thesis
    proof (cases "ep_reward (run n) > ep_reward (run i)")
      case True
      then have "better (\<lambda>r x. r > x) (Some (run i)) (Some (run n)) = Some (run n)" by (simp add: better_def)
      with step i(1,3) True show ?thesis
        by (intro exI[of _ n]) (fastforce simp: less_Suc_eq simp del: comp_apply upt_Suc)
    next
      case False
      then have "better (\<lambda>r x. r > x) (Some (run i)) (Some (run n)) = Some (run i)" by (simp add: better_def)
      with step i(1,3) False show ?thesis
        by (intro exI[of _ i]) (auto simp: less_Suc_eq simp del: comp_apply upt_Suc)
    qed
  qed
qed simp

text \<open>A group does not depend on scheduling: whatever order the samples finish in, each is in its own
  slot, and the best of the group is the highest reward, the lowest sample on a tie.\<close>

theorem rollout_is_reproducible:
  assumes "0 < n" and "set order = {..<n}"
  shows "\<exists>g e. rollout (Some run) threshold (int n) order cause = (Some g, e) \<and> (e = None \<longleftrightarrow> cause = None) \<and>
    g_episodes g = map (Some \<circ> run) [0..<n] \<and>
    (\<exists>i<n. best g = Some (run i) \<and>
      (\<forall>j<n. ep_reward (run j) \<le> ep_reward (run i) \<and> (j < i \<longrightarrow> ep_reward (run j) < ep_reward (run i))))"
proof -
  have "foldl (\<lambda>es i. es[i := Some (run i)]) (replicate n None) order = map (Some \<circ> run) [0..<n]"
    using assms(2) by (simp add: fill_slots)
  with assms(1) best_of_samples[OF assms(1), of run] show ?thesis
    by (simp add: rollout_def best_def Let_def)
qed

theorem rollout_is_reproducible_witness:
  "\<exists>g. rollout (Some (\<lambda>i. (blank_episode i)\<lparr>ep_reward := (if i = 1 then 2 else 1)\<rparr>)) 1 3 [2, 0, 1] None = (Some g, None) \<and>
     map_option ep_sample (best g) = Some 1"
proof -
  let ?run = "\<lambda>i. (blank_episode i)\<lparr>ep_reward := (if i = 1 then 2 else 1)\<rparr>"
  have "set [2, 0, 1] = {..<3 :: nat}" by auto
  from rollout_is_reproducible[OF _ this, of ?run 1 None] obtain g i where
    g: "rollout (Some ?run) 1 (int 3) [2, 0, 1] None = (Some g, None)" and i: "i < 3" "best g = Some (?run i)"
    "\<forall>j<3. ep_reward (?run j) \<le> ep_reward (?run i)" by auto
  have "ep_reward (?run 1) \<le> ep_reward (?run i)" by (rule i(3)[rule_format]) simp
  then have "i = 1" by (simp split: if_splits)
  with g i(2) show ?thesis by (simp add: blank_episode_def)
qed

end
