(* ===== verification/Wire.thy ===== *)
theory Wire
  imports Tool Sse "HOL-Library.AList"
begin

text \<open>
  What the two provider clients share: header names, settings read from the environment, decoding of JSON
  into structs with pointer and slice fields, the outcome of an HTTP exchange, and the fragments of a
  call's arguments. Both packages spell these out on their own, in the same words.
\<close>

section \<open>Headers and settings\<close>

text \<open>
  \<^verbatim>\<open>http.CanonicalHeaderKey\<close>: a name with a byte that is no token character is left alone.
\<close>

definition token_char :: "char \<Rightarrow> bool" where
  "token_char c = (is_digit c \<or> (of_char c :: nat) \<in> {65..90} \<or> (of_char c :: nat) \<in> {97..122} \<or>
     c \<in> set (CHR 0x27 # CHR 0x60 # ''!#$%&*+-.^_|~''))"

definition to_upper_char :: "char \<Rightarrow> char" where
  "to_upper_char c = (if (of_char c :: nat) \<in> {97..122} then char_of ((of_char c :: nat) - 32) else c)"

fun canonical_bytes :: "bool \<Rightarrow> string \<Rightarrow> string" where
  "canonical_bytes up [] = []"
| "canonical_bytes up (c # cs) =
     (if up then to_upper_char c else to_lower_char c) # canonical_bytes (c = CHR ''-'') cs"

definition canonical_key :: "string \<Rightarrow> string" where
  "canonical_key s = (if list_all token_char s then canonical_bytes True s else s)"

definition parse_stream_mode :: "string \<Rightarrow> stream_mode" where
  "parse_stream_mode s =
     (let s = to_lower (trim_space s) in
      if s = ''always'' then StreamAlways else if s = ''never'' then StreamNever else StreamAuto)"

text \<open>\<open>pf\<close> is \<^verbatim>\<open>strconv.ParseFloat\<close>.\<close>

definition env_float :: "(string \<Rightarrow> real option) \<Rightarrow> (string \<Rightarrow> string) \<Rightarrow> string \<Rightarrow> real option" where
  "env_float pf env n = (let raw = trim_space (env n) in if raw = [] then None else pf raw)"

datatype transport = OwnClient | Proxied string | ProxyFromEnv

text \<open>What \<^verbatim>\<open>url.Parse\<close> gives: scheme, host with port, and host name.\<close>

type_synonym url_parser = "string \<Rightarrow> err + string \<times> string \<times> string"

lemma code_eq: "c = d \<longleftrightarrow> (of_char c :: nat) = of_char d"
  by simp

lemma letter_codes:
  "(of_char (to_upper_char c) :: nat) = (if 97 \<le> (of_char c :: nat) \<and> (of_char c :: nat) \<le> 122 then of_char c - 32 else of_char c)"
  "(of_char (to_lower_char c) :: nat) = (if 65 \<le> (of_char c :: nat) \<and> (of_char c :: nat) \<le> 90 then of_char c + 32 else of_char c)"
  by (auto simp: to_upper_char_def to_lower_char_def)

lemma case_chars [simp]:
  "to_upper_char c = CHR ''-'' \<longleftrightarrow> c = CHR ''-''" "to_lower_char c = CHR ''-'' \<longleftrightarrow> c = CHR ''-''"
  "to_upper_char (to_upper_char c) = to_upper_char c" "to_lower_char (to_lower_char c) = to_lower_char c"
  unfolding code_eq[of "to_upper_char c"] code_eq[of "to_lower_char c"] code_eq[of c] code_eq[of "to_upper_char (to_upper_char c)"]
    code_eq[of "to_lower_char (to_lower_char c)"] letter_codes
  by auto

lemma token_case [simp]: "token_char c \<Longrightarrow> token_char (to_upper_char c)" "token_char c \<Longrightarrow> token_char (to_lower_char c)"
  by (cases "97 \<le> (of_char c :: nat) \<and> (of_char c :: nat) \<le> 122"; cases "65 \<le> (of_char c :: nat) \<and> (of_char c :: nat) \<le> 90";
      auto simp: token_char_def to_upper_char_def to_lower_char_def)+

lemma canonical_bytes_idem: "canonical_bytes up (canonical_bytes up s) = canonical_bytes up s"
  by (induction up s rule: canonical_bytes.induct) auto

lemma canonical_bytes_token: "list_all token_char s \<Longrightarrow> list_all token_char (canonical_bytes up s)"
  by (induction up s rule: canonical_bytes.induct) auto

lemma canonical_key_idem [simp]: "canonical_key (canonical_key s) = canonical_key s"
  by (simp add: canonical_key_def canonical_bytes_idem canonical_bytes_token)

section \<open>Decoding\<close>

definition all_some :: "'a option list \<Rightarrow> 'a list option" where
  "all_some xs = (if None \<in> set xs then None else Some (map the xs))"

text \<open>Decoding into a struct: null leaves the zero value, anything but an object is an error.\<close>

definition struct_of :: "((string \<times> json) list \<Rightarrow> 'a option) \<Rightarrow> json \<Rightarrow> 'a option" where
  "struct_of f j = (case j of JObj kvs \<Rightarrow> f kvs | JNull \<Rightarrow> f [] | _ \<Rightarrow> None)"

definition array_of :: "(json \<Rightarrow> 'a option) \<Rightarrow> string \<Rightarrow> (string \<times> json) list \<Rightarrow> 'a list option" where
  "array_of f k kvs = (case json_field k kvs of
     None \<Rightarrow> Some [] | Some JNull \<Rightarrow> Some [] | Some (JArr vs) \<Rightarrow> all_some (map f vs) | _ \<Rightarrow> None)"

text \<open>A pointer field: absent and null are nil.\<close>

definition pointer_of :: "((string \<times> json) list \<Rightarrow> 'a option) \<Rightarrow> string \<Rightarrow> (string \<times> json) list \<Rightarrow> 'a option option" where
  "pointer_of f k kvs = (case json_field k kvs of
     None \<Rightarrow> Some None | Some JNull \<Rightarrow> Some None | Some v \<Rightarrow> map_option Some (struct_of f v))"

text \<open>A decoder reads the first value of the body and leaves what follows.\<close>

definition first_value :: "string \<Rightarrow> json option" where
  "first_value s = map_option fst (parse_value (2 * length s + 2) (json_skip s))"

text \<open>\<^verbatim>\<open>json.Marshal\<close> of a string also escapes the characters that matter to HTML.\<close>

definition html_quote :: "string \<Rightarrow> string" where
  "html_quote s = CHR 0x22 # concat (map (\<lambda>c. if c \<in> set ''<>&''
     then CHR 0x5C # ''u00'' @ [hex_char (of_char c div 16), hex_char (of_char c mod 16)] else escape_char c) s) @
     [CHR 0x22]"

section \<open>Calls\<close>

definition emit_tool_args :: "int \<Rightarrow> tool_use_id \<Rightarrow> string \<Rightarrow> string \<Rightarrow> delta list" where
  "emit_tool_args i tid n js = (if tid = [] \<and> n = [] \<and> js = [] then [] else [ToolArgsDelta i tid n js])"

text \<open>
  What an exchange brings: a failure, or a status, the value of \<^verbatim>\<open>Retry-After\<close>, the body, the error that
  ends it and the cause of the context then.
\<close>

datatype http_outcome =
    HttpFail err "err option"
  | HttpReply int string string "err option" "err option"

lemma small_ints: "int_of_text ''0'' = Some 0" "int_of_text ''1'' = Some 1" "int_of_text ''2'' = Some 2"
  by code_simp+

end
