(* ===== verification/Anthropic.thy ===== *)
theory Anthropic
  imports Wire
begin

text \<open>
  The Anthropic client (\<^verbatim>\<open>llm/anthropic/\<close>): its configuration (\<^verbatim>\<open>client.go\<close>), the request body and
  its cache breakpoints (\<^verbatim>\<open>request.go\<close>), the buffered reply (\<^verbatim>\<open>response.go\<close>) and the assembly of a
  streamed one (\<^verbatim>\<open>stream.go\<close>). A body is a JSON value; the bytes an HTTP exchange brings are an
  argument. Sampling controls are real numbers; transports and timeouts are not modelled.
\<close>

section \<open>Valid UTF-8\<close>

definition byte_in :: "nat \<Rightarrow> nat \<Rightarrow> string \<Rightarrow> nat \<Rightarrow> bool" where
  "byte_in lo hi s i = (i < length s \<and> lo \<le> (of_char (s ! i) :: nat) \<and> (of_char (s ! i) :: nat) \<le> hi)"

text \<open>The length of the encoding at the head of the bytes, 0 when there is none.\<close>

definition rune_len :: "string \<Rightarrow> nat" where
  "rune_len s =
     (if byte_in 0 127 s 0 then 1
      else if byte_in 194 223 s 0 \<and> byte_in 128 191 s 1 then 2
      else if byte_in 224 224 s 0 \<and> byte_in 160 191 s 1 \<and> byte_in 128 191 s 2 then 3
      else if byte_in 237 237 s 0 \<and> byte_in 128 159 s 1 \<and> byte_in 128 191 s 2 then 3
      else if byte_in 225 239 s 0 \<and> \<not> byte_in 237 237 s 0 \<and> byte_in 128 191 s 1 \<and> byte_in 128 191 s 2 then 3
      else if byte_in 240 240 s 0 \<and> byte_in 144 191 s 1 \<and> byte_in 128 191 s 2 \<and> byte_in 128 191 s 3 then 4
      else if byte_in 241 243 s 0 \<and> byte_in 128 191 s 1 \<and> byte_in 128 191 s 2 \<and> byte_in 128 191 s 3 then 4
      else if byte_in 244 244 s 0 \<and> byte_in 128 143 s 1 \<and> byte_in 128 191 s 2 \<and> byte_in 128 191 s 3 then 4
      else 0)"

text \<open>
  \<^verbatim>\<open>strings.ToValidUTF8\<close>: each maximal run of invalid bytes becomes one replacement character;
  \<open>bad\<close> says that the run is already replaced.
\<close>

function scrub_from :: "bool \<Rightarrow> string \<Rightarrow> string" where
  "scrub_from bad s =
     (if s = [] then []
      else if rune_len s > 0 then take (rune_len s) s @ scrub_from False (drop (rune_len s) s)
      else (if bad then [] else utf8 65533) @ scrub_from True (tl s))"
  by pat_completeness auto
termination by (relation "measure (length \<circ> snd)") auto

declare scrub_from.simps [simp del]

definition scrub :: "string \<Rightarrow> string" where
  "scrub s = scrub_from False s"

definition truncated :: "nat \<Rightarrow> string \<Rightarrow> string" where
  "truncated n s = (if length s \<le> n then s else take (boundary s n) s @ utf8 8230 @ '' (truncated)'')"

definition max_error_body :: nat where "max_error_body = 65536"
definition max_error_message :: nat where "max_error_message = 2048"

section \<open>Configuration\<close>

definition ErrNoAPIKey :: err where
  [sentinel_defs]: "ErrNoAPIKey = Sentinel ''anthropic: no API key (set Config.APIKey or $ANTHROPIC_API_KEY)''"
definition ErrStreamIdle :: err where
  [sentinel_defs]: "ErrStreamIdle = Sentinel ''anthropic: stream went silent''"

definition BetaContextManagement :: string where
  "BetaContextManagement = ''context-management-2025-06-27''"
definition beta_header :: string where "beta_header = ''Anthropic-Beta''"

record anth_config =
  ac_key :: string
  ac_base :: string
  ac_proxy :: string
  ac_model :: string
  ac_max_tokens :: int
  ac_temperature :: "real option"
  ac_top_p :: "real option"
  ac_version :: string
  ac_beta :: "string list"
  ac_extra :: "(string \<times> string) list"
  ac_own_client :: bool
  ac_stream :: stream_mode

text \<open>A map under construction is an association list; the iteration order of a Go map is its order.\<close>

definition header_line :: "string \<Rightarrow> (string \<times> string) list \<Rightarrow> (string \<times> string) list" where
  "header_line l out =
     (let l = trim_space l; name = trim_space (takeWhile (\<lambda>c. c \<noteq> CHR '':'') l) in
      if l = [] \<or> CHR '':'' \<notin> set l \<or> name = [] then out
      else AList.update (canonical_key name) (trim_space (tl (dropWhile (\<lambda>c. c \<noteq> CHR '':'') l))) out)"

definition parse_header_lines :: "string \<Rightarrow> (string \<times> string) list" where
  "parse_header_lines s = fold header_line (split_on CHR 0x0A s) []"

definition split_list :: "string \<Rightarrow> string list" where
  "split_list s = filter (\<lambda>f. f \<noteq> []) (map trim_space (split_on CHR '','' s))"

definition first_env :: "(string \<Rightarrow> string) \<Rightarrow> string list \<Rightarrow> string" where
  "first_env env ns = (case filter (\<lambda>v. v \<noteq> []) (map (trim_space \<circ> env) ns) of v # _ \<Rightarrow> v | [] \<Rightarrow> [])"

definition config_from_env :: "(string \<Rightarrow> real option) \<Rightarrow> (string \<Rightarrow> string) \<Rightarrow> anth_config" where
  "config_from_env pf env =
     (let cfg = \<lparr>ac_key = env ''ANTHROPIC_API_KEY'',
        ac_base = first_env env [''ANTHROPIC_BASE_URL'', ''AGENT_LLM_BASE_URL''],
        ac_proxy = first_env env [''ANTHROPIC_PROXY'', ''AGENT_LLM_PROXY''],
        ac_model = first_env env [''ANTHROPIC_MODEL'', ''WOMBAT_MODEL''],
        ac_max_tokens = 0,
        ac_temperature = env_float pf env ''ANTHROPIC_TEMPERATURE'',
        ac_top_p = env_float pf env ''ANTHROPIC_TOP_P'',
        ac_version = [],
        ac_beta = split_list (env ''ANTHROPIC_BETA''),
        ac_extra = parse_header_lines (env ''ANTHROPIC_CUSTOM_HEADERS''),
        ac_own_client = False,
        ac_stream = parse_stream_mode (env ''ANTHROPIC_STREAM'')\<rparr>
      in case map_of (ac_extra cfg) beta_header of
           None \<Rightarrow> cfg
         | Some v \<Rightarrow> cfg\<lparr>ac_extra := AList.delete beta_header (ac_extra cfg), ac_beta := split_list v\<rparr>)"

section \<open>The client\<close>

record anth_client =
  cl_key :: string
  cl_endpoint :: string
  cl_model :: string
  cl_max_tokens :: int
  cl_version :: string
  cl_beta :: string
  cl_ctx_mgmt :: bool
  cl_stream :: stream_mode
  cl_temperature :: "real option"
  cl_top_p :: "real option"
  cl_extra :: "(string \<times> string) list"
  cl_transport :: transport

definition validate_sampling :: "real option \<Rightarrow> real option \<Rightarrow> err option" where
  "validate_sampling temperature top_p =
     (if (case temperature of Some t \<Rightarrow> \<not> (0 \<le> t \<and> t \<le> 2) | None \<Rightarrow> False)
        then Some (Sentinel ''anthropic: Temperature is outside [0, 2]'')
      else if (case top_p of Some p \<Rightarrow> \<not> (0 \<le> p \<and> p \<le> 1) | None \<Rightarrow> False)
        then Some (Sentinel ''anthropic: TopP is outside [0, 1]'')
      else if temperature \<noteq> None \<and> top_p \<noteq> None
        then Some (Sentinel ''anthropic: Config sets both Temperature and TopP'')
      else None)"

definition canonical_headers :: "(string \<times> string) list \<Rightarrow> (string \<times> string) list" where
  "canonical_headers m = fold (\<lambda>(k, v). AList.update (canonical_key (trim_space k)) v) m []"

definition has_beta :: "string list \<Rightarrow> string \<Rightarrow> bool" where
  "has_beta vs want = list_ex (\<lambda>v. trim_space v = want) vs"

definition normalize_proxy :: "url_parser \<Rightarrow> string \<Rightarrow> err + string" where
  "normalize_proxy parse raw =
     (let s = trim_space raw;
          s = (if contains_sub s ''://'' then s else ''http://'' @ s) in
      case parse s of
        Inl e \<Rightarrow> Inl (Wrapf ''anthropic: bad proxy'' [e])
      | Inr (scheme, host, name) \<Rightarrow>
          if scheme \<notin> {''http'', ''https'', ''socks5'', ''socks5h''}
            then Inl (Sentinel ''anthropic: proxy: unsupported scheme'')
          else if name = [] then Inl (Sentinel ''anthropic: proxy needs a host'')
          else Inr s)"

definition client_of :: "string \<Rightarrow> string \<Rightarrow> anth_config \<Rightarrow> transport \<Rightarrow> anth_client" where
  "client_of key base cfg t =
     (let extra = canonical_headers (ac_extra cfg) in
      \<lparr>cl_key = key, cl_endpoint = base @ ''/v1/messages'', cl_model = ac_model cfg,
       cl_max_tokens = (if ac_max_tokens cfg = 0 then 8192 else ac_max_tokens cfg),
       cl_version = (if ac_version cfg = [] then ''2023-06-01'' else ac_version cfg),
       cl_beta = join_with '','' (ac_beta cfg),
       cl_ctx_mgmt = (case map_of extra beta_header of
           Some v \<Rightarrow> has_beta (split_on CHR '','' v) BetaContextManagement
         | None \<Rightarrow> has_beta (ac_beta cfg) BetaContextManagement),
       cl_stream = ac_stream cfg, cl_temperature = ac_temperature cfg,
       cl_top_p = ac_top_p cfg, cl_extra = extra, cl_transport = t\<rparr>)"

definition new_client :: "url_parser \<Rightarrow> (string \<Rightarrow> string) \<Rightarrow> anth_config \<Rightarrow> err + anth_client" where
  "new_client parse env cfg =
     (let key = (if ac_key cfg = [] then env ''ANTHROPIC_API_KEY'' else ac_key cfg);
          base = (if ac_base cfg = [] then env ''ANTHROPIC_BASE_URL'' else ac_base cfg);
          base = (if base = [] then ''https://api.anthropic.com'' else base);
          base = trim_right_by (\<lambda>c. c = CHR ''/'') base in
      if key = [] then Inl ErrNoAPIKey
      else case parse base of
        Inl e \<Rightarrow> Inl (Wrapf ''anthropic: bad base URL'' [e])
      | Inr (scheme, host, _) \<Rightarrow>
          if scheme = [] \<or> host = [] then Inl (Sentinel ''anthropic: base URL needs a scheme and host'')
          else if ac_max_tokens cfg < 0 then Inl (Sentinel ''anthropic: negative MaxTokens'')
          else case validate_sampling (ac_temperature cfg) (ac_top_p cfg) of
            Some e \<Rightarrow> Inl e
          | None \<Rightarrow>
              (case (if ac_proxy cfg = [] then Inr None else map_sum id Some (normalize_proxy parse (ac_proxy cfg))) of
                 Inl e \<Rightarrow> Inl e
               | Inr p \<Rightarrow> Inr (client_of key base cfg
                   (if ac_own_client cfg then OwnClient
                    else case p of Some u \<Rightarrow> Proxied u | None \<Rightarrow> ProxyFromEnv))))"

lemma new_client_shape: "new_client parse env cfg = Inr c \<Longrightarrow> \<exists>key base t. c = client_of key base cfg t"
  by (auto simp: new_client_def Let_def split: sum.splits option.splits prod.splits if_splits)

definition set_headers :: "anth_client \<Rightarrow> bool \<Rightarrow> string \<rightharpoonup> string" where
  "set_headers c stream =
     (let h = [''Content-Type'' \<mapsto> ''application/json'', ''X-Api-Key'' \<mapsto> cl_key c,
            ''Anthropic-Version'' \<mapsto> cl_version c];
          h = (if cl_beta c = [] then h else h(beta_header \<mapsto> cl_beta c));
          h = h(''Accept'' \<mapsto> (if stream then ''text/event-stream'' else ''application/json''))
      in foldl (\<lambda>h (k, v). h(canonical_key k \<mapsto> v)) h (cl_extra c))"

section \<open>The request body\<close>

text \<open>The blocks of the wire; the flag is the cache breakpoint, which a thinking block cannot carry.\<close>

datatype wire_block =
    WText string bool
  | WToolUse tool_use_id string string bool
  | WToolResult tool_use_id string bool bool
  | WThinking string string

definition empty_schema :: string where
  "empty_schema = json_render (JObj [(''type'', JStr ''object''), (''properties'', JObj [])])"

definition empty_input :: string where "empty_input = ''{}''"

fun encode_block :: "block \<Rightarrow> wire_block" where
  "encode_block (Text s) = WText s False"
| "encode_block (ToolUse u) =
     WToolUse (tu_id u) (tu_name u) (if tu_input u = [] then empty_input else tu_input u) False"
| "encode_block (ToolResult r) = WToolResult (tr_id r) (tr_content r) (tr_is_error r) False"
| "encode_block (Thinking s g) = WThinking s g"

fun cacheable :: "wire_block \<Rightarrow> wire_block" where
  "cacheable (WText s _) = WText s True"
| "cacheable (WToolUse i n inp _) = WToolUse i n inp True"
| "cacheable (WToolResult i c e _) = WToolResult i c e True"
| "cacheable (WThinking s g) = WThinking s g"

type_synonym wire_message = "role \<times> wire_block list"

definition mark_last_cacheable :: "wire_message list \<Rightarrow> wire_message list" where
  "mark_last_cacheable ms =
     (if ms = [] \<or> snd (last ms) = [] then ms
      else butlast ms @
        [(fst (last ms), butlast (snd (last ms)) @ [cacheable (last (snd (last ms)))])])"

definition encode_messages :: "convo \<Rightarrow> wire_message list" where
  "encode_messages c =
     mark_last_cacheable (map (\<lambda>m. (msg_role m, map encode_block (msg_content m))) c)"

record wire_tool =
  wt_name :: string
  wt_description :: string
  wt_schema :: string
  wt_cached :: bool

definition encode_tools :: "tool_spec list \<Rightarrow> wire_tool list" where
  "encode_tools ts =
     (let out = map (\<lambda>t. \<lparr>wt_name = ts_name t, wt_description = ts_description t,
            wt_schema = (if ts_schema t = [] then empty_schema else ts_schema t), wt_cached = False\<rparr>) ts
      in if out = [] then out else butlast out @ [(last out)\<lparr>wt_cached := True\<rparr>])"

definition encode_choice :: "tool_choice \<Rightarrow> (string \<times> string) option" where
  "encode_choice tc = (case tc_mode tc of
     ChoiceAuto \<Rightarrow> None
   | ChoiceTool \<Rightarrow> Some (''tool'', tc_name tc)
   | ChoiceAny \<Rightarrow> Some (''any'', [])
   | ChoiceNone \<Rightarrow> Some (''none'', []))"

text \<open>The pair is resolved as one: a request that names either control supplies both.\<close>

definition anth_sampling :: "anth_client \<Rightarrow> request \<Rightarrow> err + real option \<times> real option" where
  "anth_sampling c req =
     (let (t, p) = (if rq_temperature req = None \<and> rq_top_p req = None
                    then (cl_temperature c, cl_top_p c) else (rq_temperature req, rq_top_p req))
      in if t \<noteq> None \<and> p \<noteq> None
         then Inl (Wrapf ''anthropic: a request may set Temperature or TopP, not both'' [ErrBadRequest])
         else Inr (t, p))"

record wire_body =
  wb_model :: string
  wb_max_tokens :: int
  wb_messages :: "wire_message list"
  wb_system :: string
  wb_tools :: "wire_tool list"
  wb_context :: bool
  wb_choice :: "(string \<times> string) option"
  wb_temperature :: "real option"
  wb_top_p :: "real option"
  wb_stream :: bool

definition request_body :: "anth_client \<Rightarrow> request \<Rightarrow> string \<Rightarrow> int \<Rightarrow> bool \<Rightarrow> err + wire_body" where
  "request_body c req model max_tokens stream =
     (case anth_sampling c req of
        Inl e \<Rightarrow> Inl e
      | Inr (t, p) \<Rightarrow>
          Inr \<lparr>wb_model = model, wb_max_tokens = max_tokens, wb_messages = encode_messages (rq_messages req),
            wb_system = rq_system req,
            wb_tools = (if rq_tools req = [] then [] else encode_tools (rq_tools req)),
            wb_context = (rq_tools req \<noteq> [] \<and> cl_ctx_mgmt c),
            wb_choice = encode_choice (rq_choice req),
            wb_temperature = t, wb_top_p = p, wb_stream = stream\<rparr>)"

subsection \<open>As JSON\<close>

definition cache_field :: "bool \<Rightarrow> (string \<times> json) list" where
  "cache_field b = (if b then [(''cache_control'', JObj [(''type'', JStr ''ephemeral'')])] else [])"

text \<open>A raw field that is not JSON fails the encoder.\<close>

fun wire_block_json :: "wire_block \<Rightarrow> json option" where
  "wire_block_json (WText s b) = Some (JObj ([(''type'', JStr ''text''), (''text'', JStr s)] @ cache_field b))"
| "wire_block_json (WToolUse i n inp b) =
     map_option (\<lambda>v. JObj ([(''type'', JStr ''tool_use''), (''id'', JStr i), (''name'', JStr n), (''input'', v)] @
       cache_field b)) (json_parse inp)"
| "wire_block_json (WToolResult i c e b) =
     Some (JObj ([(''type'', JStr ''tool_result''), (''tool_use_id'', JStr i), (''content'', JStr c)] @
       (if e then [(''is_error'', JBool True)] else []) @ cache_field b))"
| "wire_block_json (WThinking s g) =
     Some (JObj ([(''type'', JStr ''thinking''), (''thinking'', JStr s)] @ str_field ''signature'' g))"

definition wire_message_json :: "wire_message \<Rightarrow> json option" where
  "wire_message_json m =
     map_option (\<lambda>bs. JObj [(''role'', JStr (fst m)), (''content'', JArr bs)])
       (all_some (map wire_block_json (snd m)))"

definition wire_tool_json :: "wire_tool \<Rightarrow> json option" where
  "wire_tool_json t =
     map_option (\<lambda>v. JObj ((''name'', JStr (wt_name t)) # str_field ''description'' (wt_description t) @
       (''input_schema'', v) # cache_field (wt_cached t))) (json_parse (wt_schema t))"

definition context_management :: json where
  "context_management =
     (let th = (\<lambda>k n. JObj [(''type'', JStr k), (''value'', JNum (int_text n))]) in
      JObj [(''edits'', JArr [JObj
        [(''type'', JStr ''clear_tool_uses_20250919''), (''trigger'', th ''input_tokens'' 20000),
         (''keep'', th ''tool_uses'' 4), (''clear_at_least'', th ''input_tokens'' 3000)]])])"

text \<open>\<open>ftext\<close> writes a floating-point number.\<close>

definition body_json :: "(real \<Rightarrow> string) \<Rightarrow> wire_body \<Rightarrow> json option" where
  "body_json ftext b =
     (case (all_some (map wire_message_json (wb_messages b)), all_some (map wire_tool_json (wb_tools b))) of
        (Some ms, Some ts) \<Rightarrow> Some (JObj
          ([(''model'', JStr (wb_model b)), (''max_tokens'', JNum (int_text (wb_max_tokens b))),
            (''messages'', JArr ms)] @
           (if wb_system b = [] then [] else [(''system'', JArr [JObj
              ([(''type'', JStr ''text''), (''text'', JStr (wb_system b))] @ cache_field True)])]) @
           (if ts = [] then [] else [(''tools'', JArr ts)]) @
           (if wb_context b then [(''context_management'', context_management)] else []) @
           (case wb_choice b of None \<Rightarrow> []
            | Some (k, n) \<Rightarrow> [(''tool_choice'', JObj ((''type'', JStr k) # str_field ''name'' n))]) @
           (case wb_temperature b of None \<Rightarrow> [] | Some t \<Rightarrow> [(''temperature'', JNum (ftext t))]) @
           (case wb_top_p b of None \<Rightarrow> [] | Some p \<Rightarrow> [(''top_p'', JNum (ftext p))]) @
           (if wb_stream b then [(''stream'', JBool True)] else [])))
      | _ \<Rightarrow> None)"

definition encode_request :: "(real \<Rightarrow> string) \<Rightarrow> anth_client \<Rightarrow> request \<Rightarrow> string \<Rightarrow> int \<Rightarrow> bool \<Rightarrow> err + json" where
  "encode_request ftext c req model max_tokens stream =
     (case request_body c req model max_tokens stream of
        Inl e \<Rightarrow> Inl e
      | Inr b \<Rightarrow> (case body_json ftext b of
            None \<Rightarrow> Inl (Wrapf ''anthropic: encode request'' []) | Some j \<Rightarrow> Inr j))"

section \<open>The buffered reply\<close>

record api_block =
  ab_type :: string
  ab_text :: string
  ab_thinking :: string
  ab_signature :: string
  ab_id :: string
  ab_name :: string
  ab_input :: string

record api_message =
  am_model :: string
  am_content :: "api_block list"
  am_stop :: string
  am_usage :: usage

definition api_block_of_fields :: "(string \<times> json) list \<Rightarrow> api_block option" where
  "api_block_of_fields kvs =
     (case (field_str ''type'' kvs, field_str ''text'' kvs, field_str ''thinking'' kvs,
            field_str ''signature'' kvs, field_str ''id'' kvs, field_str ''name'' kvs) of
        (Some t, Some x, Some th, Some g, Some i, Some n) \<Rightarrow>
          Some \<lparr>ab_type = t, ab_text = x, ab_thinking = th, ab_signature = g, ab_id = i, ab_name = n,
            ab_input = field_raw ''input'' kvs\<rparr>
      | _ \<Rightarrow> None)"

definition api_message_of_fields :: "(string \<times> json) list \<Rightarrow> api_message option" where
  "api_message_of_fields kvs =
     (case (field_str ''model'' kvs, array_of (struct_of api_block_of_fields) ''content'' kvs,
            field_str ''stop_reason'' kvs,
            usage_of_json (case json_field ''usage'' kvs of Some v \<Rightarrow> v | None \<Rightarrow> JNull)) of
        (Some m, Some bs, Some sr, Some u) \<Rightarrow>
          Some \<lparr>am_model = m, am_content = bs, am_stop = sr, am_usage = u\<rparr>
      | _ \<Rightarrow> None)"

definition scrub_raw :: "string \<Rightarrow> string" where
  "scrub_raw raw = (if raw = [] then empty_input else scrub raw)"

definition to_block :: "api_block \<Rightarrow> block option" where
  "to_block b =
     (if ab_type b = ''text'' then Some (Text (scrub (ab_text b)))
      else if ab_type b = ''thinking'' then Some (Thinking (scrub (ab_thinking b)) (ab_signature b))
      else if ab_type b = ''tool_use'' then
        Some (ToolUse \<lparr>tu_id = ab_id b, tu_name = ab_name b, tu_input = scrub_raw (ab_input b)\<rparr>)
      else None)"

definition decode_blocks :: "api_block list \<Rightarrow> block list" where
  "decode_blocks bs = List.map_filter to_block bs"

definition pick :: "string \<Rightarrow> string \<Rightarrow> string" where
  "pick a b = (if a \<noteq> [] then a else b)"

definition message_response :: "string \<Rightarrow> api_message \<Rightarrow> response" where
  "message_response model m =
     \<lparr>rs_content = decode_blocks (am_content m), rs_stop = am_stop m, rs_usage = am_usage m,
      rs_model = pick (am_model m) model\<rparr>"

definition decode_message :: "string \<Rightarrow> string \<Rightarrow> err + response" where
  "decode_message body model =
     (case Option.bind (first_value body) (struct_of api_message_of_fields) of
        None \<Rightarrow> Inl (classify_transport (Wrapf ''anthropic: decode response'' []))
      | Some m \<Rightarrow> Inr (message_response model m))"

section \<open>The streamed reply\<close>

record stream_delta =
  sd_type :: string
  sd_text :: string
  sd_json :: string
  sd_thinking :: string
  sd_signature :: string
  sd_stop :: string

record stream_event =
  se_type :: string
  se_index :: int
  se_message :: "api_message option"
  se_block :: "api_block option"
  se_delta :: "stream_delta option"
  se_usage :: "usage option"
  se_error :: "(string \<times> string) option"

definition stream_delta_of_fields :: "(string \<times> json) list \<Rightarrow> stream_delta option" where
  "stream_delta_of_fields kvs =
     (case (field_str ''type'' kvs, field_str ''text'' kvs, field_str ''partial_json'' kvs,
            field_str ''thinking'' kvs, field_str ''signature'' kvs, field_str ''stop_reason'' kvs) of
        (Some t, Some x, Some j, Some th, Some g, Some st) \<Rightarrow>
          Some \<lparr>sd_type = t, sd_text = x, sd_json = j, sd_thinking = th, sd_signature = g, sd_stop = st\<rparr>
      | _ \<Rightarrow> None)"

definition api_error_of_fields :: "(string \<times> json) list \<Rightarrow> (string \<times> string) option" where
  "api_error_of_fields kvs = (case (field_str ''type'' kvs, field_str ''message'' kvs) of
     (Some t, Some m) \<Rightarrow> Some (t, m) | _ \<Rightarrow> None)"

definition stream_event_of_fields :: "(string \<times> json) list \<Rightarrow> stream_event option" where
  "stream_event_of_fields kvs =
     (case (field_str ''type'' kvs, field_int ''index'' kvs, pointer_of api_message_of_fields ''message'' kvs,
            pointer_of api_block_of_fields ''content_block'' kvs,
            pointer_of stream_delta_of_fields ''delta'' kvs,
            pointer_of (\<lambda>f. usage_of_json (JObj f)) ''usage'' kvs, pointer_of api_error_of_fields ''error'' kvs) of
        (Some t, Some i, Some m, Some b, Some d, Some u, Some e) \<Rightarrow>
          Some \<lparr>se_type = t, se_index = i, se_message = m, se_block = b, se_delta = d, se_usage = u, se_error = e\<rparr>
      | _ \<Rightarrow> None)"

text \<open>An event that cannot be decoded is ignored; the line of the event names its type when the JSON does not.\<close>

definition decode_event :: "sse_event \<Rightarrow> stream_event option" where
  "decode_event ev =
     map_option (\<lambda>e. if se_type e = [] then e\<lparr>se_type := ev_type ev\<rparr> else e)
       (Option.bind (json_parse (ev_data ev)) (struct_of stream_event_of_fields))"

subsection \<open>Accumulating\<close>

record block_acc =
  ba_kind :: string
  ba_text :: string
  ba_thinking :: string
  ba_signature :: string
  ba_input :: string
  ba_id :: string
  ba_name :: string

definition blank_acc :: block_acc where
  "blank_acc = \<lparr>ba_kind = [], ba_text = [], ba_thinking = [], ba_signature = [], ba_input = [],
     ba_id = [], ba_name = []\<rparr>"

record stream_state =
  ss_blocks :: "block_acc option list"
  ss_stop :: string
  ss_usage :: usage
  ss_model :: string

text \<open>\<^verbatim>\<open>at\<close>: the slice grows to hold the index, which opens its accumulator; the update comes after.\<close>

definition at_block :: "int \<Rightarrow> (block_acc \<Rightarrow> block_acc) \<Rightarrow> stream_state \<Rightarrow> stream_state" where
  "at_block i f s =
     (if i < 0 then s
      else (let bs = ss_blocks s @ replicate (Suc (nat i) - length (ss_blocks s)) None in
        s\<lparr>ss_blocks := bs[nat i := Some (f (case bs ! nat i of None \<Rightarrow> blank_acc | Some a \<Rightarrow> a))]\<rparr>))"

definition acc_at :: "stream_state \<Rightarrow> int \<Rightarrow> block_acc" where
  "acc_at s i = (if i < 0 \<or> length (ss_blocks s) \<le> nat i then blank_acc
     else case ss_blocks s ! nat i of None \<Rightarrow> blank_acc | Some a \<Rightarrow> a)"

definition start_acc :: "api_block \<Rightarrow> block_acc \<Rightarrow> block_acc" where
  "start_acc b a =
     (if ab_type b = ''text'' then a\<lparr>ba_kind := ''text'', ba_text := ba_text a @ ab_text b\<rparr>
      else if ab_type b = ''thinking'' then
        a\<lparr>ba_kind := ''thinking'', ba_thinking := ba_thinking a @ ab_thinking b,
          ba_signature := ba_signature a @ ab_signature b\<rparr>
      else if ab_type b = ''tool_use'' then a\<lparr>ba_kind := ''tool_use'', ba_id := ab_id b, ba_name := ab_name b\<rparr>
      else a)"

definition delta_acc :: "stream_delta \<Rightarrow> block_acc \<Rightarrow> block_acc" where
  "delta_acc d a =
     (if sd_type d = ''text_delta'' then a\<lparr>ba_text := ba_text a @ sd_text d\<rparr>
      else if sd_type d = ''input_json_delta'' then a\<lparr>ba_input := ba_input a @ sd_json d\<rparr>
      else if sd_type d = ''thinking_delta'' then a\<lparr>ba_thinking := ba_thinking a @ sd_thinking d\<rparr>
      else if sd_type d = ''signature_delta'' then a\<lparr>ba_signature := ba_signature a @ sd_signature d\<rparr>
      else a)"

definition merge_usage :: "usage \<Rightarrow> usage \<Rightarrow> usage" where
  "merge_usage u v =
     \<lparr>u_input = (if u_input v > 0 then u_input v else u_input u),
      u_output = (if u_output v > 0 then u_output v else u_output u),
      u_cache_write = (if u_cache_write v > 0 then u_cache_write v else u_cache_write u),
      u_cache_read = (if u_cache_read v > 0 then u_cache_read v else u_cache_read u)\<rparr>"

definition stream_error :: "(string \<times> string) option \<Rightarrow> err" where
  "stream_error e = (case e of
     None \<Rightarrow> ApiErr ErrServer 0 ''anthropic: stream error event with no detail'' 0 None
   | Some (t, m) \<Rightarrow>
       (let cls = (if t = ''overloaded_error'' then ErrOverloaded
              else if t = ''rate_limit_error'' then ErrRateLimit
              else if t = ''invalid_request_error'' then ErrBadRequest
              else if t = ''authentication_error'' \<or> t = ''permission_error'' then ErrAuth
              else if t = ''not_found_error'' then ErrNotFound else ErrServer)
        in ApiErr cls 0 (truncated max_error_message (scrub (t @ '': '' @ m))) 0 None))"

text \<open>One event: the error that ends the stream, or the state and the fragments for the sink.\<close>

definition handle_event :: "stream_event \<Rightarrow> stream_state \<Rightarrow> err + stream_state \<times> delta list" where
  "handle_event e s =
     (if se_type e = ''message_start'' then
        (case se_message e of None \<Rightarrow> Inr (s, [])
         | Some m \<Rightarrow> Inr (s\<lparr>ss_model := pick (am_model m) (ss_model s), ss_usage := am_usage m\<rparr>, []))
      else if se_type e = ''content_block_start'' then
        (case se_block e of None \<Rightarrow> Inr (at_block (se_index e) id s, [])
         | Some b \<Rightarrow> Inr (at_block (se_index e) (start_acc b) s,
             if se_index e \<ge> 0 \<and> ab_type b = ''tool_use''
             then emit_tool_args (se_index e) (ab_id b) (ab_name b) [] else []))
      else if se_type e = ''content_block_delta'' then
        (case se_delta e of None \<Rightarrow> Inr (at_block (se_index e) id s, [])
         | Some d \<Rightarrow> Inr (at_block (se_index e) (delta_acc d) s,
             if se_index e < 0 then []
             else if sd_type d = ''text_delta'' then [TextDelta (sd_text d)]
             else if sd_type d = ''input_json_delta'' \<and> ba_kind (acc_at s (se_index e)) = ''tool_use''
               then emit_tool_args (se_index e) [] [] (sd_json d)
             else if sd_type d = ''thinking_delta'' then [ReasoningDelta (sd_thinking d)] else []))
      else if se_type e = ''message_delta'' then
        Inr (s\<lparr>ss_stop := (case se_delta e of None \<Rightarrow> ss_stop s | Some d \<Rightarrow> pick (sd_stop d) (ss_stop s)),
               ss_usage := (case se_usage e of None \<Rightarrow> ss_usage s | Some u \<Rightarrow> merge_usage (ss_usage s) u)\<rparr>, [])
      else if se_type e = ''error'' then Inl (stream_error (se_error e))
      else Inr (s, []))"

fun handle_events :: "sse_event list \<Rightarrow> stream_state \<Rightarrow> err + stream_state \<times> delta list" where
  "handle_events [] s = Inr (s, [])"
| "handle_events (ev # evs) s =
     (case (if ev_data ev = [] then None else decode_event ev) of
        None \<Rightarrow> handle_events evs s
      | Some e \<Rightarrow>
          (case handle_event e s of
             Inl err \<Rightarrow> Inl err
           | Inr (s', ds) \<Rightarrow>
               (case handle_events evs s' of Inl err \<Rightarrow> Inl err | Inr (s'', ds') \<Rightarrow> Inr (s'', ds @ ds'))))"

definition tool_input :: "string \<Rightarrow> string" where
  "tool_input raw =
     (if raw = [] then empty_input
      else (let clean = scrub raw in if json_valid clean then clean else html_quote clean))"

definition acc_block :: "block_acc \<Rightarrow> block option" where
  "acc_block a =
     (if ba_kind a = ''text'' then
        (let t = scrub (ba_text a) in if t = [] then None else Some (Text t))
      else if ba_kind a = ''thinking'' then Some (Thinking (scrub (ba_thinking a)) (ba_signature a))
      else if ba_kind a = ''tool_use'' then
        Some (ToolUse \<lparr>tu_id = ba_id a, tu_name = ba_name a, tu_input = tool_input (ba_input a)\<rparr>)
      else None)"

definition stream_response :: "stream_state \<Rightarrow> response" where
  "stream_response s =
     \<lparr>rs_content = List.map_filter (\<lambda>b. Option.bind b acc_block) (ss_blocks s), rs_stop = ss_stop s,
      rs_usage = ss_usage s, rs_model = ss_model s\<rparr>"

definition stream_start :: "string \<Rightarrow> stream_state" where
  "stream_start model = \<lparr>ss_blocks = [], ss_stop = [],
     ss_usage = \<lparr>u_input = 0, u_output = 0, u_cache_write = 0, u_cache_read = 0\<rparr>, ss_model = model\<rparr>"

text \<open>\<open>cause\<close> is the cancellation cause of the call's context when the body ends in an error.\<close>

definition abort_error :: "err option \<Rightarrow> err \<Rightarrow> err" where
  "abort_error cause e = (case cause of
     None \<Rightarrow> classify_transport e
   | Some c \<Rightarrow> if errors_is c ErrDeadlineExceeded \<or> errors_is c ErrStreamIdle
       then classify_transport (Wrapf [] [c, e]) else Wrapf ''anthropic: call aborted'' [c])"

definition read_stream :: "string \<Rightarrow> err option \<Rightarrow> err option \<Rightarrow> string \<Rightarrow> err + response \<times> delta list" where
  "read_stream body fl cause model =
     (case sse_read body fl of (evs, e) \<Rightarrow>
        (case handle_events evs (stream_start model) of
           Inl err \<Rightarrow> Inl err
         | Inr (s, ds) \<Rightarrow>
             (case e of
                Some e \<Rightarrow> Inl (abort_error cause (Wrapf ''anthropic: read stream'' [e]))
              | None \<Rightarrow>
                  if list_all (\<lambda>ev. ev_data ev = []) evs
                  then Inl (classify_transport (Sentinel ''anthropic: empty event stream''))
                  else Inr (stream_response s, ds))))"

section \<open>A call\<close>

text \<open>\<open>pf\<close> parses a number; \<open>until\<close> is the time to a date.\<close>

definition http_retry_after :: "(string \<Rightarrow> real option) \<Rightarrow> (string \<Rightarrow> int option) \<Rightarrow> string \<Rightarrow> int" where
  "http_retry_after pf until v =
     (let v = trim_space v in
      if v = [] then 0
      else case pf v of
        Some secs \<Rightarrow> if secs \<le> 0 then 0 else \<lfloor>secs * 1000000000\<rfloor>
      | None \<Rightarrow> (case until v of Some d \<Rightarrow> if d > 0 then d else 0 | None \<Rightarrow> 0))"

definition status_error :: "(string \<Rightarrow> real option) \<Rightarrow> (string \<Rightarrow> int option) \<Rightarrow> int \<Rightarrow> string \<Rightarrow> string \<Rightarrow> err option" where
  "status_error pf until status ra body =
     classify_status status (truncated max_error_message (scrub (take max_error_body body)))
       (http_retry_after pf until ra)"

definition anth_complete ::
  "(real \<Rightarrow> string) \<Rightarrow> (string \<Rightarrow> real option) \<Rightarrow> (string \<Rightarrow> int option) \<Rightarrow> anth_client \<Rightarrow>
   ((string \<rightharpoonup> string) \<Rightarrow> json \<Rightarrow> http_outcome) \<Rightarrow> bool \<Rightarrow> request \<Rightarrow> err + response \<times> delta list" where
  "anth_complete ftext pf until c post sink req =
     (let model = pick (rq_model req) (cl_model c);
          max_tokens = (if rq_max_tokens req \<le> 0 then cl_max_tokens c else rq_max_tokens req);
          stream = stream_enabled (cl_stream c) sink in
      if model = [] then Inl (Wrapf ''anthropic: no model on the request and no client default'' [ErrBadRequest])
      else case encode_request ftext c req model max_tokens stream of
        Inl e \<Rightarrow> Inl e
      | Inr body \<Rightarrow>
          (case post (set_headers c stream) body of
             HttpFail e cause \<Rightarrow> Inl (abort_error cause (Wrapf ''anthropic: POST'' [e]))
           | HttpReply status ra text fl cause \<Rightarrow>
               (case status_error pf until status ra text of
                  Some e \<Rightarrow> Inl e
                | None \<Rightarrow>
                    if stream then map_sum id (\<lambda>(r, ds). (r, if sink then ds else [])) (read_stream text fl cause model)
                    else map_sum id (\<lambda>r. (r, [])) (decode_message text model))))"

section \<open>What reaches the wire\<close>

fun bare_block :: "wire_block \<Rightarrow> wire_block" where
  "bare_block (WText s _) = WText s False"
| "bare_block (WToolUse i n inp _) = WToolUse i n inp False"
| "bare_block (WToolResult i c e _) = WToolResult i c e False"
| "bare_block (WThinking s g) = WThinking s g"

fun marked :: "wire_block \<Rightarrow> bool" where
  "marked (WText _ b) = b"
| "marked (WToolUse _ _ _ b) = b"
| "marked (WToolResult _ _ _ b) = b"
| "marked (WThinking _ _) = False"

definition bare_message :: "wire_message \<Rightarrow> wire_message" where
  "bare_message m = (fst m, map bare_block (snd m))"

definition breakpoints :: "wire_body \<Rightarrow> nat" where
  "breakpoints b = (if wb_system b = [] then 0 else 1) + length (filter wt_cached (wb_tools b)) +
     length (filter marked (concat (map snd (wb_messages b))))"

lemma bare_cacheable [simp]: "bare_block (cacheable w) = bare_block w"
  by (cases w) auto

lemma bare_encoded [simp]: "bare_block (encode_block b) = encode_block b" "\<not> marked (encode_block b)"
  by (cases b; simp)+

lemma bare_marked: "map bare_message (mark_last_cacheable ms) = map bare_message ms"
proof (cases "ms = [] \<or> snd (last ms) = []")
  case False
  then obtain xs r ws w where "ms = xs @ [(r, ws @ [w])]"
    by (cases ms rule: rev_cases; cases "snd (last ms)" rule: rev_cases) auto
  then show ?thesis by (simp add: mark_last_cacheable_def bare_message_def)
qed (auto simp: mark_last_cacheable_def)

lemma bare_encode_messages:
  "map bare_message (encode_messages c) = map (\<lambda>m. (msg_role m, map encode_block (msg_content m))) c"
  by (simp add: encode_messages_def bare_marked comp_def bare_message_def)

lemma encode_messages_marks: "length (filter marked (concat (map snd (encode_messages c)))) \<le> 1"
proof -
  let ?f = "\<lambda>m. (msg_role m, map encode_block (msg_content m))"
  have none: "filter marked (concat (map snd (map ?f c))) = []" for c
    by (auto simp: filter_empty_conv)
  show ?thesis
  proof (cases "c = [] \<or> msg_content (last c) = []")
    case True
    then have "encode_messages c = map ?f c" by (auto simp: encode_messages_def mark_last_cacheable_def last_map)
    then show ?thesis using none by simp
  next
    case False
    then obtain xs l where c: "c = xs @ [l]" "msg_content l \<noteq> []" by (cases c rule: rev_cases) auto
    then obtain bs b where "msg_content l = bs @ [b]" by (cases "msg_content l" rule: rev_cases) auto
    with c none[of xs] show ?thesis
      by (simp add: encode_messages_def mark_last_cacheable_def filter_empty_conv)
  qed
qed

lemma encode_messages_last:
  assumes "c \<noteq> []" and "msg_content (last c) = bs @ [b]" and "\<forall>s g. b \<noteq> Thinking s g"
  shows "marked (last (snd (last (encode_messages c))))"
proof -
  obtain xs l where "c = xs @ [l]" using assms(1) by (cases c rule: rev_cases) auto
  with assms(2,3) show ?thesis
    by (cases b) (auto simp: encode_messages_def mark_last_cacheable_def)
qed

lemma encode_tools_marks: "length (filter wt_cached (encode_tools ts)) \<le> 1"
proof (cases ts rule: rev_cases)
  case (snoc xs x)
  then show ?thesis by (simp add: encode_tools_def filter_empty_conv comp_def)
qed (simp add: encode_tools_def)


definition sample_client :: anth_client where
  "sample_client = \<lparr>cl_key = ''k'', cl_endpoint = ''https://h/v1/messages'', cl_model = ''m'', cl_max_tokens = 8192,
     cl_version = ''2023-06-01'', cl_beta = [], cl_ctx_mgmt = False, cl_stream = StreamAuto,
     cl_temperature = None, cl_top_p = Some 1, cl_extra = [], cl_transport = ProxyFromEnv\<rparr>"

definition sample_request :: request where
  "sample_request = \<lparr>rq_system = ''be brief'', rq_messages = [user_text ''hi''], rq_tools = [], rq_choice = auto_choice,
     rq_model = [], rq_max_tokens = 0, rq_temperature = Some 0, rq_top_p = None\<rparr>"


subsection \<open>Headers\<close>

definition canonical_keys :: "(string \<times> string) list \<Rightarrow> bool" where
  "canonical_keys kvs \<longleftrightarrow> (\<forall>k\<in>fst ` set kvs. canonical_key k = k) \<and> distinct (map fst kvs)"

lemma canonical_keys_update: "canonical_keys kvs \<Longrightarrow> canonical_keys (AList.update (canonical_key k) v kvs)"
  unfolding canonical_keys_def dom_update using distinct_update[of kvs "canonical_key k" v] by simp

lemma canonical_headers_keys: "canonical_keys (canonical_headers m)"
proof -
  have "canonical_keys out \<Longrightarrow> canonical_keys (fold (\<lambda>(k, v). AList.update (canonical_key (trim_space k)) v) m out)" for out
  proof (induction m arbitrary: out)
    case (Cons kv m)
    then show ?case by (cases kv) (simp add: canonical_keys_update)
  qed simp
  from this[of "[]"] show ?thesis by (simp add: canonical_headers_def canonical_keys_def)
qed

lemma set_headers_extra:
  "canonical_keys kvs \<Longrightarrow> foldl (\<lambda>h (k, v). h(canonical_key k \<mapsto> v)) h kvs x = (case map_of kvs x of None \<Rightarrow> h x | Some v \<Rightarrow> Some v)"
proof (induction kvs arbitrary: h)
  case (Cons kv kvs)
  obtain k v where kv: "kv = (k, v)" by force
  with Cons.prems have "canonical_keys kvs" "map_of kvs k = None" "canonical_key k = k"
    by (auto simp: canonical_keys_def map_of_eq_None_iff)
  then show ?case using Cons.IH[of "h(k \<mapsto> v)"] kv by (auto split: option.splits)
qed simp

lemma split_join_set: "ws \<noteq> [] \<Longrightarrow> set (split_on c (join_with [c] ws)) = (\<Union>w\<in>set ws. set (split_on c w))"
  by (induction ws rule: induct_list012) (auto simp: join_with_Cons split_on_append_sep)

lemma in_trim: "x \<in> set s \<Longrightarrow> \<not> is_space x \<Longrightarrow> x \<in> set (trim_space s)"
proof -
  have drop: "x \<in> set s \<Longrightarrow> \<not> p x \<Longrightarrow> x \<in> set (dropWhile p s)" for p :: "char \<Rightarrow> bool" and s
    by (induction s) auto
  show "x \<in> set s \<Longrightarrow> \<not> is_space x \<Longrightarrow> x \<in> set (trim_space s)"
    by (simp add: trim_space_def trim_by_def trim_right_by_def trim_left_by_def drop)
qed

lemma has_beta_joined:
  assumes "has_beta ws want" and "CHR '','' \<notin> set want"
  shows "has_beta (split_on CHR '','' (join_with '','' ws)) want"
proof -
  obtain w where w: "w \<in> set ws" "trim_space w = want" using assms(1) by (auto simp: has_beta_def list_ex_iff)
  have "CHR '','' \<notin> set w" using in_trim[of "CHR '',''" w] w(2) assms(2) by (auto simp: is_space_def)
  then have "w \<in> set (split_on CHR '','' (join_with '','' ws))"
    using w(1) split_join_set[of ws "CHR '',''"] by (cases ws) force+
  with w(2) show ?thesis by (auto simp: has_beta_def list_ex_iff)
qed

text \<open>A request asks for context management only when it may: whatever the configuration, its header
  overrides and their spelling included, a body that carries the block goes out with a beta header that
  names the feature.\<close>

theorem context_block_with_header:
  assumes "new_client parse env cfg = Inr c" and "request_body c req model n stream = Inr b" and "wb_context b"
  shows "\<exists>v. set_headers c stream beta_header = Some v \<and> has_beta (split_on CHR '','' v) BetaContextManagement"
proof -
  let ?x = "canonical_headers (ac_extra cfg)"
  have c: "cl_extra c = ?x" "cl_beta c = join_with '','' (ac_beta cfg)"
    "cl_ctx_mgmt c = (case map_of ?x beta_header of Some v \<Rightarrow> has_beta (split_on CHR '','' v) BetaContextManagement
       | None \<Rightarrow> has_beta (ac_beta cfg) BetaContextManagement)"
    using new_client_shape[OF assms(1)] by (auto simp: client_of_def Let_def)
  have on: "cl_ctx_mgmt c" using assms(2,3) by (auto simp: request_body_def split: sum.splits)
  show ?thesis
  proof (cases "map_of ?x beta_header")
    case (Some v)
    then have "set_headers c stream beta_header = Some v"
      by (simp add: set_headers_def Let_def c(1) set_headers_extra[OF canonical_headers_keys])
    with Some on c(3) show ?thesis by simp
  next
    case None
    have "CHR '','' \<notin> set BetaContextManagement" by (simp add: BetaContextManagement_def)
    with None on c(3) have "has_beta (split_on CHR '','' (cl_beta c)) BetaContextManagement"
      by (simp add: c(2) has_beta_joined)
    moreover from this have "cl_beta c \<noteq> []" by (auto simp: has_beta_def trim_space_def trim_by_def trim_right_by_def trim_left_by_def BetaContextManagement_def)
    then have "set_headers c stream beta_header = Some (cl_beta c)"
      using None by (simp add: set_headers_def Let_def c(1) set_headers_extra[OF canonical_headers_keys] beta_header_def)
    ultimately show ?thesis by simp
  qed
qed

definition beta_config :: anth_config where
  "beta_config = \<lparr>ac_key = ''k'', ac_base = ''https://h/'', ac_proxy = [], ac_model = ''m'', ac_max_tokens = 0,
     ac_temperature = None, ac_top_p = None, ac_version = [], ac_beta = [], ac_extra = [(''anthropic-BETA'', ''x, context-management-2025-06-27'')],
     ac_own_client = False, ac_stream = StreamAuto\<rparr>"

theorem context_block_with_header_witness:
  "\<exists>c v. new_client (\<lambda>_. Inr (''https'', ''h'', ''h'')) (\<lambda>_. []) beta_config = Inr c \<and>
     set_headers c True ''Anthropic-Beta'' = Some v \<and> has_beta (split_on CHR '','' v) BetaContextManagement"
proof -
  have beta: "canonical_headers (ac_extra beta_config) = [(''Anthropic-Beta'', ''x, context-management-2025-06-27'')]" by code_simp
  moreover have "has_beta (split_on CHR '','' ''x, context-management-2025-06-27'') BetaContextManagement" by code_simp
  ultimately obtain c where c: "new_client (\<lambda>_. Inr (''https'', ''h'', ''h'')) (\<lambda>_. []) beta_config = Inr c" "cl_ctx_mgmt c"
    by (auto simp: new_client_def client_of_def beta_config_def validate_sampling_def beta_header_def Let_def)
  let ?req = "sample_request\<lparr>rq_tools := [\<lparr>ts_name = ''t'', ts_description = [], ts_schema = []\<rparr>]\<rparr>"
  obtain b where b: "request_body c ?req ''m'' 10 True = Inr b" "wb_context b"
    using c(2) by (auto simp: request_body_def anth_sampling_def sample_request_def)
  from context_block_with_header[OF c(1) b] c(1) show ?thesis by (auto simp: beta_header_def)
qed

end
