(* ===== verification/AnthropicStream.thy ===== *)
theory AnthropicStream
  imports Anthropic
begin

text \<open>
  The streamed reply of the Anthropic client (\<^verbatim>\<open>llm/anthropic/stream.go\<close>) against the buffered one
  (\<^verbatim>\<open>llm/anthropic/response.go\<close>): the accumulators split into one projection per block, one for the
  totals and one for the fragments of each call, and a stream of a message is assembled into that message.
\<close>

section \<open>Projections of a stream\<close>

text \<open>
  Each block, the totals of the message and the fragments of each call depend on their own events only;
  how the events of different blocks interleave makes no difference.
\<close>

definition typed_events :: "sse_event list \<Rightarrow> stream_event list" where
  "typed_events evs = List.map_filter (\<lambda>ev. if ev_data ev = [] then None else decode_event ev) evs"

fun handle_typed :: "stream_event list \<Rightarrow> stream_state \<Rightarrow> err + stream_state \<times> delta list" where
  "handle_typed [] s = Inr (s, [])"
| "handle_typed (e # es) s =
     (case handle_event e s of
        Inl err \<Rightarrow> Inl err
      | Inr (s', ds) \<Rightarrow>
          (case handle_typed es s' of Inl err \<Rightarrow> Inl err | Inr (s'', ds') \<Rightarrow> Inr (s'', ds @ ds')))"

lemma handle_events_typed: "handle_events evs s = handle_typed (typed_events evs) s"
  by (induction evs arbitrary: s)
    (auto simp: typed_events_def List.map_filter_simps split: option.splits sum.splits prod.splits)

definition touches :: "nat \<Rightarrow> stream_event \<Rightarrow> bool" where
  "touches i e \<longleftrightarrow> se_type e \<in> {''content_block_start'', ''content_block_delta''} \<and> se_index e = int i"

definition event_acc :: "stream_event \<Rightarrow> block_acc \<Rightarrow> block_acc" where
  "event_acc e a =
     (if se_type e = ''content_block_start'' then (case se_block e of None \<Rightarrow> a | Some b \<Rightarrow> start_acc b a)
      else (case se_delta e of None \<Rightarrow> a | Some d \<Rightarrow> delta_acc d a))"

definition block_slot :: "stream_state \<Rightarrow> nat \<Rightarrow> block_acc option" where
  "block_slot s i = (if i < length (ss_blocks s) then ss_blocks s ! i else None)"

abbreviation acc_or_blank :: "block_acc option \<Rightarrow> block_acc" where
  "acc_or_blank \<equiv> case_option blank_acc id"

lemma acc_at_slot: "acc_at s (int i) = acc_or_blank (block_slot s i)"
  by (auto simp: acc_at_def block_slot_def split: option.splits)

lemma at_block_slot:
  "block_slot (at_block j f s) i = (if j = int i then Some (f (acc_or_blank (block_slot s i))) else block_slot s i)"
  by (auto simp: block_slot_def at_block_def Let_def nth_append nth_list_update split: option.splits)

lemma at_block_length:
  "(0 \<le> j \<Longrightarrow> nat j < n) \<Longrightarrow> length (ss_blocks s) \<le> n \<Longrightarrow> length (ss_blocks (at_block j f s)) \<le> n"
  by (auto simp: at_block_def Let_def)

lemma at_block_rest [simp]:
  "ss_stop (at_block j f s) = ss_stop s" "ss_usage (at_block j f s) = ss_usage s"
  "ss_model (at_block j f s) = ss_model s"
  by (auto simp: at_block_def Let_def)

definition is_meta :: "stream_event \<Rightarrow> bool" where
  "is_meta e \<longleftrightarrow> se_type e \<in> {''message_start'', ''message_delta''}"

definition meta_of :: "stream_state \<Rightarrow> string \<times> usage \<times> string" where
  "meta_of s = (ss_stop s, ss_usage s, ss_model s)"

definition event_meta :: "stream_event \<Rightarrow> string \<times> usage \<times> string \<Rightarrow> string \<times> usage \<times> string" where
  "event_meta e t = (case t of (stop, u, m) \<Rightarrow>
     if se_type e = ''message_start'' then
       (case se_message e of None \<Rightarrow> t | Some msg \<Rightarrow> (stop, am_usage msg, pick (am_model msg) m))
     else (case se_delta e of None \<Rightarrow> stop | Some d \<Rightarrow> pick (sd_stop d) stop,
           case se_usage e of None \<Rightarrow> u | Some v \<Rightarrow> merge_usage u v, m))"

definition args_of :: "nat \<Rightarrow> delta list \<Rightarrow> (tool_use_id \<times> string \<times> string) list" where
  "args_of i ds = List.map_filter
     (\<lambda>d. case d of ToolArgsDelta j t n a \<Rightarrow> if j = int i then Some (t, n, a) else None | _ \<Rightarrow> None) ds"

definition event_args :: "stream_event \<Rightarrow> block_acc \<Rightarrow> (tool_use_id \<times> string \<times> string) list" where
  "event_args e a =
     filter (\<lambda>(t, n, x). \<not> (t = [] \<and> n = [] \<and> x = []))
     (if se_type e = ''content_block_start'' then
        (case se_block e of None \<Rightarrow> []
         | Some b \<Rightarrow> if ab_type b = ''tool_use'' then [(ab_id b, ab_name b, [])] else [])
      else (case se_delta e of None \<Rightarrow> []
         | Some d \<Rightarrow> if sd_type d = ''input_json_delta'' \<and> ba_kind a = ''tool_use'' then [([], [], sd_json d)] else []))"

lemma args_of_simps [simp]:
  "args_of i [] = []" "args_of i (xs @ ys) = args_of i xs @ args_of i ys"
  "args_of i [TextDelta t] = []" "args_of i [ReasoningDelta t] = []"
  "args_of i (emit_tool_args j t n a) =
     filter (\<lambda>(t, n, x). \<not> (t = [] \<and> n = [] \<and> x = [])) (if j = int i then [(t, n, a)] else [])"
  by (auto simp: args_of_def List.map_filter_def emit_tool_args_def)

lemma handle_event_ok:
  assumes "se_type e \<noteq> ''error''"
  obtains s' ds where "handle_event e s = Inr (s', ds)"
    "\<And>i. block_slot s' i = (if touches i e then Some (event_acc e (acc_or_blank (block_slot s i))) else block_slot s i)"
    "meta_of s' = (if is_meta e then event_meta e (meta_of s) else meta_of s)"
    "\<And>i. args_of i ds = (if touches i e then event_args e (acc_or_blank (block_slot s i)) else [])"
    "\<And>n. (\<And>i. touches i e \<Longrightarrow> i < n) \<Longrightarrow> length (ss_blocks s) \<le> n \<Longrightarrow> length (ss_blocks s') \<le> n"
proof -
  consider (start) "se_type e = ''content_block_start''" | (delta) "se_type e = ''content_block_delta''"
    | (other) "se_type e \<notin> {''content_block_start'', ''content_block_delta''}" by blast
  then show ?thesis
  proof cases
    case start
    let ?f = "case se_block e of None \<Rightarrow> id | Some b \<Rightarrow> start_acc b"
    obtain ds where h: "handle_event e s = Inr (at_block (se_index e) ?f s, ds)"
      "ds = (case se_block e of None \<Rightarrow> [] | Some b \<Rightarrow>
         if se_index e \<ge> 0 \<and> ab_type b = ''tool_use'' then emit_tool_args (se_index e) (ab_id b) (ab_name b) [] else [])"
      using start by (auto simp: handle_event_def split: option.splits)
    show ?thesis
    proof (rule that[OF h(1)])
      show "block_slot (at_block (se_index e) ?f s) i =
          (if touches i e then Some (event_acc e (acc_or_blank (block_slot s i))) else block_slot s i)" for i
        using start by (auto simp: at_block_slot touches_def event_acc_def split: option.splits)
      show "args_of i ds = (if touches i e then event_args e (acc_or_blank (block_slot s i)) else [])" for i
        using start h(2) by (auto simp: touches_def event_args_def split: option.splits)
      show "length (ss_blocks (at_block (se_index e) ?f s)) \<le> n"
        if "\<And>i. touches i e \<Longrightarrow> i < n" "length (ss_blocks s) \<le> n" for n
        using start that by (intro at_block_length) (auto simp: touches_def)
    qed (use start in \<open>auto simp: is_meta_def meta_of_def\<close>)
  next
    case delta
    let ?f = "case se_delta e of None \<Rightarrow> id | Some d \<Rightarrow> delta_acc d"
    obtain ds where h: "handle_event e s = Inr (at_block (se_index e) ?f s, ds)"
      "ds = (case se_delta e of None \<Rightarrow> [] | Some d \<Rightarrow> if se_index e < 0 then []
             else if sd_type d = ''text_delta'' then [TextDelta (sd_text d)]
             else if sd_type d = ''input_json_delta'' \<and> ba_kind (acc_at s (se_index e)) = ''tool_use''
               then emit_tool_args (se_index e) [] [] (sd_json d)
             else if sd_type d = ''thinking_delta'' then [ReasoningDelta (sd_thinking d)] else [])"
      using delta by (auto simp: handle_event_def split: option.splits)
    show ?thesis
    proof (rule that[OF h(1)])
      show "block_slot (at_block (se_index e) ?f s) i =
          (if touches i e then Some (event_acc e (acc_or_blank (block_slot s i))) else block_slot s i)" for i
        using delta by (auto simp: at_block_slot touches_def event_acc_def split: option.splits)
      show "args_of i ds = (if touches i e then event_args e (acc_or_blank (block_slot s i)) else [])" for i
        using delta h(2) by (auto simp: touches_def event_args_def acc_at_slot split: option.splits)
      show "length (ss_blocks (at_block (se_index e) ?f s)) \<le> n"
        if "\<And>i. touches i e \<Longrightarrow> i < n" "length (ss_blocks s) \<le> n" for n
        using delta that by (intro at_block_length) (auto simp: touches_def)
    qed (use delta in \<open>auto simp: is_meta_def meta_of_def\<close>)
  next
    case other
    let ?s = "if se_type e = ''message_start''
      then (case se_message e of None \<Rightarrow> s
            | Some m \<Rightarrow> s\<lparr>ss_model := pick (am_model m) (ss_model s), ss_usage := am_usage m\<rparr>)
      else if se_type e = ''message_delta''
      then s\<lparr>ss_stop := (case se_delta e of None \<Rightarrow> ss_stop s | Some d \<Rightarrow> pick (sd_stop d) (ss_stop s)),
             ss_usage := (case se_usage e of None \<Rightarrow> ss_usage s | Some u \<Rightarrow> merge_usage (ss_usage s) u)\<rparr>
      else s"
    have h: "handle_event e s = Inr (?s, [])" "ss_blocks ?s = ss_blocks s"
      "meta_of ?s = (if is_meta e then event_meta e (meta_of s) else meta_of s)"
      using other assms by (auto simp: handle_event_def is_meta_def meta_of_def event_meta_def split: option.splits)
    show ?thesis by (rule that[OF h(1)]) (use other h in \<open>auto simp: block_slot_def touches_def\<close>)
  qed
qed

abbreviation acc_step :: "block_acc option \<Rightarrow> stream_event \<Rightarrow> block_acc option" where
  "acc_step a e \<equiv> Some (event_acc e (acc_or_blank a))"

fun args_run :: "stream_event list \<Rightarrow> block_acc \<Rightarrow> (tool_use_id \<times> string \<times> string) list" where
  "args_run [] a = []"
| "args_run (e # es) a = event_args e a @ args_run es (event_acc e a)"

lemma handle_typed_ok:
  assumes "\<forall>e\<in>set es. se_type e \<noteq> ''error''"
  obtains s' ds where "handle_typed es s = Inr (s', ds)"
    "\<And>i. block_slot s' i = foldl acc_step (block_slot s i) (filter (touches i) es)"
    "meta_of s' = foldl (\<lambda>t e. event_meta e t) (meta_of s) (filter is_meta es)"
    "\<And>i. args_of i ds = args_run (filter (touches i) es) (acc_or_blank (block_slot s i))"
    "\<And>n. (\<And>e i. e \<in> set es \<Longrightarrow> touches i e \<Longrightarrow> i < n) \<Longrightarrow> length (ss_blocks s) \<le> n \<Longrightarrow>
       length (ss_blocks s') \<le> n"
  using assms
proof (induction es arbitrary: s thesis)
  case Nil
  show ?case by (rule Nil(1)[of s "[]"]) auto
next
  case (Cons e es)
  from Cons.prems(2) have "se_type e \<noteq> ''error''" by simp
  then obtain s1 d1 where h1: "handle_event e s = Inr (s1, d1)"
    "\<And>i. block_slot s1 i = (if touches i e then acc_step (block_slot s i) e else block_slot s i)"
    "meta_of s1 = (if is_meta e then event_meta e (meta_of s) else meta_of s)"
    "\<And>i. args_of i d1 = (if touches i e then event_args e (acc_or_blank (block_slot s i)) else [])"
    "\<And>n. (\<And>i. touches i e \<Longrightarrow> i < n) \<Longrightarrow> length (ss_blocks s) \<le> n \<Longrightarrow> length (ss_blocks s1) \<le> n"
    by (rule handle_event_ok[of e s]) blast
  have "\<forall>e\<in>set es. se_type e \<noteq> ''error''" using Cons.prems(2) by simp
  then obtain s2 d2 where h2: "handle_typed es s1 = Inr (s2, d2)"
    "\<And>i. block_slot s2 i = foldl acc_step (block_slot s1 i) (filter (touches i) es)"
    "meta_of s2 = foldl (\<lambda>t e. event_meta e t) (meta_of s1) (filter is_meta es)"
    "\<And>i. args_of i d2 = args_run (filter (touches i) es) (acc_or_blank (block_slot s1 i))"
    "\<And>n. (\<And>e i. e \<in> set es \<Longrightarrow> touches i e \<Longrightarrow> i < n) \<Longrightarrow> length (ss_blocks s1) \<le> n \<Longrightarrow>
       length (ss_blocks s2) \<le> n"
    by (rule Cons.IH[of s1, rotated]) blast
  show ?case
  proof (rule Cons.prems(1)[of s2 "d1 @ d2"])
    show "handle_typed (e # es) s = Inr (s2, d1 @ d2)" using h1(1) h2(1) by simp
    show "length (ss_blocks s2) \<le> n"
      if "\<And>e' i. e' \<in> set (e # es) \<Longrightarrow> touches i e' \<Longrightarrow> i < n" "length (ss_blocks s) \<le> n" for n
      using that by (intro h2(5) h1(5)) auto
  qed (simp_all add: h1(2-4) h2(2-4))
qed

section \<open>Streams of a message\<close>

text \<open>
  How the API streams a block: it is opened empty, its text comes in any pieces, and a thinking block
  ends with its signature.
\<close>

definition bare_event :: "string \<Rightarrow> int \<Rightarrow> stream_event" where
  "bare_event t i = \<lparr>se_type = t, se_index = i, se_message = None, se_block = None, se_delta = None,
     se_usage = None, se_error = None\<rparr>"

definition bare_delta :: "string \<Rightarrow> stream_delta" where
  "bare_delta t = \<lparr>sd_type = t, sd_text = [], sd_json = [], sd_thinking = [], sd_signature = [], sd_stop = []\<rparr>"

definition block_payload :: "api_block \<Rightarrow> string" where
  "block_payload b = (if ab_type b = ''text'' then ab_text b
     else if ab_type b = ''thinking'' then ab_thinking b else ab_input b)"

definition piece :: "api_block \<Rightarrow> string \<Rightarrow> stream_delta" where
  "piece b x = (if ab_type b = ''text'' then (bare_delta ''text_delta'')\<lparr>sd_text := x\<rparr>
     else if ab_type b = ''thinking'' then (bare_delta ''thinking_delta'')\<lparr>sd_thinking := x\<rparr>
     else (bare_delta ''input_json_delta'')\<lparr>sd_json := x\<rparr>)"

definition delta_event :: "nat \<Rightarrow> stream_delta \<Rightarrow> stream_event" where
  "delta_event i d = (bare_event ''content_block_delta'' (int i))\<lparr>se_delta := Some d\<rparr>"

definition block_stream :: "nat \<Rightarrow> api_block \<Rightarrow> string list \<Rightarrow> stream_event list" where
  "block_stream i b xs =
     (bare_event ''content_block_start'' (int i))\<lparr>se_block :=
        Some (b\<lparr>ab_text := [], ab_thinking := [], ab_signature := [], ab_input := empty_input\<rparr>)\<rparr> #
     map (\<lambda>x. delta_event i (piece b x)) xs @
     (if ab_type b = ''thinking''
      then [delta_event i ((bare_delta ''signature_delta'')\<lparr>sd_signature := ab_signature b\<rparr>)] else [])"

definition message_opening :: "api_message \<Rightarrow> int \<Rightarrow> stream_event" where
  "message_opening m k = (bare_event ''message_start'' 0)\<lparr>se_message := Some (m\<lparr>am_content := [], am_stop := [],
     am_usage := (am_usage m)\<lparr>u_output := k\<rparr>\<rparr>)\<rparr>"

definition message_closing :: "api_message \<Rightarrow> stream_event" where
  "message_closing m = (bare_event ''message_delta'' 0)\<lparr>se_delta := Some ((bare_delta [])\<lparr>sd_stop := am_stop m\<rparr>),
     se_usage := Some \<lparr>u_input = 0, u_output = u_output (am_usage m), u_cache_write = 0, u_cache_read = 0\<rparr>\<rparr>"

text \<open>
  A stream of a message: seen block by block the events are those of the block, and the totals come in
  its opening and its closing; keep-alives, unknown events and events that cannot be decoded are anywhere.
\<close>

definition streams_message :: "sse_event list \<Rightarrow> api_message \<Rightarrow> string list list \<Rightarrow> bool" where
  "streams_message evs m xss \<longleftrightarrow>
     (\<forall>e\<in>set (typed_events evs). se_type e \<noteq> ''error'' \<and> (\<forall>i. touches i e \<longrightarrow> i < length (am_content m))) \<and>
     (\<exists>k. filter is_meta (typed_events evs) = [message_opening m k, message_closing m]) \<and>
     (\<forall>i<length (am_content m). concat (xss ! i) = block_payload (am_content m ! i) \<and>
        filter (touches i) (typed_events evs) = block_stream i (am_content m ! i) (xss ! i))"

text \<open>Blocks that survive both ways: known, no empty text, and a call with a name and a JSON input.\<close>

definition plain_block :: "api_block \<Rightarrow> bool" where
  "plain_block b \<longleftrightarrow>
     ab_type b = ''text'' \<and> scrub (ab_text b) \<noteq> [] \<or> ab_type b = ''thinking'' \<or>
     ab_type b = ''tool_use'' \<and> ab_input b \<noteq> [] \<and> json_valid (scrub (ab_input b)) \<and> ab_name b \<noteq> []"

definition spelled :: "api_block \<Rightarrow> string \<Rightarrow> block_acc \<Rightarrow> bool" where
  "spelled b x a \<longleftrightarrow> ba_kind a = ab_type b \<and>
     (ab_type b = ''text'' \<longrightarrow> ba_text a = x) \<and> (ab_type b = ''thinking'' \<longrightarrow> ba_thinking a = x \<and> ba_signature a = []) \<and>
     (ab_type b = ''tool_use'' \<longrightarrow> ba_input a = x \<and> ba_id a = ab_id b \<and> ba_name a = ab_name b)"

lemma spelled_pieces:
  assumes "spelled b x a" and "ab_type b \<in> {''text'', ''thinking'', ''tool_use''}"
  shows "\<exists>a'. foldl acc_step (Some a) (map (\<lambda>y. delta_event i (piece b y)) ys) = Some a' \<and> spelled b (x @ concat ys) a' \<and>
    args_run (map (\<lambda>y. delta_event i (piece b y)) ys) a =
      (if ab_type b = ''tool_use'' then map (\<lambda>y. ([], [], y)) (filter (\<lambda>y. y \<noteq> []) ys) else [])"
  using assms(1)
proof (induction ys arbitrary: x a)
  case (Cons y ys)
  let ?a = "event_acc (delta_event i (piece b y)) a"
  have "spelled b (x @ y) ?a"
    using Cons.prems assms(2)
    by (auto simp: spelled_def event_acc_def delta_event_def piece_def bare_event_def bare_delta_def delta_acc_def)
  from Cons.IH[OF this] obtain a' where
    a: "foldl acc_step (Some ?a) (map (\<lambda>y. delta_event i (piece b y)) ys) = Some a'" "spelled b (x @ y @ concat ys) a'"
    "args_run (map (\<lambda>y. delta_event i (piece b y)) ys) ?a =
      (if ab_type b = ''tool_use'' then map (\<lambda>y. ([], [], y)) (filter (\<lambda>y. y \<noteq> []) ys) else [])" by auto
  moreover have "event_args (delta_event i (piece b y)) a =
      (if ab_type b = ''tool_use'' \<and> y \<noteq> [] then [([], [], y)] else [])"
    using Cons.prems assms(2)
    by (auto simp: spelled_def event_args_def delta_event_def piece_def bare_event_def bare_delta_def)
  ultimately show ?case by auto
qed simp

lemma args_run_append:
  "args_run (xs @ ys) a = args_run xs a @ args_run ys (acc_or_blank (foldl acc_step (Some a) xs))"
  by (induction xs arbitrary: a) auto

lemma block_stream_acc:
  assumes "plain_block b" and "concat xs = block_payload b"
  shows "\<exists>a. foldl acc_step None (block_stream i b xs) = Some a \<and> acc_block a = to_block b \<and>
    args_run (block_stream i b xs) blank_acc =
      (if ab_type b = ''tool_use''
       then (ab_id b, ab_name b, []) # map (\<lambda>y. ([], [], y)) (filter (\<lambda>y. y \<noteq> []) xs) else [])"
proof -
  let ?e = "(bare_event ''content_block_start'' (int i))\<lparr>se_block :=
    Some (b\<lparr>ab_text := [], ab_thinking := [], ab_signature := [], ab_input := empty_input\<rparr>)\<rparr>"
  let ?a = "event_acc ?e blank_acc"
  let ?tail = "if ab_type b = ''thinking''
      then [delta_event i ((bare_delta ''signature_delta'')\<lparr>sd_signature := ab_signature b\<rparr>)] else []"
  have ty: "ab_type b \<in> {''text'', ''thinking'', ''tool_use''}" using assms(1) by (auto simp: plain_block_def)
  have "spelled b [] ?a"
    using ty by (auto simp: spelled_def event_acc_def bare_event_def start_acc_def blank_acc_def)
  from spelled_pieces[OF this ty, of i xs] obtain a where
    a: "foldl acc_step (Some ?a) (map (\<lambda>y. delta_event i (piece b y)) xs) = Some a" "spelled b (block_payload b) a"
    "args_run (map (\<lambda>y. delta_event i (piece b y)) xs) ?a =
      (if ab_type b = ''tool_use'' then map (\<lambda>y. ([], [], y)) (filter (\<lambda>y. y \<noteq> []) xs) else [])"
    using assms(2) by auto
  let ?b = "acc_or_blank (foldl acc_step (Some a) ?tail)"
  have "foldl acc_step None (block_stream i b xs) = Some ?b"
    using a(1) by (simp add: block_stream_def)
  moreover have "acc_block ?b = to_block b"
    using assms(1) a(2)
    by (auto simp: plain_block_def spelled_def block_payload_def acc_block_def to_block_def tool_input_def
        scrub_raw_def event_acc_def delta_event_def bare_event_def bare_delta_def delta_acc_def Let_def)
  moreover have "args_run ?tail a = []"
    by (simp add: event_args_def delta_event_def bare_event_def bare_delta_def)
  moreover have "event_args ?e blank_acc = (if ab_type b = ''tool_use'' then [(ab_id b, ab_name b, [])] else [])"
    using assms(1) by (auto simp: event_args_def bare_event_def plain_block_def)
  ultimately show ?thesis
    using a(1,3) by (intro exI[of _ ?b]) (simp add: block_stream_def args_run_append)
qed

lemma streamed_state:
  assumes "streams_message evs m xss" and "\<forall>b\<in>set (am_content m). plain_block b"
    and "u_output (am_usage m) > 0"
  shows "\<exists>s ds. handle_events evs (stream_start model) = Inr (s, ds) \<and> stream_response s = message_response model m \<and>
    (\<forall>i<length (am_content m). ab_type (am_content m ! i) = ''tool_use'' \<longrightarrow>
       args_of i ds = (ab_id (am_content m ! i), ab_name (am_content m ! i), []) #
         map (\<lambda>y. ([], [], y)) (filter (\<lambda>y. y \<noteq> []) (xss ! i)))"
proof -
  let ?es = "typed_events evs" and ?bs = "am_content m" and ?s0 = "stream_start model"
  have "\<forall>e\<in>set ?es. se_type e \<noteq> ''error''" using assms(1) by (simp add: streams_message_def)
  then obtain s ds where h: "handle_typed ?es ?s0 = Inr (s, ds)"
    "\<And>i. block_slot s i = foldl acc_step (block_slot ?s0 i) (filter (touches i) ?es)"
    "meta_of s = foldl (\<lambda>t e. event_meta e t) (meta_of ?s0) (filter is_meta ?es)"
    "\<And>i. args_of i ds = args_run (filter (touches i) ?es) (acc_or_blank (block_slot ?s0 i))"
    "\<And>n. (\<And>e i. e \<in> set ?es \<Longrightarrow> touches i e \<Longrightarrow> i < n) \<Longrightarrow> length (ss_blocks ?s0) \<le> n \<Longrightarrow> length (ss_blocks s) \<le> n"
    using handle_typed_ok[of ?es ?s0] by blast
  have empty: "block_slot ?s0 i = None" for i by (simp add: block_slot_def stream_start_def)
  have blk: "\<exists>a. block_slot s i = Some a \<and> acc_block a = to_block (?bs ! i) \<and>
      args_of i ds = (if ab_type (?bs ! i) = ''tool_use''
        then (ab_id (?bs ! i), ab_name (?bs ! i), []) # map (\<lambda>y. ([], [], y)) (filter (\<lambda>y. y \<noteq> []) (xss ! i)) else [])"
    if "i < length ?bs" for i
    using block_stream_acc[of "?bs ! i" "xss ! i" i] assms(1,2) that h(2,4)[of i] empty
    by (simp add: streams_message_def)
  have "length (ss_blocks s) \<le> length ?bs"
    using assms(1) by (intro h(5)) (auto simp: streams_message_def stream_start_def)
  moreover have "i < length (ss_blocks s)" if "i < length ?bs" for i
    using blk[OF that] by (auto simp: block_slot_def split: if_splits)
  ultimately have len: "length (ss_blocks s) = length ?bs" by (meson leI le_antisym less_irrefl)
  have "Option.bind (ss_blocks s ! i) acc_block = to_block (?bs ! i)" if "i < length ?bs" for i
    using blk[OF that] that len by (auto simp: block_slot_def)
  then have "map (\<lambda>b. Option.bind b acc_block) (ss_blocks s) = map to_block ?bs"
    using len by (intro nth_equalityI) auto
  then have "List.map_filter (\<lambda>b. Option.bind b acc_block) (ss_blocks s) = decode_blocks ?bs"
    by (simp add: decode_blocks_def map_filter_map)
  moreover obtain k where "filter is_meta ?es = [message_opening m k, message_closing m]"
    using assms(1) by (auto simp: streams_message_def)
  then have "meta_of s = (am_stop m, am_usage m, pick (am_model m) model)"
    using h(3) assms(3) by (auto simp: meta_of_def event_meta_def message_opening_def message_closing_def
        bare_event_def bare_delta_def stream_start_def merge_usage_def pick_def)
  ultimately have "stream_response s = message_response model m"
    by (simp add: stream_response_def message_response_def meta_of_def)
  moreover have "args_of i ds = (ab_id (?bs ! i), ab_name (?bs ! i), []) #
      map (\<lambda>y. ([], [], y)) (filter (\<lambda>y. y \<noteq> []) (xss ! i))"
    if "i < length ?bs" "ab_type (?bs ! i) = ''tool_use''" for i
    using blk[OF that(1)] that(2) by auto
  ultimately show ?thesis using h(1) by (auto simp: handle_events_typed)
qed

section \<open>Properties\<close>


definition hello_message :: api_message where
  "hello_message = \<lparr>am_model = ''m'', am_content = [\<lparr>ab_type = ''tool_use'', ab_text = [], ab_thinking = [], ab_signature = [],
     ab_id = ''a'', ab_name = ''f'', ab_input = ''{}''\<rparr>], am_stop = ''tool_use'',
     am_usage = \<lparr>u_input = 1, u_output = 2, u_cache_write = 0, u_cache_read = 0\<rparr>\<rparr>"

definition json_obj :: "(string \<times> string) list \<Rightarrow> (string \<times> json) list \<Rightarrow> json" where
  "json_obj ss js = JObj (map (\<lambda>(k, s). (k, JStr s)) ss @ js)"

definition hello_events :: "json list" where
  "hello_events =
    [json_obj [(''type'', ''message_start'')] [(''message'', json_obj [(''model'', ''m'')] [(''usage'', JObj [(''input_tokens'', JNum ''1'')])])],
     json_obj [(''type'', ''content_block_start'')] [(''index'', JNum ''0''),
       (''content_block'', json_obj [(''type'', ''tool_use''), (''id'', ''a''), (''name'', ''f'')] [(''input'', JObj [])])],
     json_obj [(''type'', ''content_block_delta'')] [(''index'', JNum ''0''),
       (''delta'', json_obj [(''type'', ''input_json_delta''), (''partial_json'', ''{'')] [])],
     json_obj [(''type'', ''ping'')] [],
     json_obj [(''type'', ''content_block_delta'')] [(''index'', JNum ''0''),
       (''delta'', json_obj [(''type'', ''input_json_delta''), (''partial_json'', ''}'')] [])],
     json_obj [(''type'', ''message_delta'')] [(''delta'', json_obj [(''stop_reason'', ''tool_use'')] []), (''usage'', JObj [(''output_tokens'', JNum ''2'')])]]"

definition hello_writes :: "stream_write list" where
  "hello_writes = map (\<lambda>j. SendFrame 0 [] (Some (json_render j))) hello_events"

definition hello_body :: string where
  "hello_body = json_render (json_obj [(''model'', ''m''), (''stop_reason'', ''tool_use'')] [(''content'', JArr
     [json_obj [(''type'', ''tool_use''), (''id'', ''a''), (''name'', ''f'')] [(''input'', JObj [])]]),
     (''usage'', JObj [(''input_tokens'', JNum ''1''), (''output_tokens'', JNum ''2'')])])"

lemma hello_decoded: "Option.bind (first_value hello_body) (struct_of api_message_of_fields) = Some hello_message"
  by code_simp

lemma hello_fits: "list_all write_ok hello_writes"
proof -
  have "list_all (\<lambda>j. length (json_render j) < 200 \<and> NL \<notin> set (json_render j) \<and> CR \<notin> set (json_render j)) hello_events"
    by code_simp
  moreover have "char_of (48 :: nat) = CHR ''0''" by code_simp
  ultimately show ?thesis
    by (auto simp: hello_writes_def list_all_iff write_ok_def frame_lines_def line_ok_def max_line_def itoa.simps)
qed

lemma hello_read: "concat (map event_of hello_writes) = map (\<lambda>j. \<lparr>ev_type = [], ev_data = json_render j\<rparr>) hello_events"
proof -
  have "concat (map event_of (map (\<lambda>j. SendFrame 0 [] (Some (json_render j))) js)) =
    map (\<lambda>j. \<lparr>ev_type = [], ev_data = json_render j\<rparr>) js" for js by (induction js) simp_all
  then show ?thesis by (simp only: hello_writes_def)
qed

lemma decode_rendered: "json_ok j \<Longrightarrow> decode_event \<lparr>ev_type = [], ev_data = json_render j\<rparr> = struct_of stream_event_of_fields j"
proof -
  have "(\<lambda>e :: stream_event. if se_type e = [] then e\<lparr>se_type := ev_type \<lparr>ev_type = [], ev_data = d\<rparr>\<rparr> else e) = (\<lambda>e. e)" for d
  proof
    show "(if se_type e = [] then e\<lparr>se_type := ev_type \<lparr>ev_type = [], ev_data = d\<rparr>\<rparr> else e) = e" for e :: stream_event
      by (cases e) simp
  qed
  then show "json_ok j \<Longrightarrow> decode_event \<lparr>ev_type = [], ev_data = json_render j\<rparr> = struct_of stream_event_of_fields j"
    by (simp add: decode_event_def json_parse_render option.map_ident)
qed

lemma lower_anth_keys [simp]:
  "to_lower ''index'' = ''index''" "to_lower ''message'' = ''message''" "to_lower ''content_block'' = ''content_block''"
  "to_lower ''delta'' = ''delta''" "to_lower ''error'' = ''error''" "to_lower ''thinking'' = ''thinking''"
  "to_lower ''partial_json'' = ''partial_json''"
  by (simp_all add: to_lower_def to_lower_char_def)

lemma hello_typed: "List.map_filter (struct_of stream_event_of_fields) hello_events =
   [message_opening hello_message 0] @ take 2 (block_stream 0 (hd (am_content hello_message)) [''{'', ''}'']) @
   [bare_event ''ping'' 0] @ drop 2 (block_stream 0 (hd (am_content hello_message)) [''{'', ''}'']) @
   [message_closing hello_message]"
  by (simp add: hello_events_def List.map_filter_simps json_obj_def struct_of_def stream_event_of_fields_def json_field_simps
     field_str_def field_int_def pointer_of_def small_ints api_message_of_fields_def api_block_of_fields_def api_error_of_fields_def
    stream_delta_of_fields_def usage_of_json_def array_of_def field_raw_def
    message_opening_def message_closing_def bare_event_def bare_delta_def block_stream_def hello_message_def delta_event_def piece_def empty_input_def)

lemma hello_ok: "list_all json_ok hello_events" by code_simp

lemma render_nonempty: "json_ok j \<Longrightarrow> json_render j \<noteq> []" using render_hd[of j] by auto

lemma typed_rendered: "list_all json_ok js \<Longrightarrow> typed_events (map (\<lambda>j. \<lparr>ev_type = [], ev_data = json_render j\<rparr>) js) =
  List.map_filter (struct_of stream_event_of_fields) js"
  by (induction js) (auto simp: typed_events_def List.map_filter_simps decode_rendered render_nonempty split: option.splits)


end
