(* ===== verification/Openai.thy ===== *)
theory Openai
  imports Wire
begin

text \<open>
  The OpenAI-compatible client (\<^verbatim>\<open>llm/openai/\<close>): configuration and the call (\<^verbatim>\<open>client.go\<close>), the
  chat-completions body (\<^verbatim>\<open>request.go\<close>), the buffered reply (\<^verbatim>\<open>response.go\<close>) and the assembly of a
  streamed one (\<^verbatim>\<open>stream.go\<close>). A body is a JSON value; the bytes an HTTP exchange brings are an
  argument. Transports and timeouts are not modelled.
\<close>

section \<open>Configuration\<close>

record oai_config =
  oc_key :: string
  oc_base :: string
  oc_model :: string
  oc_max_tokens :: int
  oc_temperature :: "real option"
  oc_top_p :: "real option"
  oc_own_client :: bool
  oc_proxy :: string
  oc_stream :: stream_mode
  oc_extra :: "(string \<times> string) list"

definition first_set :: "(string \<Rightarrow> string) \<Rightarrow> string list \<Rightarrow> string" where
  "first_set env ns = (case filter (\<lambda>v. v \<noteq> []) (map env ns) of v # _ \<Rightarrow> v | [] \<Rightarrow> [])"

definition plain_header_line :: "string \<Rightarrow> (string \<times> string) list \<Rightarrow> (string \<times> string) list" where
  "plain_header_line l out =
     (let l = trim_space l; name = trim_space (takeWhile (\<lambda>c. c \<noteq> CHR '':'') l) in
      if l = [] \<or> CHR '':'' \<notin> set l \<or> name = [] then out
      else AList.update name (trim_space (tl (dropWhile (\<lambda>c. c \<noteq> CHR '':'') l))) out)"

definition parse_headers :: "string \<Rightarrow> (string \<times> string) list" where
  "parse_headers s = fold plain_header_line (split_on CHR 0x0A s) []"

definition oai_config_from_env :: "(string \<Rightarrow> real option) \<Rightarrow> (string \<Rightarrow> string) \<Rightarrow> oai_config" where
  "oai_config_from_env pf env =
     \<lparr>oc_key = env ''OPENAI_API_KEY'', oc_base = env ''OPENAI_BASE_URL'',
      oc_model = first_set env [''OPENAI_MODEL'', ''WOMBAT_MODEL''], oc_max_tokens = 0,
      oc_temperature = env_float pf env ''OPENAI_TEMPERATURE'', oc_top_p = env_float pf env ''OPENAI_TOP_P'',
      oc_own_client = False, oc_proxy = env ''OPENAI_PROXY'',
      oc_stream = parse_stream_mode (env ''OPENAI_STREAM''),
      oc_extra = parse_headers (first_set env [''OPENAI_EXTRA_HEADERS'', ''OPENAI_CUSTOM_HEADERS''])\<rparr>"

record oai_client =
  ol_endpoint :: string
  ol_key :: string
  ol_model :: string
  ol_max_tokens :: int
  ol_transport :: transport
  ol_stream :: stream_mode
  ol_extra :: "(string \<times> string) list"
  ol_temperature :: "real option"
  ol_top_p :: "real option"

definition oai_validate_sampling :: "real option \<Rightarrow> real option \<Rightarrow> err option" where
  "oai_validate_sampling temperature top_p =
     (if (case temperature of Some t \<Rightarrow> \<not> (0 \<le> t \<and> t \<le> 2) | None \<Rightarrow> False)
        then Some (Sentinel ''openai: Temperature is outside [0, 2]'')
      else if (case top_p of Some p \<Rightarrow> \<not> (0 \<le> p \<and> p \<le> 1) | None \<Rightarrow> False)
        then Some (Sentinel ''openai: TopP is outside [0, 1]'')
      else None)"

definition parse_proxy :: "url_parser \<Rightarrow> string \<Rightarrow> err + string option" where
  "parse_proxy parse raw =
     (let s = trim_space raw in
      if s = [] then Inr None
      else (let s = (if contains_sub s ''://'' then s else ''http://'' @ s) in
        case parse s of
          Inl e \<Rightarrow> Inl (Wrapf ''openai: bad proxy'' [e])
        | Inr (scheme, host, name) \<Rightarrow>
            if scheme \<notin> {''http'', ''https'', ''socks5'', ''socks5h''}
              then Inl (Sentinel ''openai: proxy has unsupported scheme'')
            else if host = [] then Inl (Sentinel ''openai: proxy has no host'')
            else Inr (Some s)))"

text \<open>
  A base URL without a path gets \<^verbatim>\<open>/v1\<close>; \<open>path\<close> is the path \<^verbatim>\<open>url.Parse\<close> finds and
  \<open>with_v1\<close> the text of the URL with that path put in.
\<close>

definition oai_new ::
  "url_parser \<Rightarrow> (string \<Rightarrow> string) \<Rightarrow> (string \<Rightarrow> string) \<Rightarrow> (string \<Rightarrow> string) \<Rightarrow> oai_config \<Rightarrow> err + oai_client" where
  "oai_new parse path with_v1 env cfg =
     (let base = (if oc_base cfg = [] then ''https://api.openai.com/v1'' else oc_base cfg) in
      case parse base of
        Inl e \<Rightarrow> Inl (Wrapf ''openai: bad base URL'' [e])
      | Inr (scheme, host, _) \<Rightarrow>
          if scheme \<noteq> ''http'' \<and> scheme \<noteq> ''https'' then Inl (Sentinel ''openai: base URL must be http or https'')
          else if host = [] then Inl (Sentinel ''openai: base URL has no host'')
          else
            (let base = (if trim_by (\<lambda>c. c = CHR ''/'') (path base) = [] then with_v1 base else base) in
             if oc_max_tokens cfg < 0 then Inl (Sentinel ''openai: MaxTokens must not be negative'')
             else case oai_validate_sampling (oc_temperature cfg) (oc_top_p cfg) of
               Some e \<Rightarrow> Inl e
             | None \<Rightarrow>
                 (case parse_proxy parse (oc_proxy cfg) of
                    Inl e \<Rightarrow> Inl e
                  | Inr p \<Rightarrow> Inr
                      \<lparr>ol_endpoint = (if has_suffix base ''/'' then butlast base else base) @ ''/chat/completions'',
                       ol_key = (if oc_key cfg = [] then env ''OPENAI_API_KEY'' else oc_key cfg),
                       ol_model = (if oc_model cfg = [] then ''gpt-4o'' else oc_model cfg),
                       ol_max_tokens = (if oc_max_tokens cfg = 0 then 8192 else oc_max_tokens cfg),
                       ol_transport = (if oc_own_client cfg then OwnClient
                         else case p of Some u \<Rightarrow> Proxied u | None \<Rightarrow> ProxyFromEnv),
                       ol_stream = oc_stream cfg, ol_extra = oc_extra cfg,
                       ol_temperature = oc_temperature cfg, ol_top_p = oc_top_p cfg\<rparr>)))"

section \<open>The request body\<close>

record oai_call =
  oa_id :: tool_use_id
  oa_name :: string
  oa_args :: string

record oai_message =
  om_role :: string
  om_content :: "string option"
  om_call_id :: tool_use_id
  om_calls :: "oai_call list"

definition chat_message :: "string \<Rightarrow> string option \<Rightarrow> oai_message" where
  "chat_message r c = \<lparr>om_role = r, om_content = c, om_call_id = [], om_calls = []\<rparr>"

text \<open>A newline joins a text to what is there already.\<close>

definition add_line :: "string option \<Rightarrow> string \<Rightarrow> string option" where
  "add_line t s = Some (case t of None \<Rightarrow> s | Some l \<Rightarrow> l @ CHR 0x0A # s)"

fun assistant_block :: "oai_message \<Rightarrow> block \<Rightarrow> oai_message" where
  "assistant_block m (Text s) = m\<lparr>om_content := add_line (om_content m) s\<rparr>"
| "assistant_block m (ToolUse u) = m\<lparr>om_calls := om_calls m @
     [\<lparr>oa_id = tu_id u, oa_name = tu_name u, oa_args = (if tu_input u = [] then ''{}'' else tu_input u)\<rparr>]\<rparr>"
| "assistant_block m _ = m"

definition encode_assistant :: "block list \<Rightarrow> oai_message" where
  "encode_assistant bs = foldl assistant_block (chat_message ''assistant'' None) bs"

fun user_block :: "string option \<times> oai_message list \<Rightarrow> block \<Rightarrow> string option \<times> oai_message list" where
  "user_block (leading, tools) (Text s) =
     (if tools = [] then (add_line leading s, tools)
      else (leading, butlast tools @ [(last tools)\<lparr>om_content := add_line (om_content (last tools)) s\<rparr>]))"
| "user_block (leading, tools) (ToolResult r) =
     (leading, tools @ [(chat_message ''tool'' (Some (tr_content r)))\<lparr>om_call_id := tr_id r\<rparr>])"
| "user_block st _ = st"

definition encode_user :: "block list \<Rightarrow> oai_message list" where
  "encode_user bs = (case foldl user_block (None, []) bs of (leading, tools) \<Rightarrow>
     (case leading of None \<Rightarrow> [] | Some t \<Rightarrow> [chat_message ''user'' (Some t)]) @ tools)"

definition oai_encode_messages :: "string \<Rightarrow> convo \<Rightarrow> oai_message list" where
  "oai_encode_messages system c =
     (if system = [] then [] else [chat_message ''system'' (Some system)]) @
     concat (map (\<lambda>m. if msg_role m = RoleAssistant then [encode_assistant (msg_content m)]
                      else encode_user (msg_content m)) c)"

definition oai_sampling :: "oai_client \<Rightarrow> request \<Rightarrow> real option \<times> real option" where
  "oai_sampling c req =
     (case rq_temperature req of None \<Rightarrow> ol_temperature c | t \<Rightarrow> t,
      case rq_top_p req of None \<Rightarrow> ol_top_p c | p \<Rightarrow> p)"

text \<open>The choice of a tool needs a name; the automatic mode is left out.\<close>

definition encode_tool_choice :: "tool_choice \<Rightarrow> err + json option" where
  "encode_tool_choice tc = (case tc_mode tc of
     ChoiceAuto \<Rightarrow> Inr None
   | ChoiceAny \<Rightarrow> Inr (Some (JStr ''required''))
   | ChoiceNone \<Rightarrow> Inr (Some (JStr ''none''))
   | ChoiceTool \<Rightarrow>
       if tc_name tc = [] then Inl (ApiErr ErrBadRequest 0 ''openai: tool choice mode tool needs a name'' 0 None)
       else Inr (Some (JObj [(''type'', JStr ''function''), (''function'', JObj [(''name'', JStr (tc_name tc))])])))"

definition call_json :: "oai_call \<Rightarrow> json" where
  "call_json u = JObj [(''id'', JStr (oa_id u)), (''type'', JStr ''function''),
     (''function'', JObj [(''name'', JStr (oa_name u)), (''arguments'', JStr (oa_args u))])]"

definition oai_message_json :: "oai_message \<Rightarrow> json" where
  "oai_message_json m = JObj
     ([(''role'', JStr (om_role m)), (''content'', case om_content m of None \<Rightarrow> JNull | Some s \<Rightarrow> JStr s)] @
      str_field ''tool_call_id'' (om_call_id m) @
      (if om_calls m = [] then [] else [(''tool_calls'', JArr (map call_json (om_calls m)))]))"

definition oai_tool_json :: "tool_spec \<Rightarrow> json option" where
  "oai_tool_json t =
     map_option (\<lambda>v. JObj [(''type'', JStr ''function''), (''function'', JObj
         [(''name'', JStr (ts_name t)), (''description'', JStr (ts_description t)), (''parameters'', v)])])
       (if ts_schema t = [] then Some (JObj [(''type'', JStr ''object''), (''properties'', JObj [])])
        else json_parse (ts_schema t))"

definition oai_encode_request ::
  "(real \<Rightarrow> string) \<Rightarrow> request \<Rightarrow> string \<Rightarrow> int \<Rightarrow> bool \<Rightarrow> err + json" where
  "oai_encode_request ftext req model max_tokens stream =
     (let msgs = oai_encode_messages (rq_system req) (rq_messages req) in
      if msgs = [] then Inl (ApiErr ErrBadRequest 0 ''openai: request has no messages'' 0 None)
      else case encode_tool_choice (rq_choice req) of
        Inl e \<Rightarrow> Inl e
      | Inr choice \<Rightarrow>
          (case all_some (map oai_tool_json (rq_tools req)) of
             None \<Rightarrow> Inl (Wrapf ''openai: encode request'' [])
           | Some ts \<Rightarrow> Inr (JObj
               ([(''model'', JStr model), (''messages'', JArr (map oai_message_json msgs))] @
                (if max_tokens = 0 then [] else [(''max_tokens'', JNum (int_text max_tokens))]) @
                (case rq_temperature req of None \<Rightarrow> [] | Some t \<Rightarrow> [(''temperature'', JNum (ftext t))]) @
                (case rq_top_p req of None \<Rightarrow> [] | Some p \<Rightarrow> [(''top_p'', JNum (ftext p))]) @
                (if ts = [] then [] else [(''tools'', JArr ts)]) @
                (case choice of None \<Rightarrow> [] | Some v \<Rightarrow> [(''tool_choice'', v)]) @
                (if stream then [(''stream'', JBool True),
                   (''stream_options'', JObj [(''include_usage'', JBool True)])] else [])))))"

section \<open>Replies\<close>

record oai_usage =
  ou_prompt :: int
  ou_completion :: int
  ou_cache_hit :: int
  ou_cached :: "int option"
  ou_reasoning :: "int option"

definition oai_usage_of_fields :: "(string \<times> json) list \<Rightarrow> oai_usage option" where
  "oai_usage_of_fields kvs =
     (case (field_int ''prompt_tokens'' kvs, field_int ''completion_tokens'' kvs, field_int ''prompt_cache_hit_tokens'' kvs,
            pointer_of (field_int ''cached_tokens'') ''prompt_tokens_details'' kvs,
            pointer_of (field_int ''reasoning_tokens'') ''completion_tokens_details'' kvs) of
        (Some p, Some c, Some h, Some d, Some r) \<Rightarrow>
          Some \<lparr>ou_prompt = p, ou_completion = c, ou_cache_hit = h, ou_cached = d, ou_reasoning = r\<rparr>
      | _ \<Rightarrow> None)"

definition to_usage :: "oai_usage option \<Rightarrow> usage" where
  "to_usage u = (case u of
     None \<Rightarrow> \<lparr>u_input = 0, u_output = 0, u_cache_write = 0, u_cache_read = 0\<rparr>
   | Some u \<Rightarrow>
       (let cached = ou_cache_hit u;
            cached = (if cached = 0 then (case ou_cached u of Some d \<Rightarrow> d | None \<Rightarrow> cached) else cached);
            inp = ou_prompt u - cached
        in \<lparr>u_input = (if inp < 0 then 0 else inp), u_output = ou_completion u, u_cache_write = 0,
            u_cache_read = cached\<rparr>))"

text \<open>A content field: a string, null, or an array of typed parts; anything else has no text.\<close>

definition content_text :: "json \<Rightarrow> string option" where
  "content_text j = (case j of
     JStr s \<Rightarrow> Some s
   | JArr vs \<Rightarrow>
       map_option (foldl (\<lambda>sb t. if t = [] then sb else if sb = [] then t else sb @ CHR 0x0A # t) [])
         (all_some (map (struct_of (field_str ''text'')) vs))
   | _ \<Rightarrow> Some [])"

definition arg_string :: "json \<Rightarrow> string" where
  "arg_string j = (case j of JNull \<Rightarrow> [] | JStr s \<Rightarrow> s | _ \<Rightarrow> json_render j)"

text \<open>A struct field by value, and one with a decoder of its own: null reaches the decoder.\<close>

definition value_of :: "((string \<times> json) list \<Rightarrow> 'a option) \<Rightarrow> string \<Rightarrow> (string \<times> json) list \<Rightarrow> 'a option" where
  "value_of f k kvs = struct_of f (case json_field k kvs of Some v \<Rightarrow> v | None \<Rightarrow> JNull)"

definition field_content :: "string \<Rightarrow> (string \<times> json) list \<Rightarrow> string option" where
  "field_content k kvs = (case json_field k kvs of None \<Rightarrow> Some [] | Some v \<Rightarrow> content_text v)"

definition field_args :: "string \<Rightarrow> (string \<times> json) list \<Rightarrow> string" where
  "field_args k kvs = (case json_field k kvs of None \<Rightarrow> [] | Some v \<Rightarrow> arg_string v)"

text \<open>
  A call, whole or as a fragment; \<open>rc_index\<close> is only read from a stream. A choice, with the message of a
  buffered reply or the delta of a chunk.
\<close>

record reply_call =
  rc_index :: "int option"
  rc_id :: tool_use_id
  rc_name :: string
  rc_args :: string

record choice =
  ch_content :: string
  ch_reasoning :: string
  ch_calls :: "reply_call list"
  ch_finish :: string

record reply =
  rp_model :: string
  rp_choices :: "choice list"
  rp_usage :: "oai_usage option"
  rp_error :: "(string \<times> string) option"

definition field_index :: "(string \<times> json) list \<Rightarrow> int option option" where
  "field_index kvs = (case json_field ''index'' kvs of
     None \<Rightarrow> Some None | Some JNull \<Rightarrow> Some None | Some (JNum t) \<Rightarrow> map_option Some (int_of_text t) | _ \<Rightarrow> None)"

definition call_of_fields :: "bool \<Rightarrow> (string \<times> json) list \<Rightarrow> reply_call option" where
  "call_of_fields streamed kvs =
     (case (if streamed then field_index kvs else Some None, field_str ''id'' kvs,
            value_of (\<lambda>f. map_option (\<lambda>n. (n, field_args ''arguments'' f)) (field_str ''name'' f)) ''function'' kvs) of
        (Some i, Some t, Some (n, a)) \<Rightarrow> Some \<lparr>rc_index = i, rc_id = t, rc_name = n, rc_args = a\<rparr>
      | _ \<Rightarrow> None)"

definition choice_of_fields :: "bool \<Rightarrow> (string \<times> json) list \<Rightarrow> choice option" where
  "choice_of_fields streamed kvs =
     (case (value_of (\<lambda>f. case (field_content ''content'' f, field_content ''reasoning_content'' f,
                array_of (struct_of (call_of_fields streamed)) ''tool_calls'' f) of
              (Some c, Some r, Some cs) \<Rightarrow> Some (c, r, cs) | _ \<Rightarrow> None)
            (if streamed then ''delta'' else ''message'') kvs, field_str ''finish_reason'' kvs) of
        (Some (c, r, cs), Some fin) \<Rightarrow> Some \<lparr>ch_content = c, ch_reasoning = r, ch_calls = cs, ch_finish = fin\<rparr>
      | _ \<Rightarrow> None)"

definition reply_of_fields :: "bool \<Rightarrow> (string \<times> json) list \<Rightarrow> reply option" where
  "reply_of_fields streamed kvs =
     (case (field_str ''model'' kvs, array_of (struct_of (choice_of_fields streamed)) ''choices'' kvs,
            pointer_of oai_usage_of_fields ''usage'' kvs,
            pointer_of (\<lambda>f. case (field_str ''message'' f, field_str ''type'' f) of
                (Some m, Some t) \<Rightarrow> Some (m, t) | _ \<Rightarrow> None) ''error'' kvs) of
        (Some m, Some cs, Some u, Some e) \<Rightarrow> Some \<lparr>rp_model = m, rp_choices = cs, rp_usage = u, rp_error = e\<rparr>
      | _ \<Rightarrow> None)"

definition oai_error_text :: "string \<times> string \<Rightarrow> string" where
  "oai_error_text e = (case e of (m, t) \<Rightarrow> (if t = [] then [] else t @ '': '') @ m)"

definition stop_reason :: "string \<Rightarrow> string" where
  "stop_reason fin =
     (if fin = ''stop'' then StopEndTurn else if fin = ''tool_calls'' then StopToolUse
      else if fin = ''length'' then StopMaxTokens else if fin = ''content_filter'' then StopRefusal else fin)"

definition oai_tool_input :: "string \<Rightarrow> string" where
  "oai_tool_input args =
     (if trim_space args = [] then ''{}'' else if json_valid args then args else html_quote args)"

definition oai_truncate :: "string \<Rightarrow> string" where
  "oai_truncate s = (if length s \<le> 2048 then s else take 2048 s @ utf8 8230)"

definition reply_content :: "string \<Rightarrow> string \<Rightarrow> (tool_use_id \<times> string \<times> string) list \<Rightarrow> block list" where
  "reply_content reasoning txt calls =
     (if reasoning = [] then [] else [Thinking reasoning []]) @ (if txt = [] then [] else [Text txt]) @
     map (\<lambda>(t, n, a). ToolUse \<lparr>tu_id = t, tu_name = n, tu_input = oai_tool_input a\<rparr>) calls"

definition decode_response :: "string \<Rightarrow> err option \<Rightarrow> string \<Rightarrow> err + response" where
  "decode_response raw fl model =
     (case fl of
        Some e \<Rightarrow> Inl (classify_transport (Wrapf ''openai: read response'' [e]))
      | None \<Rightarrow>
          (case Option.bind (json_parse raw) (struct_of (reply_of_fields False)) of
             None \<Rightarrow> Inl (classify_transport (Wrapf (''openai: parse response'' @ oai_truncate raw) []))
           | Some r \<Rightarrow>
               if (case rp_error r of Some e \<Rightarrow> fst e \<noteq> [] | None \<Rightarrow> False)
                 then Inl (ApiErr ErrBadRequest 200 (oai_error_text (the (rp_error r))) 0 None)
               else (case rp_choices r of
                   [] \<Rightarrow> Inl (classify_transport (Wrapf (''openai: response has no choices'' @ oai_truncate raw) []))
                 | c # _ \<Rightarrow> Inr
                     \<lparr>rs_content = reply_content (ch_reasoning c) (ch_content c)
                        (map (\<lambda>u. (rc_id u, rc_name u, rc_args u)) (ch_calls c)),
                      rs_stop = stop_reason (ch_finish c), rs_usage = to_usage (rp_usage r),
                      rs_model = (if rp_model r \<noteq> [] then rp_model r else model)\<rparr>)))"

section \<open>Streams\<close>

record call_builder =
  cb_id :: tool_use_id
  cb_name :: string
  cb_args :: string
  cb_announced :: bool

record chat_state =
  cs_text :: string
  cs_reasoning :: string
  cs_calls :: "(int \<times> call_builder) list"
  cs_finish :: string
  cs_usage :: usage
  cs_model :: string
  cs_chunks :: nat
  cs_done :: bool

definition chat_start :: "string \<Rightarrow> chat_state" where
  "chat_start model = \<lparr>cs_text = [], cs_reasoning = [], cs_calls = [], cs_finish = [],
     cs_usage = to_usage None, cs_model = model, cs_chunks = 0, cs_done = False\<rparr>"

definition builder_at :: "int \<Rightarrow> (int \<times> call_builder) list \<Rightarrow> call_builder" where
  "builder_at i cs = (case map_of cs i of Some b \<Rightarrow> b
     | None \<Rightarrow> \<lparr>cb_id = [], cb_name = [], cb_args = [], cb_announced = False\<rparr>)"

definition call_index :: "reply_call \<Rightarrow> int" where
  "call_index u = (case rc_index u of Some i \<Rightarrow> i | None \<Rightarrow> 0)"

definition add_fragment :: "reply_call \<Rightarrow> call_builder \<Rightarrow> call_builder" where
  "add_fragment u b = b\<lparr>cb_id := (if rc_id u \<noteq> [] then rc_id u else cb_id b),
     cb_name := (if rc_name u \<noteq> [] then rc_name u else cb_name b), cb_args := cb_args b @ rc_args u\<rparr>"

definition handle_call :: "chat_state \<times> delta list \<Rightarrow> reply_call \<Rightarrow> chat_state \<times> delta list" where
  "handle_call st u = (case st of (s, ds) \<Rightarrow>
     (let i = call_index u;
          b = add_fragment u (builder_at i (cs_calls s));
          open_now = (\<not> cb_announced b \<and> (cb_id b \<noteq> [] \<or> cb_name b \<noteq> []));
          b' = (if open_now then b\<lparr>cb_announced := True\<rparr> else b)
      in (s\<lparr>cs_calls := AList.update i b' (cs_calls s)\<rparr>,
          ds @ emit_tool_args i (if open_now then cb_id b else []) (if open_now then cb_name b else []) (rc_args u))))"

definition handle_choice :: "chat_state \<times> delta list \<Rightarrow> choice \<Rightarrow> chat_state \<times> delta list" where
  "handle_choice st c = (case st of (s, ds) \<Rightarrow>
     foldl handle_call
       (s\<lparr>cs_finish := (if ch_finish c \<noteq> [] then ch_finish c else cs_finish s),
          cs_reasoning := cs_reasoning s @ ch_reasoning c, cs_text := cs_text s @ ch_content c\<rparr>,
        ds @ (if ch_reasoning c = [] then [] else [ReasoningDelta (ch_reasoning c)]) @
          (if ch_content c = [] then [] else [TextDelta (ch_content c)]))
       (ch_calls c))"

definition decode_chunk :: "string \<Rightarrow> reply option" where
  "decode_chunk dat = Option.bind (json_parse dat) (struct_of (reply_of_fields True))"

definition handle_chunk :: "reply \<Rightarrow> chat_state \<Rightarrow> chat_state \<times> delta list" where
  "handle_chunk r s =
     (let u = to_usage (rp_usage r) in
      foldl handle_choice
        (s\<lparr>cs_model := (if rp_model r \<noteq> [] then rp_model r else cs_model s),
           cs_usage := (if u_input u > 0 \<or> u_output u > 0 then u else cs_usage s)\<rparr>, [])
        (rp_choices r))"

fun chat_events :: "sse_event list \<Rightarrow> chat_state \<Rightarrow> err + chat_state \<times> delta list" where
  "chat_events [] s = Inr (s, [])"
| "chat_events (ev # evs) s =
     (let dat = trim_space (ev_data ev) in
      if dat = [] then chat_events evs s
      else if dat = ''[DONE]'' then Inr (s\<lparr>cs_done := True\<rparr>, [])
      else (case decode_chunk dat of
          None \<Rightarrow> chat_events evs s
        | Some r \<Rightarrow>
            (let s = s\<lparr>cs_chunks := cs_chunks s + 1\<rparr> in
             if (case rp_error r of Some e \<Rightarrow> fst e \<noteq> [] | None \<Rightarrow> False)
               then Inl (ApiErr ErrServer 200 (oai_error_text (the (rp_error r))) 0 None)
             else if to_lower (ev_type ev) = ''error'' then Inl (ApiErr ErrServer 200 (oai_truncate dat) 0 None)
             else (case handle_chunk r s of (s', ds) \<Rightarrow>
               (case chat_events evs s' of Inl e \<Rightarrow> Inl e | Inr (s'', ds') \<Rightarrow> Inr (s'', ds @ ds'))))))"

definition chat_response :: "chat_state \<Rightarrow> response" where
  "chat_response s =
     \<lparr>rs_content = reply_content (cs_reasoning s) (cs_text s)
        (map (\<lambda>i. let b = builder_at i (cs_calls s) in (cb_id b, cb_name b, cb_args b)) (sort (map fst (cs_calls s)))),
      rs_stop = stop_reason (cs_finish s), rs_usage = cs_usage s, rs_model = cs_model s\<rparr>"

definition decode_stream :: "string \<Rightarrow> err option \<Rightarrow> string \<Rightarrow> err + response \<times> delta list" where
  "decode_stream body fl model =
     (case sse_read body fl of (evs, e) \<Rightarrow>
        (case chat_events evs (chat_start model) of
           Inl err \<Rightarrow> Inl err
         | Inr (s, ds) \<Rightarrow>
             (case (if cs_done s then None else e) of
                Some e \<Rightarrow> Inl (classify_transport (Wrapf ''openai: read stream'' [e]))
              | None \<Rightarrow>
                  if cs_chunks s = 0 \<and> \<not> cs_done s
                  then Inl (classify_transport (Sentinel ''openai: stream closed before any event''))
                  else Inr (chat_response s, ds))))"

section \<open>A call\<close>

definition oai_headers :: "oai_client \<Rightarrow> bool \<Rightarrow> string \<rightharpoonup> string" where
  "oai_headers c stream =
     (let h = [''Content-Type'' \<mapsto> ''application/json''];
          h = (if ol_key c = [] then h else h(''Authorization'' \<mapsto> ''Bearer '' @ ol_key c));
          h = h(''Accept'' \<mapsto> (if stream then ''text/event-stream'' else ''application/json''))
      in foldl (\<lambda>h (k, v). h(canonical_key k \<mapsto> v)) h (ol_extra c))"

definition oai_retry_after :: "(string \<Rightarrow> int option) \<Rightarrow> string \<Rightarrow> int" where
  "oai_retry_after until v =
     (let v = trim_space v in
      if v = [] then 0
      else case atoi v of
        Some secs \<Rightarrow> if secs < 0 then 0 else secs * 1000000000
      | None \<Rightarrow> (case until v of Some d \<Rightarrow> if d > 0 then d else 0 | None \<Rightarrow> 0))"

definition oai_status_error :: "(string \<Rightarrow> int option) \<Rightarrow> int \<Rightarrow> string \<Rightarrow> string \<Rightarrow> err option" where
  "oai_status_error until status ra body =
     classify_status status (trim_space (take 65536 body)) (oai_retry_after until ra)"

text \<open>A failed exchange reports the context's own error, when it has one.\<close>

definition oai_complete ::
  "(real \<Rightarrow> string) \<Rightarrow> (string \<Rightarrow> int option) \<Rightarrow> oai_client \<Rightarrow>
   ((string \<rightharpoonup> string) \<Rightarrow> json \<Rightarrow> http_outcome) \<Rightarrow> bool \<Rightarrow> request \<Rightarrow> err + response \<times> delta list" where
  "oai_complete ftext until c post sink req =
     (let model = (if rq_model req = [] then ol_model c else rq_model req);
          max_tokens = (if rq_max_tokens req \<le> 0 then ol_max_tokens c else rq_max_tokens req);
          stream = stream_enabled (ol_stream c) sink;
          (t, p) = oai_sampling c req in
      case oai_encode_request ftext (req\<lparr>rq_temperature := t, rq_top_p := p\<rparr>) model max_tokens stream of
        Inl e \<Rightarrow> Inl e
      | Inr body \<Rightarrow>
          (case post (oai_headers c stream) body of
             HttpFail e (Some ended) \<Rightarrow> Inl (Wrapf ''openai'' [ended])
           | HttpFail e None \<Rightarrow> Inl (classify_transport (Wrapf ''openai: post'' [e]))
           | HttpReply status ra text fl cause \<Rightarrow>
               (case oai_status_error until status ra text of
                  Some e \<Rightarrow> Inl e
                | None \<Rightarrow>
                    if stream then map_sum id (\<lambda>(r, ds). (r, if sink then ds else [])) (decode_stream text fl model)
                    else map_sum id (\<lambda>r. (r, [])) (decode_response text fl model))))"

section \<open>The protocol of the wire\<close>

text \<open>
  What the API demands: after an assistant message with calls come exactly the tool messages that answer
  them, one each, before anything else; no tool message stands elsewhere.
\<close>

fun answered :: "tool_use_id list \<Rightarrow> oai_message list \<Rightarrow> bool" where
  "answered opn [] \<longleftrightarrow> opn = []"
| "answered opn (m # ms) \<longleftrightarrow>
     (if opn = [] then om_role m \<noteq> ''tool'' \<and> answered (map oa_id (om_calls m)) ms
      else om_role m = ''tool'' \<and> om_call_id m \<in> set opn \<and> answered (remove1 (om_call_id m) opn) ms)"

fun is_result :: "block \<Rightarrow> bool" where
  "is_result (ToolResult _) = True"
| "is_result _ = False"

text \<open>A turn gives its results before anything else, as every helper of the transcript makes it.\<close>

definition results_first :: "block list \<Rightarrow> bool" where
  "results_first bs \<longleftrightarrow> list_all (\<lambda>b. \<not> is_result b) (dropWhile is_result bs)"

definition tool_message :: "oai_message \<Rightarrow> bool" where
  "tool_message m \<longleftrightarrow> om_role m = ''tool'' \<and> om_calls m = []"

lemma answered_run:
  assumes "list_all tool_message ms" and "distinct (map om_call_id ms)" and "distinct opn"
    and "set (map om_call_id ms) = set opn"
  shows "answered opn (ms @ rest) = answered [] rest"
  using assms
proof (induction ms arbitrary: opn)
  case (Cons m ms)
  then have "opn \<noteq> []" "om_call_id m \<in> set opn" "om_role m = ''tool''" by (auto simp: tool_message_def)
  moreover have "set (remove1 (om_call_id m) opn) = insert (om_call_id m) (set (map om_call_id ms)) - {om_call_id m}"
    using Cons.prems by simp
  then have "set (map om_call_id ms) = set (remove1 (om_call_id m) opn)" using Cons.prems(2) by simp
  then have "answered (remove1 (om_call_id m) opn) (ms @ rest) = answered [] rest"
    using Cons.prems by (intro Cons.IH) simp_all
  ultimately show ?case by simp
qed simp

lemma assistant_fields:
  "om_role (foldl assistant_block m bs) = om_role m"
  "map oa_id (om_calls (foldl assistant_block m bs)) = map oa_id (om_calls m) @ use_ids bs"
proof (induction bs arbitrary: m)
  case (Cons b bs)
  { case 1 show ?case using Cons(1) by (cases b) auto }
  { case 2 show ?case using Cons(2) by (cases b) (auto simp: use_ids_simps) }
qed (simp_all add: use_ids_def)

lemma user_results:
  "foldl user_block (l, ts) (map ToolResult rs) =
     (l, ts @ map (\<lambda>r. (chat_message ''tool'' (Some (tr_content r)))\<lparr>om_call_id := tr_id r\<rparr>) rs)"
  by (induction rs arbitrary: ts) auto

lemma user_rest:
  assumes "list_all (\<lambda>b. \<not> is_result b) bs"
  shows "\<exists>l' ts'. foldl user_block (l, ts) bs = (l', ts') \<and> map om_call_id ts' = map om_call_id ts \<and>
    (list_all tool_message ts \<longrightarrow> list_all tool_message ts') \<and> (ts \<noteq> [] \<longrightarrow> l' = l)"
  using assms
proof (induction bs arbitrary: l ts)
  case (Cons b bs)
  show ?case
  proof (cases b)
    case (Text s)
    show ?thesis
    proof (cases ts rule: rev_cases)
      case Nil
      from Cons.prems have "list_all (\<lambda>b. \<not> is_result b) bs" by simp
      from Cons.IH[OF this, of "add_line l s" "[]"] Text Nil show ?thesis by auto
    next
      case (snoc us u)
      let ?ts = "us @ [u\<lparr>om_content := add_line (om_content u) s\<rparr>]"
      from Cons.prems have "list_all (\<lambda>b. \<not> is_result b) bs" by simp
      from Cons.IH[OF this, of l ?ts] obtain l' ts' where "foldl user_block (l, ?ts) bs = (l', ts')"
        "map om_call_id ts' = map om_call_id ?ts"
        "list_all tool_message ?ts \<longrightarrow> list_all tool_message ts'" "?ts \<noteq> [] \<longrightarrow> l' = l"
        by blast
      moreover have "tool_message (u\<lparr>om_content := add_line (om_content u) s\<rparr>) = tool_message u"
        by (simp add: tool_message_def)
      ultimately show ?thesis using Text snoc by auto
    qed
  qed (use Cons in auto)
qed auto

lemma split_results:
  assumes "results_first bs"
  obtains rs ts where "bs = map ToolResult rs @ ts" "list_all (\<lambda>b. \<not> is_result b) ts" "result_ids bs = map tr_id rs"
proof -
  have "\<exists>rs. takeWhile is_result bs = map ToolResult rs" for bs
  proof (induction bs)
    case (Cons b bs)
    then obtain rs where rs: "takeWhile is_result bs = map ToolResult rs" by blast
    show ?case
    proof (cases b)
      case (ToolResult r)
      with rs show ?thesis by (intro exI[of _ "r # rs"]) simp
    qed (auto intro: exI[of _ "[]"])
  qed simp
  then obtain rs where rs: "takeWhile is_result bs = map ToolResult rs" by blast
  have none: "result_ids ts = []" if "list_all (\<lambda>b. \<not> is_result b) ts" for ts
    using that
  proof (induction ts)
    case (Cons b ts)
    then show ?case by (cases b) auto
  qed simp
  have "result_ids (map ToolResult rs @ ts) = map tr_id rs @ result_ids ts" for rs ts by (induction rs) auto
  with rs none assms that[of rs "dropWhile is_result bs"] show thesis
    by (metis append_Nil2 results_first_def takeWhile_dropWhile_id)
qed

lemma encode_user_shape:
  assumes "results_first bs"
  shows "map om_call_id (filter (\<lambda>m. om_role m = ''tool'') (encode_user bs)) = result_ids bs \<and>
    (if result_ids bs = [] then answered [] (encode_user bs @ rest) = answered [] rest
     else list_all tool_message (encode_user bs) \<and> map om_call_id (encode_user bs) = result_ids bs)"
proof -
  obtain rs ts where b: "bs = map ToolResult rs @ ts" "list_all (\<lambda>b. \<not> is_result b) ts" "result_ids bs = map tr_id rs"
    using split_results[OF assms] by blast
  let ?ms = "map (\<lambda>r. (chat_message ''tool'' (Some (tr_content r)))\<lparr>om_call_id := tr_id r\<rparr>) rs"
  obtain l' ts' where t: "foldl user_block (None, ?ms) ts = (l', ts')" "map om_call_id ts' = map om_call_id ?ms"
    "list_all tool_message ?ms \<longrightarrow> list_all tool_message ts'" "?ms \<noteq> [] \<longrightarrow> l' = None"
    using user_rest[OF b(2), of None ?ms] by blast
  have tm: "list_all tool_message ts'" using t(3) by (simp add: list_all_iff tool_message_def chat_message_def)
  have e: "encode_user bs = (case l' of None \<Rightarrow> [] | Some t \<Rightarrow> [chat_message ''user'' (Some t)]) @ ts'"
    by (simp add: encode_user_def b(1) user_results t(1))
  have ids: "map om_call_id ts' = result_ids bs" using t(2) b(3) by (simp add: comp_def)
  have "filter (\<lambda>m. om_role m = ''tool'') ts' = ts'" using tm by (auto simp: filter_id_conv list_all_iff tool_message_def)
  then show ?thesis
    using e ids t(4) b(3) tm by (cases "rs = []") (auto simp: chat_message_def split: option.splits)
qed

lemma encoded_turns_answered:
  assumes "run_turns (prev, seen, set opn) c = Some (p, s, {})" and "distinct opn"
    and "\<forall>m\<in>set c. results_first (msg_content m)"
  shows "answered opn (concat (map (\<lambda>m. if msg_role m = RoleAssistant then [encode_assistant (msg_content m)]
                      else encode_user (msg_content m)) c))"
  using assms
proof (induction c arbitrary: prev seen opn)
  case (Cons m c)
  let ?rest = "concat (map (\<lambda>m. if msg_role m = RoleAssistant then [encode_assistant (msg_content m)]
                      else encode_user (msg_content m)) c)"
  have fits: "turn_fits (prev, seen, set opn) m" and
    run: "run_turns (Some (msg_role m), seen \<union> set (uses_of m), set (uses_of m)) c = Some (p, s, {})"
    using Cons.prems(1) by (auto split: if_splits)
  have rest: "answered (uses_of m) ?rest"
    using Cons.IH[OF run] fits Cons.prems(3) by simp
  show ?case
  proof (cases "msg_role m = RoleAssistant")
    case True
    with fits have "opn = []" by (auto simp: roles_ok_def)
    moreover have "om_role (encode_assistant (msg_content m)) \<noteq> ''tool''"
      "map oa_id (om_calls (encode_assistant (msg_content m))) = uses_of m"
      by (simp_all add: encode_assistant_def assistant_fields chat_message_def)
    ultimately show ?thesis using True rest by simp
  next
    case False
    with fits have none: "uses_of m = []" by (auto simp: roles_ok_def)
    have "results_first (msg_content m)" using Cons.prems(3) by simp
    note shape = encode_user_shape[OF this, of ?rest]
    have "answered opn (encode_user (msg_content m) @ ?rest) = answered [] ?rest"
    proof (cases "results_of m = []")
      case True
      with fits shape show ?thesis by simp
    next
      case False
      with fits shape Cons.prems(2) show ?thesis by (intro answered_run) auto
    qed
    with rest none False show ?thesis by simp
  qed
qed simp

text \<open>C19: Every transcript the loop can send is legal for the API: if it validates and its turns give results
  before text, then on the wire each assistant message with calls is followed at once by exactly one tool
  message per call, and no tool message stands anywhere else.\<close>

theorem calls_answered_on_wire:
  assumes "validate c = None" and "\<forall>m\<in>set c. results_first (msg_content m)"
  shows "answered [] (oai_encode_messages system c)"
proof -
  obtain p s where "run_turns start_state c = Some (p, s, {})" using assms(1) by (auto simp: validate_run)
  then have "run_turns (None, {}, set []) c = Some (p, s, {})" by simp
  from encoded_turns_answered[OF this _ assms(2)] show ?thesis
    by (simp add: oai_encode_messages_def chat_message_def)
qed

definition wire_use :: tool_use where
  "wire_use = \<lparr>tu_id = ''c1'', tu_name = ''ls'', tu_input = []\<rparr>"

definition wire_answer :: tool_result where
  "wire_answer = \<lparr>tr_id = ''c1'', tr_content = ''a b'', tr_is_error = False\<rparr>"

definition wire_convo :: "block list \<Rightarrow> convo" where
  "wire_convo bs = [user_text ''hi'', \<lparr>msg_role = RoleAssistant, msg_content = [Text ''look'', ToolUse wire_use]\<rparr>,
     \<lparr>msg_role = RoleUser, msg_content = bs\<rparr>]"

lemmas wire_defs = wire_convo_def wire_use_def wire_answer_def user_text_def results_first_def

theorem calls_answered_on_wire_witness:
  "answered [] (oai_encode_messages ''be brief'' (wire_convo [ToolResult wire_answer, Text ''go on'']))"
proof (rule calls_answered_on_wire)
  show "validate (wire_convo [ToolResult wire_answer, Text ''go on'']) = None" by code_simp
qed (simp add: wire_defs)

text \<open>
  The condition matters: a turn with text before its result is valid, and is sent as a user message
  between the call and its answer.
\<close>

lemma text_before_result_breaks_wire:
  "validate (wire_convo [Text ''well'', ToolResult wire_answer]) = None \<and>
   \<not> answered [] (oai_encode_messages [] (wire_convo [Text ''well'', ToolResult wire_answer]))"
proof
  show "validate (wire_convo [Text ''well'', ToolResult wire_answer]) = None" by code_simp
  show "\<not> answered [] (oai_encode_messages [] (wire_convo [Text ''well'', ToolResult wire_answer]))"
    by (simp add: wire_defs oai_encode_messages_def encode_assistant_def encode_user_def chat_message_def add_line_def)
qed

end
