(* ===== verification/OpenaiStream.thy ===== *)
theory OpenaiStream
  imports Openai
begin

text \<open>
  The streamed reply of the OpenAI client (\<^verbatim>\<open>llm/openai/stream.go\<close>) against the buffered one
  (\<^verbatim>\<open>llm/openai/response.go\<close>): what each fragment adds to the state and to what the sink has seen, and
  the assembly of chunks into the reply they are cut from.
\<close>

section \<open>Folds that keep the last value\<close>

definition last_such :: "('a \<Rightarrow> bool) \<Rightarrow> 'a \<Rightarrow> 'a list \<Rightarrow> 'a" where
  "last_such P a xs = foldl (\<lambda>a x. if P x then x else a) a xs"

lemma last_such_simps [simp]:
  "last_such P a [] = a" "last_such P a (x # xs) = last_such P (if P x then x else a) xs"
  "last_such P a (xs @ ys) = last_such P (last_such P a xs) ys"
  by (simp_all add: last_such_def)

lemma last_such_only: "set (filter P xs) = {y} \<Longrightarrow> last_such P a xs = y"
proof (induction xs arbitrary: a rule: rev_induct)
  case (snoc x xs)
  show ?case
  proof (cases "filter P xs = []")
    case True
    with snoc.prems show ?thesis by (auto split: if_splits)
  next
    case False
    with snoc.prems have "set (filter P xs) = {y}" by (cases "P x") (auto simp: filter_empty_conv)
    with snoc show ?thesis by (auto split: if_splits)
  qed
qed simp

lemma last_such_none: "filter P xs = [] \<Longrightarrow> last_such P a xs = a"
  by (induction xs) auto

section \<open>What fragments add\<close>

definition call_info :: "int \<Rightarrow> chat_state \<Rightarrow> tool_use_id \<times> string \<times> string" where
  "call_info i s = (let b = builder_at i (cs_calls s) in (cb_id b, cb_name b, cb_args b))"

definition add_info :: "tool_use_id \<times> string \<times> string \<Rightarrow> reply_call \<Rightarrow> tool_use_id \<times> string \<times> string" where
  "add_info p u = (case p of (t, n, a) \<Rightarrow>
     (if rc_id u \<noteq> [] then rc_id u else t, if rc_name u \<noteq> [] then rc_name u else n, a @ rc_args u))"

definition delta_text :: "delta list \<Rightarrow> string" where
  "delta_text ds = concat (map (\<lambda>d. case d of TextDelta t \<Rightarrow> t | _ \<Rightarrow> []) ds)"

definition delta_args :: "int \<Rightarrow> delta list \<Rightarrow> string" where
  "delta_args i ds = concat (map (\<lambda>d. case d of ToolArgsDelta j _ _ a \<Rightarrow> if j = i then a else [] | _ \<Rightarrow> []) ds)"

lemma delta_simps [simp]:
  "delta_text [] = []" "delta_text (xs @ ys) = delta_text xs @ delta_text ys"
  "delta_args i [] = []" "delta_args i (xs @ ys) = delta_args i xs @ delta_args i ys"
  "delta_text [TextDelta t] = t" "delta_text [ReasoningDelta t] = []"
  "delta_args i [TextDelta t] = []" "delta_args i [ReasoningDelta t] = []"
  "delta_text (emit_tool_args j t n a) = []" "delta_args i (emit_tool_args j t n a) = (if j = i then a else [])"
  by (auto simp: delta_text_def delta_args_def emit_tool_args_def)

abbreviation fragments :: "int \<Rightarrow> reply_call list \<Rightarrow> reply_call list" where
  "fragments i us \<equiv> filter (\<lambda>u. call_index u = i) us"

definition call_keys :: "chat_state \<Rightarrow> int list" where
  "call_keys s = map fst (cs_calls s)"

definition grows :: "chat_state \<times> delta list \<Rightarrow> string \<Rightarrow> string \<Rightarrow> reply_call list \<Rightarrow> chat_state \<times> delta list \<Rightarrow> bool" where
  "grows st t r us st' \<longleftrightarrow>
     cs_text (fst st') = cs_text (fst st) @ t \<and> cs_reasoning (fst st') = cs_reasoning (fst st) @ r \<and>
     (\<forall>i. call_info i (fst st') = foldl add_info (call_info i (fst st)) (fragments i us)) \<and>
     set (call_keys (fst st')) = set (call_keys (fst st)) \<union> call_index ` set us \<and>
     (distinct (call_keys (fst st)) \<longrightarrow> distinct (call_keys (fst st'))) \<and>
     delta_text (snd st') = delta_text (snd st) @ t \<and>
     (\<forall>i. delta_args i (snd st') = delta_args i (snd st) @ concat (map rc_args (fragments i us)))"

lemma grows_refl: "grows st [] [] [] st"
  by (simp add: grows_def)

lemma grows_trans: "grows a t r us b \<Longrightarrow> grows b t' r' us' c \<Longrightarrow> grows a (t @ t') (r @ r') (us @ us') c"
  by (auto simp: grows_def)

lemma grows_join: "grows (s, []) t r us (s', ds) \<Longrightarrow> grows (s', []) t' r' us' (s'', ds') \<Longrightarrow>
    grows (s, []) (t @ t') (r @ r') (us @ us') (s'', ds @ ds')"
  by (auto simp: grows_def)

definition totals :: "chat_state \<Rightarrow> string \<times> usage \<times> string \<times> nat \<times> bool" where
  "totals s = (cs_finish s, cs_usage s, cs_model s, cs_chunks s, cs_done s)"

lemma builder_update: "builder_at i (AList.update j b cs) = (if i = j then b else builder_at i cs)"
  by (auto simp: builder_at_def update_conv')

lemma put_builder_grows:
  assumes "(cb_id b, cb_name b, cb_args b) = add_info (call_info (call_index u) s) u"
    and "delta_text ds' = []" and "\<And>i. delta_args i ds' = (if call_index u = i then rc_args u else [])"
  shows "grows (s, ds) [] [] [u] (s\<lparr>cs_calls := AList.update (call_index u) b (cs_calls s)\<rparr>, ds @ ds')"
  using assms by (auto simp: grows_def call_info_def builder_update Let_def call_keys_def dom_update distinct_update)

lemma handle_call_grows:
  "grows (s, ds) [] [] [u] (handle_call (s, ds) u) \<and> totals (fst (handle_call (s, ds) u)) = totals s"
proof -
  let ?b = "add_fragment u (builder_at (call_index u) (cs_calls s))"
  define opens where "opens \<longleftrightarrow> \<not> cb_announced ?b \<and> (cb_id ?b \<noteq> [] \<or> cb_name ?b \<noteq> [])"
  define b where "b = (if opens then ?b\<lparr>cb_announced := True\<rparr> else ?b)"
  have h: "handle_call (s, ds) u = (s\<lparr>cs_calls := AList.update (call_index u) b (cs_calls s)\<rparr>,
      ds @ emit_tool_args (call_index u) (if opens then cb_id ?b else []) (if opens then cb_name ?b else []) (rc_args u))"
    unfolding handle_call_def b_def opens_def Let_def by simp
  have "(cb_id b, cb_name b, cb_args b) = add_info (call_info (call_index u) s) u"
    by (simp add: b_def call_info_def add_info_def add_fragment_def Let_def)
  then show ?thesis unfolding h by (intro conjI put_builder_grows) (simp_all add: totals_def)
qed

lemma handle_calls_grow:
  "grows st [] [] us (foldl handle_call st us) \<and> totals (fst (foldl handle_call st us)) = totals (fst st)"
proof (induction us arbitrary: st)
  case (Cons u us)
  have "grows st [] [] [u] (handle_call st u) \<and> totals (fst (handle_call st u)) = totals (fst st)"
    using handle_call_grows by (cases st) simp
  with Cons[of "handle_call st u"] show ?case
    using grows_trans[of st "[]" "[]" "[u]" "handle_call st u" "[]" "[]" us "foldl handle_call st (u # us)"] by simp
qed (simp add: grows_refl)

section \<open>Choices, chunks, streams\<close>

lemma handle_choice_grows:
  "grows (s, ds) (ch_content c) (ch_reasoning c) (ch_calls c) (handle_choice (s, ds) c) \<and>
   totals (fst (handle_choice (s, ds) c)) =
     (if ch_finish c \<noteq> [] then ch_finish c else cs_finish s, cs_usage s, cs_model s, cs_chunks s, cs_done s)"
proof -
  let ?s = "s\<lparr>cs_finish := (if ch_finish c \<noteq> [] then ch_finish c else cs_finish s),
          cs_reasoning := cs_reasoning s @ ch_reasoning c, cs_text := cs_text s @ ch_content c\<rparr>"
  let ?ds = "ds @ (if ch_reasoning c = [] then [] else [ReasoningDelta (ch_reasoning c)]) @
          (if ch_content c = [] then [] else [TextDelta (ch_content c)])"
  have "grows (s, ds) (ch_content c) (ch_reasoning c) [] (?s, ?ds)"
    by (simp add: grows_def call_info_def call_keys_def)
  from grows_trans[OF this] handle_calls_grow[of "(?s, ?ds)" "ch_calls c"] show ?thesis
    by (fastforce simp: handle_choice_def totals_def)
qed

abbreviation all_content :: "choice list \<Rightarrow> string" where
  "all_content cs \<equiv> concat (map ch_content cs)"

abbreviation all_reasoning :: "choice list \<Rightarrow> string" where
  "all_reasoning cs \<equiv> concat (map ch_reasoning cs)"

abbreviation all_calls :: "choice list \<Rightarrow> reply_call list" where
  "all_calls cs \<equiv> concat (map ch_calls cs)"

abbreviation last_set :: "string \<Rightarrow> string list \<Rightarrow> string" where
  "last_set \<equiv> last_such (\<lambda>x. x \<noteq> [])"

lemma handle_choices_grow:
  "grows st (all_content cs) (all_reasoning cs) (all_calls cs) (foldl handle_choice st cs) \<and>
   totals (fst (foldl handle_choice st cs)) =
     (last_set (cs_finish (fst st)) (map ch_finish cs), cs_usage (fst st), cs_model (fst st), cs_chunks (fst st),
      cs_done (fst st))"
proof (induction cs arbitrary: st)
  case Nil
  then show ?case by (simp add: grows_refl totals_def)
next
  case (Cons c cs)
  obtain s ds where st: "st = (s, ds)" by force
  note one = handle_choice_grows[of s ds c] and rest = Cons[of "handle_choice (s, ds) c"]
  have "grows st (all_content (c # cs)) (all_reasoning (c # cs)) (all_calls (c # cs)) (foldl handle_choice st (c # cs))"
    using grows_trans[OF one[THEN conjunct1] rest[THEN conjunct1]] st by simp
  with one rest st show ?case by (simp add: totals_def)
qed

definition counts :: "usage \<Rightarrow> bool" where
  "counts u \<longleftrightarrow> u_input u > 0 \<or> u_output u > 0"

lemma handle_chunk_grows:
  "grows (s, []) (all_content (rp_choices r)) (all_reasoning (rp_choices r)) (all_calls (rp_choices r)) (handle_chunk r s) \<and>
   totals (fst (handle_chunk r s)) = (last_set (cs_finish s) (map ch_finish (rp_choices r)),
     last_such counts (cs_usage s) [to_usage (rp_usage r)], last_set (cs_model s) [rp_model r], cs_chunks s, cs_done s)"
proof -
  let ?u = "to_usage (rp_usage r)"
  let ?s = "s\<lparr>cs_model := (if rp_model r \<noteq> [] then rp_model r else cs_model s),
           cs_usage := (if u_input ?u > 0 \<or> u_output ?u > 0 then ?u else cs_usage s)\<rparr>"
  have "grows (s, []) [] [] [] (?s, [])" by (simp add: grows_def call_info_def call_keys_def)
  from grows_trans[OF this] handle_choices_grow[of "(?s, [])" "rp_choices r"] show ?thesis
    by (fastforce simp: handle_chunk_def Let_def counts_def)
qed

text \<open>The chunks of a stream, up to the end mark; whether there was one; and whether none reports an error.\<close>

fun chunks_of :: "sse_event list \<Rightarrow> reply list \<times> bool" where
  "chunks_of [] = ([], False)"
| "chunks_of (ev # evs) =
     (let dat = trim_space (ev_data ev) in
      if dat = [] then chunks_of evs
      else if dat = ''[DONE]'' then ([], True)
      else (case decode_chunk dat of None \<Rightarrow> chunks_of evs
            | Some r \<Rightarrow> (case chunks_of evs of (rs, d) \<Rightarrow> (r # rs, d))))"

definition no_error :: "reply \<Rightarrow> bool" where
  "no_error r \<longleftrightarrow> (case rp_error r of Some e \<Rightarrow> fst e = [] | None \<Rightarrow> True)"

abbreviation all_choices :: "reply list \<Rightarrow> choice list" where
  "all_choices rs \<equiv> concat (map rp_choices rs)"

lemma chat_events_grow:
  assumes "chunks_of evs = (rs, d)" and "\<forall>r\<in>set rs. no_error r" and "\<forall>ev\<in>set evs. to_lower (ev_type ev) \<noteq> ''error''"
    and "\<not> cs_done s"
  shows "\<exists>s' ds. chat_events evs s = Inr (s', ds) \<and>
    grows (s, []) (all_content (all_choices rs)) (all_reasoning (all_choices rs)) (all_calls (all_choices rs)) (s', ds) \<and>
    totals s' = (last_set (cs_finish s) (map ch_finish (all_choices rs)),
      last_such counts (cs_usage s) (map (\<lambda>r. to_usage (rp_usage r)) rs), last_set (cs_model s) (map rp_model rs),
      cs_chunks s + length rs, d)"
  using assms
proof (induction evs arbitrary: s rs)
  case Nil
  then show ?case by (auto simp: grows_refl totals_def)
next
  case (Cons ev evs)
  let ?dat = "trim_space (ev_data ev)"
  consider (skip) "?dat = [] \<or> ?dat \<noteq> ''[DONE]'' \<and> decode_chunk ?dat = None" | (final) "?dat = ''[DONE]''"
    | (chunk) r where "?dat \<noteq> []" "?dat \<noteq> ''[DONE]''" "decode_chunk ?dat = Some r" by fastforce
  then show ?case
  proof cases
    case skip
    then have "chat_events (ev # evs) s = chat_events evs s" "chunks_of (ev # evs) = chunks_of evs"
      by (auto simp: Let_def)
    with Cons show ?thesis by simp
  next
    case final
    with Cons.prems(1) show ?thesis by (auto simp: grows_def call_info_def call_keys_def totals_def)
  next
    case (chunk r)
    let ?s = "s\<lparr>cs_chunks := cs_chunks s + 1\<rparr>"
    obtain qs where qs: "chunks_of evs = (qs, d)" "rs = r # qs"
      using Cons.prems(1) chunk by (auto split: prod.splits)
    obtain s1 d1 where h: "handle_chunk r ?s = (s1, d1)" by force
    note one = handle_chunk_grows[of ?s r, unfolded h fst_conv]
    have "\<not> cs_done s1" using one Cons.prems(4) by (simp add: totals_def)
    from Cons.IH[OF qs(1) _ _ this] Cons.prems(2,3) qs(2) obtain s' ds where r: "chat_events evs s1 = Inr (s', ds)"
      "grows (s1, []) (all_content (all_choices qs)) (all_reasoning (all_choices qs)) (all_calls (all_choices qs)) (s', ds)"
      "totals s' = (last_set (cs_finish s1) (map ch_finish (all_choices qs)),
        last_such counts (cs_usage s1) (map (\<lambda>r. to_usage (rp_usage r)) qs), last_set (cs_model s1) (map rp_model qs),
        cs_chunks s1 + length qs, d)" by auto
    have "\<not> (case rp_error r of Some e \<Rightarrow> fst e \<noteq> [] | None \<Rightarrow> False)"
      using Cons.prems(2) qs(2) by (auto simp: no_error_def split: option.splits)
    then have e: "chat_events (ev # evs) s = Inr (s', d1 @ ds)"
      using chunk Cons.prems(3) h r(1) by (simp add: Let_def)
    have "grows (?s, []) (all_content (all_choices rs)) (all_reasoning (all_choices rs)) (all_calls (all_choices rs)) (s', d1 @ ds)"
      using grows_join[OF one[THEN conjunct1] r(2)] qs(2) by simp
    then have "grows (s, []) (all_content (all_choices rs)) (all_reasoning (all_choices rs)) (all_calls (all_choices rs)) (s', d1 @ ds)"
      by (simp add: grows_def call_info_def call_keys_def)
    with e one r(3) qs(2) show ?thesis by (simp add: totals_def)
  qed
qed

section \<open>Streams of a reply\<close>

text \<open>
  What it takes for chunks to be a reply cut into pieces: the texts join to its texts; the fragments of each
  index join to one call's arguments, name it by its id and name and by nothing else, and no other index
  occurs; and what comes once, or is repeated, is never contradicted.
\<close>

definition says :: "string list \<Rightarrow> string \<Rightarrow> bool" where
  "says xs x \<longleftrightarrow> set xs - {[]} = {x} - {[]}"

definition streams_call :: "reply_call list \<Rightarrow> reply_call \<Rightarrow> bool" where
  "streams_call us u \<longleftrightarrow> us \<noteq> [] \<and> says (map rc_id us) (rc_id u) \<and> says (map rc_name us) (rc_name u) \<and>
     concat (map rc_args us) = rc_args u"

definition streams_reply :: "reply list \<Rightarrow> reply \<Rightarrow> choice \<Rightarrow> bool" where
  "streams_reply rs r c \<longleftrightarrow>
     (let cs = all_choices rs; us = all_calls cs; n = length (ch_calls c) in
      all_content cs = ch_content c \<and> all_reasoning cs = ch_reasoning c \<and>
      call_index ` set us \<subseteq> int ` {..<n} \<and>
      (\<forall>i<n. streams_call (fragments (int i) us) (ch_calls c ! i)) \<and>
      says (map ch_finish cs) (ch_finish c) \<and> says (map rp_model rs) (rp_model r) \<and>
      set (filter counts (map (\<lambda>r. to_usage (rp_usage r)) rs)) = {to_usage (rp_usage r)})"

lemma last_set_says: "says xs x \<Longrightarrow> last_set a xs = (if x = [] then a else x)"
  using last_such_only[of "\<lambda>x. x \<noteq> []" xs x a] last_such_none[of "\<lambda>x. x \<noteq> []" xs a]
  by (cases "x = []") (auto simp: says_def filter_empty_conv)

lemma foldl_add_info: "foldl add_info (t, n, a) us =
    (last_set t (map rc_id us), last_set n (map rc_name us), a @ concat (map rc_args us))"
  by (induction us arbitrary: t n a) (auto simp: add_info_def)

lemma streamed_call: "streams_call us u \<Longrightarrow> foldl add_info ([], [], []) us = (rc_id u, rc_name u, rc_args u)"
  by (auto simp: streams_call_def foldl_add_info last_set_says)

lemma sorted_range: "distinct xs \<Longrightarrow> set xs = int ` {..<n} \<Longrightarrow> sort xs = map int [0..<n]"
  by (rule sorted_distinct_set_unique) (auto simp: sorted_map distinct_map atLeast0LessThan intro!: sorted_wrt_mono_rel[OF _ sorted_upt])

lemma streamed_chat:
  assumes "streams_reply rs r c"
    and "grows (chat_start model, []) (all_content (all_choices rs)) (all_reasoning (all_choices rs)) (all_calls (all_choices rs)) (s, ds)"
    and "totals s = (last_set (cs_finish (chat_start model)) (map ch_finish (all_choices rs)),
      last_such counts (cs_usage (chat_start model)) (map (\<lambda>r. to_usage (rp_usage r)) rs),
      last_set (cs_model (chat_start model)) (map rp_model rs), k, d)"
  shows "chat_response s = \<lparr>rs_content = reply_content (ch_reasoning c) (ch_content c)
        (map (\<lambda>u. (rc_id u, rc_name u, rc_args u)) (ch_calls c)),
      rs_stop = stop_reason (ch_finish c), rs_usage = to_usage (rp_usage r),
      rs_model = (if rp_model r \<noteq> [] then rp_model r else model)\<rparr> \<and>
    delta_text ds = ch_content c \<and> (\<forall>i<length (ch_calls c). delta_args (int i) ds = rc_args (ch_calls c ! i))"
proof -
  let ?n = "length (ch_calls c)" and ?us = "all_calls (all_choices rs)"
  note f = assms(1)[unfolded streams_reply_def Let_def] and g = assms(2)[unfolded grows_def]
  have call: "foldl add_info ([], [], []) (fragments (int i) ?us) =
      (rc_id (ch_calls c ! i), rc_name (ch_calls c ! i), rc_args (ch_calls c ! i))"
    "concat (map rc_args (fragments (int i) ?us)) = rc_args (ch_calls c ! i)" "fragments (int i) ?us \<noteq> []"
    if "i < ?n" for i
    using f that streamed_call[of "fragments (int i) ?us" "ch_calls c ! i"] by (auto simp: streams_call_def)
  have "int i \<in> call_index ` set ?us" if "i < ?n" for i
    using call(3)[OF that] unfolding filter_empty_conv image_iff by metis
  with f have idx: "call_index ` set ?us = int ` {..<?n}" by blast
  have "call_keys (chat_start model) = []" by (simp add: call_keys_def chat_start_def)
  with g idx have "set (call_keys s) = int ` {..<?n}" "distinct (call_keys s)" by auto
  then have keys: "sort (map fst (cs_calls s)) = map int [0..<?n]" using sorted_range by (simp add: call_keys_def)
  have "call_info i (chat_start model) = ([], [], [])" for i
    by (simp add: call_info_def chat_start_def builder_at_def)
  with g call(1) have "call_info (int i) s = (rc_id (ch_calls c ! i), rc_name (ch_calls c ! i), rc_args (ch_calls c ! i))"
    if "i < ?n" for i using that by simp
  then have "map (\<lambda>i. call_info (int i) s) [0..<?n] = map (\<lambda>u. (rc_id u, rc_name u, rc_args u)) (ch_calls c)"
    by (intro nth_equalityI) auto
  then have calls: "map (\<lambda>i. call_info i s) (sort (map fst (cs_calls s))) = map (\<lambda>u. (rc_id u, rc_name u, rc_args u)) (ch_calls c)"
    by (simp add: keys comp_def)
  have said: "says (map ch_finish (all_choices rs)) (ch_finish c)" "says (map rp_model rs) (rp_model r)"
    using f by blast+
  have "cs_finish s = ch_finish c" "cs_usage s = to_usage (rp_usage r)"
    "cs_model s = (if rp_model r \<noteq> [] then rp_model r else model)"
    using assms(3) last_set_says[OF said(1)] last_set_says[OF said(2)] last_such_only[of counts] f
    by (simp_all add: totals_def chat_start_def)
  moreover have "cs_text s = ch_content c" "cs_reasoning s = ch_reasoning c" "delta_text ds = ch_content c"
    using g f by (simp_all add: chat_start_def)
  moreover have "\<forall>i<?n. delta_args (int i) ds = rc_args (ch_calls c ! i)" using g call(2) by simp
  ultimately show ?thesis using calls by (simp add: chat_response_def call_info_def)
qed

text \<open>C20: Streaming makes no difference: chunks that cut a reply into pieces, in any number and with the
  fragments of its calls interleaved in any way, are assembled into exactly the response the buffered decoder
  makes of that reply; and the sink is shown its text, and the arguments of each call under its index,
  whole and in order.\<close>

theorem chat_stream_matches_buffered:
  assumes "sse_read text fl = (evs, e)" and "chunks_of evs = (rs, d)" and "d \<or> e = None"
    and "\<forall>r\<in>set rs. no_error r" and "\<forall>ev\<in>set evs. to_lower (ev_type ev) \<noteq> ''error''"
    and "Option.bind (json_parse body) (struct_of (reply_of_fields False)) = Some r"
    and "no_error r" and "rp_choices r = c # others" and "streams_reply rs r c"
  shows "\<exists>resp ds. decode_response body None model = Inr resp \<and> decode_stream text fl model = Inr (resp, ds) \<and>
    delta_text ds = ch_content c \<and> (\<forall>i<length (ch_calls c). delta_args (int i) ds = rc_args (ch_calls c ! i))"
proof -
  obtain s ds where s: "chat_events evs (chat_start model) = Inr (s, ds)"
    "grows (chat_start model, []) (all_content (all_choices rs)) (all_reasoning (all_choices rs)) (all_calls (all_choices rs)) (s, ds)"
    "totals s = (last_set (cs_finish (chat_start model)) (map ch_finish (all_choices rs)),
      last_such counts (cs_usage (chat_start model)) (map (\<lambda>r. to_usage (rp_usage r)) rs),
      last_set (cs_model (chat_start model)) (map rp_model rs), cs_chunks (chat_start model) + length rs, d)"
    using chat_events_grow[OF assms(2,4,5), of "chat_start model"] by (auto simp: chat_start_def)
  note resp = streamed_chat[OF assms(9) s(2,3)]
  have "rs \<noteq> []" using assms(9) by (auto simp: streams_reply_def)
  then have "cs_chunks s \<noteq> 0" "cs_done s = d" using s(3) by (simp_all add: totals_def)
  with assms(1,3) s(1) have "decode_stream text fl model = Inr (chat_response s, ds)"
    by (auto simp: decode_stream_def)
  moreover have "decode_response body None model = Inr (chat_response s)"
    using assms(6-8) resp by (auto simp: decode_response_def no_error_def split: option.splits)
  ultimately show ?thesis using resp by blast
qed

definition chat_json :: "(string \<times> json) list \<Rightarrow> string \<Rightarrow> string \<Rightarrow> string \<Rightarrow> (string \<times> json) list \<Rightarrow> json" where
  "chat_json call key content fin tail = JObj ([(''model'', JStr ''m''), (''choices'', JArr [JObj [(key, JObj
     [(''content'', JStr content), (''tool_calls'', if call = [] then JNull else JArr [JObj call])]),
     (''finish_reason'', JStr fin)]])] @ tail)"

definition call_part :: "string \<Rightarrow> string \<Rightarrow> string \<Rightarrow> (string \<times> json) list" where
  "call_part t n a = [(''id'', JStr t), (''function'', JObj [(''name'', JStr n), (''arguments'', JStr a)])]"

definition chat_usage :: "(string \<times> json) list" where
  "chat_usage = [(''usage'', JObj [(''prompt_tokens'', JNum ''1''), (''completion_tokens'', JNum ''2'')])]"

definition chat_chunks :: "json list" where
  "chat_chunks =
    [chat_json [] ''delta'' ''o'' [] [], chat_json (call_part ''a'' ''f'' ''{'') ''delta'' [] [] [],
     chat_json (call_part [] [] ''}'') ''delta'' ''k'' ''tool_calls'' chat_usage]"

definition chat_body :: string where
  "chat_body = json_render (chat_json (call_part ''a'' ''f'' ''{}'') ''message'' ''ok'' ''tool_calls'' chat_usage)"

definition chat_writes :: "stream_write list" where
  "chat_writes = map (\<lambda>d. SendFrame 0 [] (Some d)) (map json_render chat_chunks @ [''[DONE]''])"

definition chat_call :: "string \<Rightarrow> string \<Rightarrow> string \<Rightarrow> reply_call" where
  "chat_call t n a = \<lparr>rc_index = None, rc_id = t, rc_name = n, rc_args = a\<rparr>"

definition chat_reply :: "string \<Rightarrow> string \<Rightarrow> reply_call list \<Rightarrow> oai_usage option \<Rightarrow> reply" where
  "chat_reply c fin us u = \<lparr>rp_model = ''m'',
     rp_choices = [\<lparr>ch_content = c, ch_reasoning = [], ch_calls = us, ch_finish = fin\<rparr>], rp_usage = u, rp_error = None\<rparr>"

definition chat_tokens :: oai_usage where
  "chat_tokens = \<lparr>ou_prompt = 1, ou_completion = 2, ou_cache_hit = 0, ou_cached = None, ou_reasoning = None\<rparr>"

definition chat_whole :: reply where
  "chat_whole = chat_reply ''ok'' ''tool_calls'' [chat_call ''a'' ''f'' ''{}''] (Some chat_tokens)"

definition chat_parts :: "reply list" where
  "chat_parts = [chat_reply ''o'' [] [] None, chat_reply [] [] [chat_call ''a'' ''f'' ''{''] None,
     chat_reply ''k'' ''tool_calls'' [chat_call [] [] ''}''] (Some chat_tokens)]"

definition chat_sse :: "sse_event list" where
  "chat_sse = map (\<lambda>d. \<lparr>ev_type = [], ev_data = d\<rparr>) (map json_render chat_chunks @ [''[DONE]''])"

lemma lower_chat_keys [simp]:
  "to_lower ''index'' = ''index''" "to_lower ''message'' = ''message''" "to_lower ''delta'' = ''delta''"
  "to_lower ''error'' = ''error''" "to_lower ''choices'' = ''choices''" "to_lower ''tool_calls'' = ''tool_calls''"
  "to_lower ''finish_reason'' = ''finish_reason''" "to_lower ''reasoning_content'' = ''reasoning_content''"
  "to_lower ''function'' = ''function''" "to_lower ''arguments'' = ''arguments''"
  "to_lower ''prompt_tokens'' = ''prompt_tokens''" "to_lower ''completion_tokens'' = ''completion_tokens''"
  "to_lower ''prompt_cache_hit_tokens'' = ''prompt_cache_hit_tokens''"
  "to_lower ''prompt_tokens_details'' = ''prompt_tokens_details''"
  "to_lower ''completion_tokens_details'' = ''completion_tokens_details''"
  by (simp_all add: to_lower_def to_lower_char_def)

lemmas chat_fields = chat_json_def call_part_def chat_usage_def chat_reply_def chat_call_def chat_tokens_def struct_of_def
  reply_of_fields_def choice_of_fields_def call_of_fields_def oai_usage_of_fields_def value_of_def field_content_def
  field_args_def content_text_def arg_string_def field_index_def field_str_def field_int_def pointer_of_def array_of_def
  small_ints all_some_def

lemma chat_decoded: "Option.bind (json_parse chat_body) (struct_of (reply_of_fields False)) = Some chat_whole"
proof -
  have "json_ok (chat_json (call_part ''a'' ''f'' ''{}'') ''message'' ''ok'' ''tool_calls'' chat_usage)" by code_simp
  then show ?thesis by (simp add: chat_body_def json_parse_render chat_whole_def) (simp add: chat_fields)
qed

lemma trim_object: "trim_space (json_render (JObj kvs)) = json_render (JObj kvs)"
  using render_members_last[of kvs] unfolding trim_space_def by (intro trim_by_id) (auto simp: is_space_def)

lemma chat_cut: "chunks_of chat_sse = (chat_parts, True)"
proof -
  have "list_all json_ok chat_chunks" by code_simp
  moreover have "map (struct_of (reply_of_fields True)) chat_chunks = map Some chat_parts"
    by (simp add: chat_chunks_def chat_parts_def chat_fields)
  moreover have "\<exists>kvs. j = JObj kvs" if "j \<in> set chat_chunks" for j
    using that by (auto simp: chat_chunks_def chat_json_def)
  moreover have "chunks_of (map (\<lambda>d. \<lparr>ev_type = [], ev_data = d\<rparr>) (map json_render js @ [''[DONE]''])) = (rs, True)"
    if "list_all json_ok js" "map (struct_of (reply_of_fields True)) js = map Some rs" "\<And>j. j \<in> set js \<Longrightarrow> \<exists>kvs. j = JObj kvs"
    for js rs using that
  proof (induction js arbitrary: rs)
    case Nil
    have "trim_space ''[DONE]'' = ''[DONE]''" by code_simp
    with Nil show ?case by simp
  next
    case (Cons j js)
    obtain kvs where j: "j = JObj kvs" using Cons.prems(3) by auto
    obtain r qs where "rs = r # qs" "struct_of (reply_of_fields True) j = Some r"
      "map (struct_of (reply_of_fields True)) js = map Some qs"
      using Cons.prems(2) by (cases rs) auto
    with Cons.IH[of qs] Cons.prems(1,3) trim_object[of kvs] j show ?case
      by (simp add: decode_chunk_def json_parse_render Let_def del: json_render.simps) simp
  qed
  ultimately show ?thesis unfolding chat_sse_def by blast
qed

lemma chat_fits: "list_all (\<lambda>d. length d < 400 \<and> NL \<notin> set d \<and> CR \<notin> set d) (map json_render chat_chunks @ [''[DONE]''])"
  by code_simp

lemma chat_streams: "streams_reply chat_parts chat_whole (hd (rp_choices chat_whole))"
  by (simp add: streams_reply_def chat_parts_def chat_whole_def chat_reply_def chat_call_def chat_tokens_def says_def
      streams_call_def call_index_def to_usage_def counts_def del: set_filter) auto

theorem chat_stream_matches_buffered_witness:
  "\<exists>resp ds. decode_response chat_body None [] = Inr resp \<and>
     decode_stream (stream_text chat_writes) None [] = Inr (resp, ds) \<and> delta_text ds = ''ok'' \<and>
     delta_args 0 ds = ''{}''"
proof -
  have "char_of (48 :: nat) = CHR ''0''" by code_simp
  with chat_fits have ok: "list_all write_ok chat_writes"
    by (auto simp: chat_writes_def list_all_iff write_ok_def frame_lines_def line_ok_def max_line_def itoa.simps)
  have "concat (map event_of (map (\<lambda>d. SendFrame 0 [] (Some d)) xs)) = map (\<lambda>d. \<lparr>ev_type = [], ev_data = d\<rparr>) xs" for xs
    by (induction xs) simp_all
  then have "concat (map event_of chat_writes) = chat_sse" by (simp only: chat_writes_def chat_sse_def)
  with stream_read_back[of chat_writes Ping "[]" "write_text Ping"] ok
  have evs: "sse_read (stream_text chat_writes) None = (chat_sse, None)"
    by (simp add: write_ok_def frame_lines_def write_text_def line_ok_def max_line_def)
  have "\<forall>r\<in>set chat_parts. no_error r" "no_error chat_whole" "\<forall>ev\<in>set chat_sse. to_lower (ev_type ev) \<noteq> ''error''"
    by (simp_all add: chat_parts_def chat_whole_def chat_reply_def no_error_def chat_sse_def to_lower_def)
  moreover have "rp_choices chat_whole = hd (rp_choices chat_whole) # []"
    by (simp add: chat_whole_def chat_reply_def)
  ultimately show ?thesis
    using chat_stream_matches_buffered[OF evs chat_cut _ _ _ chat_decoded _ _ chat_streams, where model = "[]"]
    by (simp add: chat_whole_def chat_reply_def chat_call_def)
qed

end
