(* ===== verification/Metric.thy ===== *)
theory Metric
  imports Tool "HOL-Library.AList" "HOL-Library.Product_Lexorder"
begin

text \<open>
  The instruments of \<^verbatim>\<open>metric/metric.go\<close>: a registry of counters, gauges and histograms, the label
  sets of each and the cap on their number. Each operation of an instrument is one step; the lock-free
  addition is a step relation of its own. A float64 is a real number, an infinity or NaN, without
  rounding; the counts of a histogram are 64-bit words.
\<close>

section \<open>Floating-point values\<close>

datatype fl = Fin real | PosInf | NegInf | NaN

instantiation fl :: comm_monoid_add
begin

definition zero_fl :: fl where "zero_fl = Fin 0"

fun plus_fl :: "fl \<Rightarrow> fl \<Rightarrow> fl" where
  "plus_fl (Fin a) (Fin b) = Fin (a + b)"
| "plus_fl NaN y = NaN"
| "plus_fl x NaN = NaN"
| "plus_fl PosInf NegInf = NaN"
| "plus_fl NegInf PosInf = NaN"
| "plus_fl PosInf y = PosInf"
| "plus_fl x PosInf = PosInf"
| "plus_fl NegInf y = NegInf"
| "plus_fl x NegInf = NegInf"

instance
proof
  fix a b c :: fl
  show "a + b + c = a + (b + c)" by (cases a; cases b; cases c) simp_all
  show "a + b = b + a" by (cases a; cases b) simp_all
  show "0 + a = a" by (cases a) (simp_all add: zero_fl_def)
qed

end

text \<open>The order of \<^verbatim>\<open>slices.Sort\<close>: NaN first; without it, the order of the operators.\<close>

fun fl_rank :: "fl \<Rightarrow> nat \<times> real" where
  "fl_rank NaN = (0, 0)"
| "fl_rank NegInf = (1, 0)"
| "fl_rank (Fin r) = (2, r)"
| "fl_rank PosInf = (3, 0)"

lemma fl_rank_inject [simp]: "fl_rank x = fl_rank y \<longleftrightarrow> x = y"
  by (cases x; cases y) simp_all

instantiation fl :: linorder
begin

definition less_eq_fl :: "fl \<Rightarrow> fl \<Rightarrow> bool" where "less_eq_fl x y \<longleftrightarrow> fl_rank x \<le> fl_rank y"

definition less_fl :: "fl \<Rightarrow> fl \<Rightarrow> bool" where "less_fl x y \<longleftrightarrow> fl_rank x < fl_rank y"

instance
  by standard (auto simp: less_eq_fl_def less_fl_def less_le)

end

section \<open>Labels\<close>

record metric_label =
  lb_key :: string
  lb_value :: string

abbreviation MaxSeries :: nat where "MaxSeries \<equiv> 256"

abbreviation MaxLabelValueBytes :: nat where "MaxLabelValueBytes \<equiv> 128"

definition is_letter :: "char \<Rightarrow> bool" where
  "is_letter c = (let n = of_char c :: nat in 97 \<le> n \<and> n \<le> 122 \<or> 65 \<le> n \<and> n \<le> 90 \<or> c = CHR ''_'')"

definition is_digit_byte :: "char \<Rightarrow> bool" where
  "is_digit_byte c = (let n = of_char c :: nat in 48 \<le> n \<and> n \<le> 57)"

definition sanitize_label_name :: "string \<Rightarrow> string" where
  "sanitize_label_name s = (case s of [] \<Rightarrow> []
   | c # cs \<Rightarrow> (if is_letter c then c else CHR ''_'') #
       map (\<lambda>c. if is_letter c \<or> is_digit_byte c then c else CHR ''_'') cs)"

definition valid_metric_name :: "string \<Rightarrow> bool" where
  "valid_metric_name s = (case s of [] \<Rightarrow> False
   | c # cs \<Rightarrow> (is_letter c \<or> c = CHR '':'') \<and>
       list_all (\<lambda>c. is_letter c \<or> is_digit_byte c \<or> c = CHR '':'') cs)"

definition metric_truncate :: "string \<Rightarrow> nat \<Rightarrow> string" where
  "metric_truncate s n = (if length s \<le> n then s else take (boundary_from s n) s)"

text \<open>Of equal neighbours the last stays.\<close>

fun last_wins :: "metric_label list \<Rightarrow> metric_label list" where
  "last_wins (l # k # ls) = (if lb_key k = lb_key l then last_wins (k # ls) else l # last_wins (k # ls))"
| "last_wins ls = ls"

definition label_part :: "string \<Rightarrow> string" where
  "label_part s = itoa (length s) @ CHR '':'' # s"

definition label_key :: "metric_label list \<Rightarrow> string" where
  "label_key ls = concat (map (\<lambda>l. label_part (lb_key l) @ label_part (lb_value l)) ls)"

definition clean_label :: "metric_label \<Rightarrow> metric_label option" where
  "clean_label l = (let name = sanitize_label_name (lb_key l) in
     if name = [] then None else Some \<lparr>lb_key = name, lb_value = metric_truncate (lb_value l) MaxLabelValueBytes\<rparr>)"

definition canonicalize :: "metric_label list \<Rightarrow> metric_label list \<times> string" where
  "canonicalize ls = (let kept = last_wins (sort_key lb_key (List.map_filter clean_label ls)) in (kept, label_key kept))"

definition overflow_labels :: "metric_label list" where
  "overflow_labels = [\<lparr>lb_key = ''overflow'', lb_value = ''true''\<rparr>]"

definition overflow_key :: string where
  "overflow_key = label_key overflow_labels"

section \<open>Instruments\<close>

datatype metric_type = CounterType | GaugeType | HistogramType

record series =
  sr_labels :: "metric_label list"
  sr_value :: fl
  sr_counts :: "64 word list"
  sr_sum :: fl
  sr_count :: "64 word"

record vec =
  vc_name :: string
  vc_help :: string
  vc_type :: metric_type
  vc_buckets :: "fl list"
  vc_children :: "(string \<times> series) list"

definition normalize_buckets :: "fl list \<Rightarrow> fl list" where
  "normalize_buckets bs = remdups_adj (sort (filter (\<lambda>b. b \<noteq> NaN \<and> b \<noteq> PosInf) bs))"

definition new_series :: "vec \<Rightarrow> metric_label list \<Rightarrow> series" where
  "new_series v ls = \<lparr>sr_labels = ls, sr_value = 0,
     sr_counts = (if vc_type v = HistogramType then replicate (length (vc_buckets v) + 1) 0 else []),
     sr_sum = 0, sr_count = 0\<rparr>"

definition vec_get :: "metric_label list \<Rightarrow> vec \<Rightarrow> vec \<times> string" where
  "vec_get ls v =
     (let (canon, key) = canonicalize ls; kids = vc_children v in
      if map_of kids key \<noteq> None then (v, key)
      else if length kids \<ge> MaxSeries then
        (if map_of kids overflow_key \<noteq> None then (v, overflow_key)
         else (v\<lparr>vc_children := (overflow_key, new_series v overflow_labels) # kids\<rparr>, overflow_key))
      else (v\<lparr>vc_children := (key, new_series v canon) # kids\<rparr>, key))"

definition on_series :: "metric_label list \<Rightarrow> (series \<Rightarrow> series) \<Rightarrow> vec \<Rightarrow> vec" where
  "on_series ls f v = (case vec_get ls v of (v, key) \<Rightarrow> v\<lparr>vc_children := AList.map_entry key f (vc_children v)\<rparr>)"

definition counter_add :: "fl \<Rightarrow> metric_label list \<Rightarrow> vec \<Rightarrow> vec" where
  "counter_add x ls v = (if x < 0 \<or> x = NaN then v else on_series ls (\<lambda>s. s\<lparr>sr_value := sr_value s + x\<rparr>) v)"

definition counter_inc :: "metric_label list \<Rightarrow> vec \<Rightarrow> vec" where
  "counter_inc ls v = counter_add (Fin 1) ls v"

definition gauge_set :: "fl \<Rightarrow> metric_label list \<Rightarrow> vec \<Rightarrow> vec" where
  "gauge_set x ls v = (if x = NaN then v else on_series ls (\<lambda>s. s\<lparr>sr_value := x\<rparr>) v)"

definition gauge_add :: "fl \<Rightarrow> metric_label list \<Rightarrow> vec \<Rightarrow> vec" where
  "gauge_add x ls v = (if x = NaN then v else on_series ls (\<lambda>s. s\<lparr>sr_value := sr_value s + x\<rparr>) v)"

text \<open>\<^verbatim>\<open>sort.SearchFloat64s\<close>: the least index whose element is not below the value.\<close>

definition search_floats :: "fl list \<Rightarrow> fl \<Rightarrow> nat" where
  "search_floats bs x = length (takeWhile (\<lambda>b. b < x) bs)"

definition count_in :: "nat \<Rightarrow> fl \<Rightarrow> series \<Rightarrow> series" where
  "count_in i x s = s\<lparr>sr_counts := (sr_counts s)[i := sr_counts s ! i + 1], sr_sum := sr_sum s + x,
     sr_count := sr_count s + 1\<rparr>"

definition observe :: "fl \<Rightarrow> metric_label list \<Rightarrow> vec \<Rightarrow> vec" where
  "observe x ls v = (if x = NaN then v else on_series ls (count_in (search_floats (vc_buckets v) x) x) v)"

section \<open>The registry\<close>

type_synonym metric_registry = "(string \<times> vec) list"

text \<open>A panic is \<^const>\<open>None\<close>.\<close>

definition register :: "string \<Rightarrow> string \<Rightarrow> metric_type \<Rightarrow> fl list \<Rightarrow> metric_registry \<Rightarrow> metric_registry option" where
  "register name help typ bs r =
     (if \<not> valid_metric_name name then None
      else case map_of r name of
        None \<Rightarrow> Some ((name, \<lparr>vc_name = name, vc_help = help, vc_type = typ, vc_buckets = bs, vc_children = []\<rparr>) # r)
      | Some v \<Rightarrow> if vc_type v = typ then Some r else None)"

definition reg_counter :: "string \<Rightarrow> string \<Rightarrow> metric_registry \<Rightarrow> metric_registry option" where
  "reg_counter name help r = register name help CounterType [] r"

definition reg_gauge :: "string \<Rightarrow> string \<Rightarrow> metric_registry \<Rightarrow> metric_registry option" where
  "reg_gauge name help r = register name help GaugeType [] r"

definition reg_histogram :: "string \<Rightarrow> string \<Rightarrow> fl list \<Rightarrow> metric_registry \<Rightarrow> metric_registry option" where
  "reg_histogram name help bs r = register name help HistogramType (normalize_buckets bs) r"

record sample =
  sm_name :: string
  sm_help :: string
  sm_type :: metric_type
  sm_labels :: "metric_label list"
  sm_value :: fl
  sm_buckets :: "(fl \<times> 64 word) list"
  sm_sum :: fl
  sm_count :: "64 word"

fun cumulative :: "64 word \<Rightarrow> fl list \<Rightarrow> 64 word list \<Rightarrow> (fl \<times> 64 word) list" where
  "cumulative n (b # bs) (c # cs) = (b, n + c) # cumulative (n + c) bs cs"
| "cumulative n bs cs = []"

definition snapshot_one :: "vec \<Rightarrow> series \<Rightarrow> sample" where
  "snapshot_one v s =
     (if vc_type v \<noteq> HistogramType
      then \<lparr>sm_name = vc_name v, sm_help = vc_help v, sm_type = vc_type v, sm_labels = sr_labels s,
            sm_value = sr_value s, sm_buckets = [], sm_sum = 0, sm_count = 0\<rparr>
      else \<lparr>sm_name = vc_name v, sm_help = vc_help v, sm_type = vc_type v, sm_labels = sr_labels s,
            sm_value = 0, sm_buckets = cumulative 0 (vc_buckets v) (sr_counts s) @ [(PosInf, sr_count s)],
            sm_sum = sr_sum s, sm_count = sr_count s\<rparr>)"

definition vec_samples :: "vec \<Rightarrow> sample list" where
  "vec_samples v = map (\<lambda>(_, s). snapshot_one v s) (vc_children v)"

definition compare :: "'a::linorder \<Rightarrow> 'a \<Rightarrow> int" where
  "compare x y = (if x < y then -1 else if y < x then 1 else 0)"

fun compare_labels :: "metric_label list \<Rightarrow> metric_label list \<Rightarrow> int" where
  "compare_labels (a # as) (b # bs) =
     (let c = compare (lb_key a) (lb_key b); d = compare (lb_value a) (lb_value b) in
      if c \<noteq> 0 then c else if d \<noteq> 0 then d else compare_labels as bs)"
| "compare_labels as bs = compare (length as) (length bs)"

definition compare_series :: "sample \<Rightarrow> sample \<Rightarrow> int" where
  "compare_series a b = (let c = compare (sm_name a) (sm_name b) in
     if c \<noteq> 0 then c else compare_labels (sm_labels a) (sm_labels b))"

definition series_key :: "sample \<Rightarrow> string \<times> (string \<times> string) list" where
  "series_key s = (sm_name s, map (\<lambda>l. (lb_key l, lb_value l)) (sm_labels s))"

text \<open>The order of the snapshot is the one of the keys, which is what the comparison computes.\<close>

definition snapshot :: "metric_registry \<Rightarrow> sample list" where
  "snapshot r = sort_key series_key (concat (map (\<lambda>(_, v). vec_samples v) r))"

lemma Nil_less_map [simp]: "[] < map f xs \<longleftrightarrow> xs \<noteq> []"
  for f :: "'a \<Rightarrow> 'b::linorder"
  by (cases xs) simp_all

lemma compare_labels_key:
  "compare_labels as bs = compare (map (\<lambda>l. (lb_key l, lb_value l)) as) (map (\<lambda>l. (lb_key l, lb_value l)) bs)"
  by (induction as bs rule: compare_labels.induct) (auto simp: compare_def Let_def less_prod_def')

lemma compare_series_key: "compare_series a b = compare (series_key a) (series_key b)"
  by (auto simp: compare_series_def compare_labels_key series_key_def compare_def Let_def less_prod_def')

section \<open>Label keys\<close>

lemma itoa_decimal: "list_all is_digit_byte (itoa n)"
proof (induction n rule: less_induct)
  case (less n)
  have digit: "is_digit_byte (digit_char d)" if "d < 10" for d
    using that by (simp add: is_digit_byte_def)
  show ?case
  proof (cases "n < 10")
    case True
    then show ?thesis by (subst itoa.simps) (simp add: digit del: digit_char.simps)
  next
    case False
    then show ?thesis by (subst itoa.simps) (simp add: digit less.IH del: digit_char.simps)
  qed
qed

lemma label_part_split:
  assumes "label_part s @ x = label_part t @ y"
  shows "s = t \<and> x = y"
proof -
  have colon: "\<not> is_digit_byte CHR '':''" by (simp add: is_digit_byte_def)
  have cut: "takeWhile is_digit_byte (label_part s @ x) = itoa (length s)"
    "dropWhile is_digit_byte (label_part s @ x) = CHR '':'' # s @ x" for s x
    using itoa_decimal[of "length s"] colon by (simp_all add: label_part_def list_all_iff takeWhile_append2 dropWhile_append2)
  from cut(1)[of s x] cut(1)[of t y] assms have "length s = length t" by (simp add: itoa_inject)
  moreover from cut(2)[of s x] cut(2)[of t y] assms have "s @ x = t @ y" by simp
  ultimately show ?thesis by simp
qed

lemma label_key_inject: "label_key ls = label_key ks \<longleftrightarrow> ls = ks"
proof (induction ls arbitrary: ks)
  case Nil
  then show ?case by (cases ks) (simp_all add: label_key_def label_part_def)
next
  case (Cons l ls)
  show ?case
  proof (cases ks)
    case Nil
    then show ?thesis by (simp add: label_key_def label_part_def)
  next
    case (Cons k ks')
    have "label_key (l # ls) = label_key (k # ks') \<Longrightarrow> l = k \<and> label_key ls = label_key ks'"
      unfolding label_key_def by (auto dest!: label_part_split)
    with Cons.IH[of ks'] Cons show ?thesis by auto
  qed
qed

section \<open>Uses of a registry\<close>

text \<open>A call on an instrument goes through a handle, which its registration gave.\<close>

datatype metric_op =
    RegCounter string string
  | RegGauge string string
  | RegHistogram string string "fl list"
  | AddCounter string fl "metric_label list"
  | SetGauge string fl "metric_label list"
  | AddGauge string fl "metric_label list"
  | Observe string fl "metric_label list"

definition on_vec :: "string \<Rightarrow> metric_type \<Rightarrow> (vec \<Rightarrow> vec) \<Rightarrow> metric_registry \<Rightarrow> metric_registry option" where
  "on_vec n t f r = (case map_of r n of
     Some v \<Rightarrow> if vc_type v = t then Some (AList.update n (f v) r) else None
   | None \<Rightarrow> None)"

fun metric_step :: "metric_op \<Rightarrow> metric_registry \<Rightarrow> metric_registry option" where
  "metric_step (RegCounter n h) r = reg_counter n h r"
| "metric_step (RegGauge n h) r = reg_gauge n h r"
| "metric_step (RegHistogram n h bs) r = reg_histogram n h bs r"
| "metric_step (AddCounter n x ls) r = on_vec n CounterType (counter_add x ls) r"
| "metric_step (SetGauge n x ls) r = on_vec n GaugeType (gauge_set x ls) r"
| "metric_step (AddGauge n x ls) r = on_vec n GaugeType (gauge_add x ls) r"
| "metric_step (Observe n x ls) r = on_vec n HistogramType (observe x ls) r"

definition metric_run :: "metric_op list \<Rightarrow> metric_registry option" where
  "metric_run ops = foldl (\<lambda>r op. Option.bind r (metric_step op)) (Some []) ops"

text \<open>What counts as recorded under a name.\<close>

fun recorded_by :: "string \<Rightarrow> metric_op \<Rightarrow> (metric_label list \<times> fl) list" where
  "recorded_by n (AddCounter m x ls) = (if m = n \<and> \<not> (x < 0 \<or> x = NaN) then [(ls, x)] else [])"
| "recorded_by n (Observe m x ls) = (if m = n \<and> x \<noteq> NaN then [(ls, x)] else [])"
| "recorded_by n _ = []"

definition recorded :: "string \<Rightarrow> metric_op list \<Rightarrow> (metric_label list \<times> fl) list" where
  "recorded n ops = concat (map (recorded_by n) ops)"

section \<open>What an instrument holds\<close>

text \<open>
  Each series accounts for a list of records: its value is their sum, its counts are theirs; and a record
  is in the series of its own labels, or in the shared one once the instrument is full.
\<close>

type_synonym records = "(metric_label list \<times> fl) list"

definition good_buckets :: "fl list \<Rightarrow> bool" where
  "good_buckets bs \<longleftrightarrow> sorted bs \<and> NaN \<notin> set bs \<and> PosInf \<notin> set bs"

definition holds_records :: "vec \<Rightarrow> series \<Rightarrow> records \<Rightarrow> bool" where
  "holds_records v s g \<longleftrightarrow>
     (vc_type v = CounterType \<longrightarrow> sr_value s = sum_list (map snd g)) \<and>
     (vc_type v = HistogramType \<longrightarrow> sr_sum s = sum_list (map snd g) \<and> sr_count s = of_nat (length g) \<and>
        sr_counts s = map (\<lambda>i. of_nat (length (filter (\<lambda>p. search_floats (vc_buckets v) (snd p) = i) g)))
          [0..<length (vc_buckets v) + 1])"

definition places :: "vec \<Rightarrow> series \<Rightarrow> records \<Rightarrow> bool" where
  "places v s g \<longleftrightarrow> (\<forall>p\<in>set g. sr_labels s = fst (canonicalize (fst p)) \<or>
     sr_labels s = overflow_labels \<and> length (vc_children v) \<ge> MaxSeries)"

definition clean_name :: "string \<Rightarrow> bool" where
  "clean_name s \<longleftrightarrow> s \<noteq> [] \<and> is_letter (hd s) \<and> list_all (\<lambda>c. is_letter c \<or> is_digit_byte c) s"

definition canonical :: "metric_label list \<Rightarrow> bool" where
  "canonical ls \<longleftrightarrow> sorted (map lb_key ls) \<and> distinct (map lb_key ls) \<and>
     (\<forall>l\<in>set ls. clean_name (lb_key l) \<and> length (lb_value l) \<le> MaxLabelValueBytes)"

definition vec_ok :: "vec \<Rightarrow> bool" where
  "vec_ok v \<longleftrightarrow> distinct (map fst (vc_children v)) \<and> good_buckets (vc_buckets v) \<and>
     (\<forall>(k, s)\<in>set (vc_children v). k = label_key (sr_labels s) \<and> canonical (sr_labels s)) \<and>
     length (vc_children v) \<le> MaxSeries + 1 \<and>
     (length (vc_children v) > MaxSeries \<longrightarrow> overflow_key \<in> fst ` set (vc_children v))"

definition accounts :: "vec \<Rightarrow> (string \<Rightarrow> records) \<Rightarrow> records \<Rightarrow> bool" where
  "accounts v G rs \<longleftrightarrow> mset (concat (map (G \<circ> fst) (vc_children v))) = mset rs \<and>
     (\<forall>(k, s)\<in>set (vc_children v). holds_records v s (G k) \<and> places v s (G k))"

lemma clean_sanitized: "sanitize_label_name s \<noteq> [] \<Longrightarrow> clean_name (sanitize_label_name s)"
proof -
  have "is_letter CHR ''_''" by (simp add: is_letter_def)
  then show "sanitize_label_name s \<noteq> [] \<Longrightarrow> ?thesis"
    by (auto simp: sanitize_label_name_def clean_name_def list_all_iff split: list.splits)
qed

lemma metric_truncate_length: "length (metric_truncate s n) \<le> n"
proof -
  have "boundary_from s n \<le> n" by (induction n) auto
  then show ?thesis by (auto simp: metric_truncate_def)
qed

lemma last_wins_set: "set (last_wins ls) \<subseteq> set ls"
  by (induction ls rule: last_wins.induct) auto

lemma last_wins_hd: "ls \<noteq> [] \<Longrightarrow> last_wins ls \<noteq> [] \<and> lb_key (hd (last_wins ls)) = lb_key (hd ls)"
  by (induction ls rule: last_wins.induct) auto

lemma last_wins_sorted:
  "sorted (map lb_key ls) \<Longrightarrow> sorted (map lb_key (last_wins ls)) \<and> distinct (map lb_key (last_wins ls))"
proof (induction ls rule: last_wins.induct)
  case (1 l k ls)
  show ?case
  proof (cases "lb_key k = lb_key l")
    case False
    have "lb_key l < lb_key x" if "x \<in> set (last_wins (k # ls))" for x
    proof -
      have "lb_key l < lb_key k" using 1(3) False by (simp add: less_le)
      also have "lb_key k \<le> lb_key x" using that 1(3) last_wins_set[of "k # ls"] by auto
      finally show ?thesis .
    qed
    with False 1 show ?thesis by (force simp: less_le)
  qed (use 1 in simp)
qed simp_all

lemma canonicalize_canonical: "canonical (fst (canonicalize ls))"
proof -
  have "clean_name (lb_key l) \<and> length (lb_value l) \<le> MaxLabelValueBytes" if "l \<in> set (List.map_filter clean_label ls)" for l
    using that clean_sanitized metric_truncate_length
    by (auto simp: List.map_filter_def clean_label_def Let_def split: if_splits)
  then show ?thesis
    using last_wins_sorted[of "sort_key lb_key (List.map_filter clean_label ls)"]
      last_wins_set[of "sort_key lb_key (List.map_filter clean_label ls)"]
    by (auto simp: canonical_def canonicalize_def Let_def)
qed

lemma canonical_overflow: "canonical overflow_labels"
  by (simp add: canonical_def overflow_labels_def) code_simp

lemma vec_getE:
  assumes "vec_ok v"
  obtains (old) k where "vec_get ls v = (v, k)" "k \<in> fst ` set (vc_children v)"
      "k = label_key (fst (canonicalize ls)) \<or> k = overflow_key \<and> length (vc_children v) \<ge> MaxSeries"
  | (new) k canon where "vec_get ls v = (v\<lparr>vc_children := (k, new_series v canon) # vc_children v\<rparr>, k)"
      "k \<notin> fst ` set (vc_children v)" "k = label_key canon" "length (vc_children v) \<le> MaxSeries"
      "length (vc_children v) = MaxSeries \<longrightarrow> k = overflow_key"
      "canon = fst (canonicalize ls) \<or> canon = overflow_labels \<and> length (vc_children v) \<ge> MaxSeries"
proof -
  obtain canon where c: "canonicalize ls = (canon, label_key canon)" by (simp add: canonicalize_def Let_def)
  let ?kids = "vc_children v" and ?key = "label_key canon"
  have mem: "map_of ?kids k = None \<longleftrightarrow> k \<notin> fst ` set ?kids" for k by (simp add: map_of_eq_None_iff)
  consider (known) "?key \<in> fst ` set ?kids" | (room) "?key \<notin> fst ` set ?kids" "\<not> MaxSeries \<le> length ?kids"
    | (full) "?key \<notin> fst ` set ?kids" "MaxSeries \<le> length ?kids" "overflow_key \<in> fst ` set ?kids"
    | (last) "?key \<notin> fst ` set ?kids" "MaxSeries \<le> length ?kids" "overflow_key \<notin> fst ` set ?kids" by blast
  then show thesis
  proof cases
    case known
    then have "vec_get ls v = (v, ?key)" unfolding vec_get_def c Let_def prod.case mem by simp
    then show thesis by (rule old) (use known c in simp_all)
  next
    case room
    then have "vec_get ls v = (v\<lparr>vc_children := (?key, new_series v canon) # ?kids\<rparr>, ?key)"
      unfolding vec_get_def c Let_def prod.case mem by simp
    then show thesis by (rule new) (use room c in simp_all)
  next
    case full
    then have "vec_get ls v = (v, overflow_key)" unfolding vec_get_def c Let_def prod.case mem by simp
    then show thesis by (rule old) (use full in simp_all)
  next
    case last
    then have get: "vec_get ls v = (v\<lparr>vc_children := (overflow_key, new_series v overflow_labels) # ?kids\<rparr>, overflow_key)"
      unfolding vec_get_def c Let_def prod.case mem by simp
    have le: "length ?kids \<le> MaxSeries" using assms last(3) by (auto simp: vec_ok_def)
    from get show thesis by (rule new) (use last le in \<open>simp_all add: overflow_key_def\<close>)
  qed
qed

text \<open>
  An update that adds one record to the series it finds keeps the accounts; one that adds none, as a gauge
  does, keeps the instrument well-formed.
\<close>

lemma new_series_holds: "holds_records v (new_series v ls) []"
proof -
  have "replicate n x = map (\<lambda>i. x) [0..<n]" for n and x :: "64 word" by (simp add: map_replicate_trivial)
  then show ?thesis by (simp add: holds_records_def new_series_def)
qed

lemma map_entry_set: "distinct (map fst kids) \<Longrightarrow>
    set (AList.map_entry k f kids) = (\<lambda>(j, s). (j, if j = k then f s else s)) ` set kids"
proof (induction kids)
  case (Cons p kids)
  obtain j s where p: "p = (j, s)" by force
  have "(\<lambda>(j, s). (j, if j = k then f s else s)) x = x" if "k \<notin> fst ` set kids" "x \<in> set kids" for x
    using that by (cases x) force
  with Cons p show ?case by (cases "j = k") (auto simp: image_iff)
qed simp

lemma map_entry_length [simp]: "length (AList.map_entry k f kids) = length kids"
  by (induction kids) auto

lemma map_entry_keys: "map fst (AList.map_entry k f kids) = map fst kids"
  by (induction kids) auto

lemma concat_at_key:
  assumes "distinct ks" and "k \<in> set ks"
  shows "mset (concat (map (G(k := G k @ d)) ks)) = mset (concat (map G ks)) + mset d"
  using assms
proof (induction ks)
  case (Cons j ks)
  show ?case
  proof (cases "k = j")
    case True
    with Cons.prems have same: "map (G(k := G k @ d)) ks = map G ks" by simp
    show ?thesis unfolding list.map same[unfolded True] True by simp
  next
    case False
    with Cons show ?thesis by simp
  qed
qed simp

lemma concat_off_keys: "k \<notin> fst ` set kids \<Longrightarrow> map ((G(k := d)) \<circ> fst) kids = map (G \<circ> fst) kids"
  by (induction kids) auto

lemma vec_get_keeps:
  assumes "vec_ok v" and "accounts v G rs"
  obtains v1 k s G1 where "vec_get ls v = (v1, k)" "vec_ok v1" "accounts v1 G1 rs" "(k, s) \<in> set (vc_children v1)"
    "sr_labels s = fst (canonicalize ls) \<or> sr_labels s = overflow_labels \<and> length (vc_children v1) \<ge> MaxSeries"
    "vc_children v1 = vc_children v \<or> vc_children v1 = (k, s) # vc_children v"
    "v1 = v\<lparr>vc_children := vc_children v1\<rparr>"
  using assms(1)
proof (cases rule: vec_getE[of v ls])
  case (old k)
  then obtain s where s: "(k, s) \<in> set (vc_children v)" by auto
  with assms(1) have "k = label_key (sr_labels s)" by (auto simp: vec_ok_def)
  with old(3) have "sr_labels s = fst (canonicalize ls) \<or> sr_labels s = overflow_labels \<and> length (vc_children v) \<ge> MaxSeries"
    by (simp add: label_key_inject overflow_key_def)
  then show thesis by (intro that[of v k G s] old(1) assms s) simp_all
next
  case (new k canon)
  let ?v = "v\<lparr>vc_children := (k, new_series v canon) # vc_children v\<rparr>"
  have "vec_ok ?v"
    using assms(1) new canonicalize_canonical canonical_overflow by (auto simp: vec_ok_def new_series_def)
  moreover have "accounts ?v (G(k := [])) rs"
  proof -
    have "holds_records ?v s g \<longleftrightarrow> holds_records v s g" for s g by (simp add: holds_records_def)
    moreover have "places v s g \<Longrightarrow> places ?v s g" for s g by (auto simp: places_def)
    moreover have "places ?v s []" for s by (simp add: places_def)
    moreover have "j \<noteq> k" if "(j, s) \<in> set (vc_children v)" for j s using new(2) that by force
    ultimately show ?thesis
      using assms(2) new(2) new_series_holds[of v canon] by (auto simp: accounts_def concat_off_keys)
  qed
  ultimately show thesis
    using new(6) by (intro that[of ?v k "G(k := [])" "new_series v canon"] new(1)) (auto simp: new_series_def)
qed

lemma on_series_keeps:
  assumes "vec_ok v" and "accounts v G rs"
    and f: "\<And>s. sr_labels (f s) = sr_labels s" "\<And>s g. holds_records v s g \<Longrightarrow> holds_records v (f s) (g @ d)"
    and d: "\<And>p. p \<in> set d \<Longrightarrow> fst p = ls"
  shows "vec_ok (on_series ls f v) \<and> (\<exists>G'. accounts (on_series ls f v) G' (rs @ d))"
proof -
  obtain v1 k s G1 where g: "vec_get ls v = (v1, k)" "vec_ok v1" "accounts v1 G1 rs" "(k, s) \<in> set (vc_children v1)"
    "sr_labels s = fst (canonicalize ls) \<or> sr_labels s = overflow_labels \<and> length (vc_children v1) \<ge> MaxSeries"
    "v1 = v\<lparr>vc_children := vc_children v1\<rparr>"
    using vec_get_keeps[OF assms(1,2), of ls] by metis
  let ?kids = "vc_children v1"
  let ?v = "v1\<lparr>vc_children := AList.map_entry k f ?kids\<rparr>" and ?G = "G1(k := G1 k @ d)"
  have ov: "on_series ls f v = ?v" by (simp add: on_series_def g(1))
  have dist: "distinct (map fst ?kids)" using g(2) by (simp add: vec_ok_def)
  note ents = map_entry_set[OF dist, of k f]
  have "overflow_key \<in> fst ` set (AList.map_entry k f ?kids) \<longleftrightarrow> overflow_key \<in> fst ` set ?kids"
    using map_entry_keys[of k f ?kids] by (metis set_map)
  then have ok: "vec_ok ?v" using g(2) f(1) by (auto simp: vec_ok_def map_entry_keys ents)
  have same: "holds_records ?v s g \<longleftrightarrow> holds_records v s g" "holds_records v1 s g \<longleftrightarrow> holds_records v s g" for s g
    by (subst g(6), simp add: holds_records_def)+
  have "k \<in> set (map fst ?kids)" using g(4) by force
  from concat_at_key[OF dist this, of G1 d] have "mset (concat (map (?G \<circ> fst) (vc_children ?v))) = mset (rs @ d)"
    using g(3) map_entry_keys[of k f ?kids] by (simp add: accounts_def flip: map_map)
  moreover have "holds_records ?v t (?G j) \<and> places ?v t (?G j)" if jt: "(j, t) \<in> set (vc_children ?v)" for j t
  proof -
    obtain t0 where t0: "(j, t0) \<in> set ?kids" "t = (if j = k then f t0 else t0)" using jt ents by auto
    have h: "holds_records v t0 (G1 j)" "places v1 t0 (G1 j)" using g(3) t0(1) same by (auto simp: accounts_def)
    have "j = k \<Longrightarrow> t0 = s" using t0(1) g(4) dist by (auto simp: eq_key_imp_eq_value)
    with h t0 f g(5) d same show ?thesis by (auto simp: places_def)
  qed
  ultimately show ?thesis unfolding ov using ok by (intro conjI exI[of _ ?G]) (auto simp: accounts_def)
qed

lemma on_series_fields [simp]:
  "vc_name (on_series ls f v) = vc_name v" "vc_type (on_series ls f v) = vc_type v"
  "vc_buckets (on_series ls f v) = vc_buckets v" "vc_help (on_series ls f v) = vc_help v"
  by (simp_all add: on_series_def vec_get_def Let_def split: prod.splits)

lemma search_floats_le: "search_floats bs x \<le> length bs"
  by (simp add: search_floats_def length_takeWhile_le)

lemma count_in_holds:
  assumes "holds_records v s g" and "vc_type v = HistogramType"
  shows "holds_records v (count_in (search_floats (vc_buckets v) x) x s) (g @ [(ls, x)])"
proof -
  let ?bs = "vc_buckets v" and ?i = "search_floats (vc_buckets v) x"
  let ?n = "\<lambda>g i. of_nat (length (filter (\<lambda>p. search_floats ?bs (snd p) = i) g)) :: 64 word"
  have "(map (?n g) [0..<length ?bs + 1])[?i := ?n g ?i + 1] = map (?n (g @ [(ls, x)])) [0..<length ?bs + 1]"
    using search_floats_le[of ?bs x] by (intro nth_equalityI) (auto simp: nth_list_update simp del: upt_Suc)
  moreover have "map (?n g) [0..<length ?bs + 1] ! ?i = ?n g ?i"
    using search_floats_le[of ?bs x] by (simp del: upt_Suc)
  ultimately show ?thesis using assms by (simp add: holds_records_def count_in_def del: upt_Suc)
qed

text \<open>What an operation does to its instrument.\<close>

definition op_vec :: "metric_op \<Rightarrow> vec \<Rightarrow> vec" where
  "op_vec op v = (case op of AddCounter _ x ls \<Rightarrow> counter_add x ls v | SetGauge _ x ls \<Rightarrow> gauge_set x ls v
     | AddGauge _ x ls \<Rightarrow> gauge_add x ls v | Observe _ x ls \<Rightarrow> observe x ls v | _ \<Rightarrow> v)"

fun op_target :: "metric_op \<Rightarrow> (string \<times> metric_type) option" where
  "op_target (AddCounter n _ _) = Some (n, CounterType)"
| "op_target (SetGauge n _ _) = Some (n, GaugeType)"
| "op_target (AddGauge n _ _) = Some (n, GaugeType)"
| "op_target (Observe n _ _) = Some (n, HistogramType)"
| "op_target _ = None"

lemma op_vec_keeps:
  assumes "op_target op = Some (n, vc_type v)" and "vec_ok v" and "accounts v G rs"
  shows "vec_ok (op_vec op v) \<and> (\<exists>G'. accounts (op_vec op v) G' (rs @ recorded_by n op)) \<and>
    vc_name (op_vec op v) = vc_name v \<and> vc_type (op_vec op v) = vc_type v \<and> vc_buckets (op_vec op v) = vc_buckets v"
proof (cases op)
  case (AddCounter m x ls)
  with assms(1) have t: "m = n" "vc_type v = CounterType" by auto
  have "holds_records v (s\<lparr>sr_value := sr_value s + x\<rparr>) (g @ [(ls, x)])" if "holds_records v s g" for s g
    using that t by (simp add: holds_records_def)
  with on_series_keeps[OF assms(2,3), of "\<lambda>s. s\<lparr>sr_value := sr_value s + x\<rparr>" "[(ls, x)]" ls] show ?thesis
    using AddCounter t assms by (auto simp: op_vec_def counter_add_def)
next
  case (SetGauge m x ls)
  with assms(1) have t: "vc_type v = GaugeType" by auto
  with on_series_keeps[OF assms(2,3), of "\<lambda>s. s\<lparr>sr_value := x\<rparr>" "[]" ls] show ?thesis
    using SetGauge assms by (auto simp: op_vec_def gauge_set_def holds_records_def)
next
  case (AddGauge m x ls)
  with assms(1) have t: "vc_type v = GaugeType" by auto
  with on_series_keeps[OF assms(2,3), of "\<lambda>s. s\<lparr>sr_value := sr_value s + x\<rparr>" "[]" ls] show ?thesis
    using AddGauge assms by (auto simp: op_vec_def gauge_add_def holds_records_def)
next
  case (Observe m x ls)
  with assms(1) have t: "m = n" "vc_type v = HistogramType" by auto
  have "sr_labels (count_in i x s) = sr_labels s" for i s by (simp add: count_in_def)
  with on_series_keeps[OF assms(2,3), of "count_in (search_floats (vc_buckets v) x) x" "[(ls, x)]" ls] count_in_holds t
  show ?thesis using Observe assms by (auto simp: op_vec_def observe_def)
qed (use assms in auto)

section \<open>What a registry holds\<close>

definition reg_inv :: "metric_registry \<Rightarrow> metric_op list \<Rightarrow> bool" where
  "reg_inv r ops \<longleftrightarrow> distinct (map fst r) \<and> (\<forall>n. map_of r n = None \<longrightarrow> recorded n ops = []) \<and>
     (\<forall>n v. map_of r n = Some v \<longrightarrow> vc_name v = n \<and> valid_metric_name n \<and> vec_ok v \<and> (\<exists>G. accounts v G (recorded n ops)))"

lemma recorded_snoc: "recorded n (ops @ [op]) = recorded n ops @ recorded_by n op"
  by (simp add: recorded_def)

lemma recorded_target: "op_target op \<noteq> Some (n, t) \<Longrightarrow> op_target op = Some (m, u) \<Longrightarrow> m \<noteq> n \<Longrightarrow> recorded_by n op = []"
  "op_target op = None \<Longrightarrow> recorded_by n op = []"
  by (cases op; simp)+

lemma good_normalized: "good_buckets (normalize_buckets bs)"
  by (auto simp: good_buckets_def normalize_buckets_def sorted_remdups_adj)

lemma register_inv:
  assumes "register n h t bs r = Some r'" and "reg_inv r ops" and "recorded_by n op = []" "\<And>m. recorded_by m op = []"
    and "good_buckets bs"
  shows "reg_inv r' (ops @ [op])"
proof (cases "map_of r n")
  case None
  let ?v = "\<lparr>vc_name = n, vc_help = h, vc_type = t, vc_buckets = bs, vc_children = []\<rparr>"
  have "accounts ?v (\<lambda>_. []) []" "vec_ok ?v" using assms(5) by (simp_all add: accounts_def vec_ok_def)
  moreover have "r' = (n, ?v) # r" "valid_metric_name n" using assms(1) None by (auto simp: register_def split: if_splits)
  moreover have "n \<notin> fst ` set r" using None by (simp add: map_of_eq_None_iff)
  ultimately show ?thesis using assms(2,4) None unfolding reg_inv_def by (auto simp: recorded_snoc)
next
  case (Some v)
  with assms(1) have "r' = r" by (auto simp: register_def split: if_splits)
  with assms(2,4) show ?thesis by (simp add: reg_inv_def recorded_snoc)
qed

lemma step_inv:
  assumes "metric_step op r = Some r'" and "reg_inv r ops"
  shows "reg_inv r' (ops @ [op])"
proof (cases "op_target op")
  case None
  have nil: "good_buckets []" by (simp add: good_buckets_def)
  show ?thesis
    using assms register_inv[OF _ assms(2), where op = op] recorded_target(2)[OF None] None good_normalized nil
    by (cases op) (auto simp: reg_counter_def reg_gauge_def reg_histogram_def)
next
  case (Some nt)
  obtain n t where nt: "nt = (n, t)" by force
  with Some assms(1) obtain v where v: "map_of r n = Some v" "vc_type v = t" "r' = AList.update n (op_vec op v) r"
    by (cases op) (auto simp: on_vec_def op_vec_def split: option.splits if_splits)
  have inv: "vc_name v = n" "valid_metric_name n" "vec_ok v" "\<exists>G. accounts v G (recorded n ops)" "distinct (map fst r)"
    using assms(2) v(1) by (auto simp: reg_inv_def)
  then obtain G where "accounts v G (recorded n ops)" by blast
  with op_vec_keeps[of op n v G] inv(3) Some nt v(2) have
    new: "vec_ok (op_vec op v)" "\<exists>G'. accounts (op_vec op v) G' (recorded n (ops @ [op]))" "vc_name (op_vec op v) = n"
    using inv(1) by (auto simp: recorded_snoc)
  have other: "recorded m (ops @ [op]) = recorded m ops" if "m \<noteq> n" for m
    using recorded_target(1)[of op m t n t] that Some nt by (simp add: recorded_snoc)
  show ?thesis
    using assms(2) new inv(2,5) other v(1) unfolding reg_inv_def v(3)
    by (auto simp: update_conv' distinct_update)
qed

lemma run_inv: "metric_run ops = Some r \<Longrightarrow> reg_inv r ops"
proof (induction ops arbitrary: r rule: rev_induct)
  case Nil
  then show ?case by (simp add: metric_run_def reg_inv_def recorded_def)
next
  case (snoc op ops)
  then obtain r0 where "metric_run ops = Some r0" "metric_step op r0 = Some r"
    by (auto simp: metric_run_def bind_eq_Some_conv)
  with snoc.IH step_inv show ?case by blast
qed

section \<open>Snapshots\<close>

lemma search_floats_iff:
  assumes "sorted bs" and "i < length bs"
  shows "search_floats bs x \<le> i \<longleftrightarrow> x \<le> bs ! i"
proof
  assume le: "search_floats bs x \<le> i"
  then have "search_floats bs x < length bs" using assms(2) by simp
  then have "\<not> bs ! search_floats bs x < x" unfolding search_floats_def by (rule nth_length_takeWhile)
  moreover have "bs ! search_floats bs x \<le> bs ! i" using assms le by (intro sorted_nth_mono) auto
  ultimately show "x \<le> bs ! i" by simp
next
  assume "x \<le> bs ! i"
  show "search_floats bs x \<le> i"
  proof (rule ccontr)
    assume "\<not> search_floats bs x \<le> i"
    then have i: "i < length (takeWhile (\<lambda>b. b < x) bs)" by (simp add: search_floats_def)
    then have "takeWhile (\<lambda>b. b < x) bs ! i < x" by (metis nth_mem set_takeWhileD)
    with i \<open>x \<le> bs ! i\<close> show False by (simp add: takeWhile_nth)
  qed
qed

lemma cumulative_sums: "length bs \<le> length cs \<Longrightarrow>
    cumulative n bs cs = map (\<lambda>i. (bs ! i, n + sum_list (take (Suc i) cs))) [0..<length bs]"
proof (induction n bs cs rule: cumulative.induct)
  case (1 n b bs c cs)
  then show ?case by (simp add: upt_conv_Cons map_Suc_upt[symmetric] add.assoc comp_def del: upt_Suc map_Suc_upt)
qed auto

lemma count_below: "(\<Sum>j<k. length (filter (\<lambda>p. h p = j) g)) = length (filter (\<lambda>p. h p < k) g)" for k :: nat
proof (induction g)
  case (Cons p g)
  have "(\<Sum>j<k. length (filter (\<lambda>q. h q = j) (p # g))) =
      (\<Sum>j<k. (if h p = j then 1 else 0) + length (filter (\<lambda>q. h q = j) g))" by (intro sum.cong) auto
  with Cons show ?case by (simp add: sum.distrib sum.delta)
qed simp

lemma histogram_cumulative:
  assumes "sorted bs"
  shows "cumulative 0 bs (map (\<lambda>i. of_nat (length (filter (\<lambda>p. search_floats bs (snd p) = i) g))) [0..<length bs + 1]) =
    map (\<lambda>b. (b, of_nat (length (filter (\<lambda>p. snd p \<le> b) g)))) bs"
proof -
  let ?n = "\<lambda>i. length (filter (\<lambda>p. search_floats bs (snd p) = i) g)"
  have "sum_list (take (Suc i) (map (\<lambda>i. of_nat (?n i)) [0..<length bs + 1])) =
      (of_nat (length (filter (\<lambda>p. snd p \<le> bs ! i) g)) :: 64 word)" if "i < length bs" for i
  proof -
    have "sum_list (take (Suc i) (map (\<lambda>i. of_nat (?n i)) [0..<length bs + 1])) = (\<Sum>j<Suc i. (of_nat (?n j) :: 64 word))"
      using that by (simp add: take_map take_upt interv_sum_list_conv_sum_set_nat atLeast0LessThan del: upt_Suc sum.lessThan_Suc)
    also have "\<dots> = of_nat (length (filter (\<lambda>p. search_floats bs (snd p) < Suc i) g))"
      by (simp only: count_below flip: of_nat_sum)
    finally show ?thesis using search_floats_iff[OF assms that] by (simp add: less_Suc_eq_le)
  qed
  then show ?thesis by (subst cumulative_sums) (auto intro!: nth_equalityI simp del: upt_Suc)
qed

definition accounted :: "vec \<Rightarrow> nat \<Rightarrow> sample \<Rightarrow> records \<Rightarrow> bool" where
  "accounted v n s g \<longleftrightarrow>
     (\<forall>p\<in>set g. sm_labels s = fst (canonicalize (fst p)) \<or> sm_labels s = overflow_labels \<and> n \<ge> MaxSeries) \<and>
     (vc_type v = CounterType \<longrightarrow> sm_value s = sum_list (map snd g)) \<and>
     (vc_type v = HistogramType \<longrightarrow> sm_sum s = sum_list (map snd g) \<and> sm_count s = of_nat (length g) \<and>
        sm_buckets s = map (\<lambda>b. (b, of_nat (length (filter (\<lambda>p. snd p \<le> b) g)))) (vc_buckets v @ [PosInf]))"

lemma below_top: "x \<le> PosInf"
  by (cases x) (simp_all add: less_eq_fl_def)

lemma snapshot_accounted:
  assumes "holds_records v s g" and "places v s g" and "good_buckets (vc_buckets v)"
  shows "accounted v (length (vc_children v)) (snapshot_one v s) g"
  using assms histogram_cumulative[of "vc_buckets v" g]
  by (auto simp: accounted_def holds_records_def places_def snapshot_one_def good_buckets_def below_top simp del: upt_Suc)

definition samples_of :: "string \<Rightarrow> metric_registry \<Rightarrow> sample list" where
  "samples_of n r = filter (\<lambda>s. sm_name s = n) (snapshot r)"

lemma snapshot_one_fields [simp]: "sm_name (snapshot_one v s) = vc_name v" "sm_labels (snapshot_one v s) = sr_labels s"
  "sm_type (snapshot_one v s) = vc_type v" "sm_help (snapshot_one v s) = vc_help v"
  by (simp_all add: snapshot_one_def)

lemma samples_of_mset:
  assumes "distinct (map fst r)" and "\<And>m v. map_of r m = Some v \<Longrightarrow> vc_name v = m" and "map_of r n = Some v"
  shows "mset (samples_of n r) = mset (vec_samples v)"
proof -
  have "filter (\<lambda>s. sm_name s = n) (concat (map (\<lambda>(_, v). vec_samples v) r)) =
      (case map_of r n of None \<Rightarrow> [] | Some v \<Rightarrow> vec_samples v)"
    using assms(1,2)
  proof (induction r)
    case (Cons p r)
    obtain m w where p: "p = (m, w)" by force
    have names: "sm_name s = vc_name u" if "s \<in> set (vec_samples u)" for s u
      using that by (auto simp: vec_samples_def)
    have fresh: "map_of r m = None" using Cons.prems(1) p by (simp add: map_of_eq_None_iff)
    then have lift: "map_of r k = Some u \<Longrightarrow> map_of (p # r) k = Some u" for k u using p by (cases "k = m") simp_all
    have IH: "filter (\<lambda>s. sm_name s = n) (concat (map (\<lambda>(_, v). vec_samples v) r)) =
      (case map_of r n of None \<Rightarrow> [] | Some v \<Rightarrow> vec_samples v)"
    proof (rule Cons.IH)
      show "distinct (map fst r)" using Cons.prems(1) by simp
      show "vc_name u = k" if "map_of r k = Some u" for k u using Cons.prems(2)[OF lift[OF that]] .
    qed
    have "vc_name w = m" using Cons.prems(2)[of m w] p by simp
    then have "filter (\<lambda>s. sm_name s = n) (vec_samples w) = (if m = n then vec_samples w else [])"
      using names[of _ w] by (simp add: filter_id_conv filter_empty_conv)
    with IH fresh p show ?case by (cases "m = n") simp_all
  qed simp
  with assms(3) show ?thesis by (simp add: samples_of_def snapshot_def mset_filter[symmetric] del: mset_filter filter_concat)
    (metis mset_filter mset_sort)
qed

lemma mset_concat_cong: "mset xs = mset ys \<Longrightarrow> mset (concat (map f xs)) = mset (concat (map f ys))"
proof -
  have "mset (concat (map f xs)) = (\<Sum>x\<in>#mset xs. mset (f x))" for xs by (induction xs) auto
  then show "mset xs = mset ys \<Longrightarrow> ?thesis" by simp
qed

lemma recorded_accounts:
  assumes "metric_run ops = Some r" and "map_of r n = Some v"
  shows "length (samples_of n r) \<le> MaxSeries + 1 \<and> distinct (map sm_labels (samples_of n r)) \<and>
    (\<exists>G. mset (concat (map G (samples_of n r))) = mset (recorded n ops) \<and>
       (\<forall>s\<in>set (samples_of n r). accounted v (length (samples_of n r)) s (G s)))"
proof -
  have inv: "distinct (map fst r)" "vc_name u = m" if "map_of r m = Some u" for m u
    using run_inv[OF assms(1)] that by (auto simp: reg_inv_def)
  obtain G where v: "vec_ok v" "accounts v G (recorded n ops)"
    using run_inv[OF assms(1)] assms(2) unfolding reg_inv_def by blast
  let ?kids = "vc_children v" and ?ss = "samples_of n r"
  let ?G = "\<lambda>s. G (label_key (sm_labels s))"
  have same: "mset ?ss = mset (vec_samples v)" using samples_of_mset[OF inv(1) inv(2) assms(2)] assms(2) by blast
  then have len: "length ?ss = length ?kids" by (metis length_map size_mset vec_samples_def)
  have keys: "map (\<lambda>s. label_key (sm_labels s)) (vec_samples v) = map fst ?kids"
    using v(1) by (auto simp: vec_samples_def vec_ok_def)
  then have "distinct (map (\<lambda>s. label_key (sm_labels s)) (vec_samples v))" using v(1) by (simp add: vec_ok_def)
  then have "distinct (map sm_labels (vec_samples v))" by (auto simp: distinct_map inj_on_def)
  then have "distinct (map sm_labels ?ss)" using same by (metis mset_eq_imp_distinct_iff mset_map)
  moreover have "map ?G (vec_samples v) = map (G \<circ> fst) ?kids" using keys by (metis (mono_tags, lifting) comp_apply map_map map_eq_conv)
  then have "mset (concat (map ?G ?ss)) = mset (recorded n ops)"
    using mset_concat_cong[OF same, of ?G] v(2) by (simp add: accounts_def)
  moreover have "accounted v (length ?ss) s (?G s)" if "s \<in> set ?ss" for s
  proof -
    have "s \<in> set (vec_samples v)" using that same by (metis set_mset_mset)
    then obtain k t where kt: "(k, t) \<in> set ?kids" "s = snapshot_one v t" by (auto simp: vec_samples_def)
    then have "k = label_key (sm_labels s)" using v(1) by (auto simp: vec_ok_def)
    with kt v snapshot_accounted[of v t "G k"] len show ?thesis by (auto simp: accounts_def vec_ok_def)
  qed
  moreover have "length ?ss \<le> MaxSeries + 1" using v(1) len by (simp add: vec_ok_def)
  ultimately show ?thesis by blast
qed

text \<open>C37: No measurement is lost or misfiled: whatever is done to a registry, an instrument shows at most one
  series more than its cap, each with labels of its own; every accepted addition and observation is in
  exactly one of them, that of its own labels unless the cap was reached; and each series shows the sum, the
  count and the cumulative bucket counts of what it holds.\<close>

theorem recorded_values_accounted:
  assumes "metric_run ops = Some r" and "map_of r n = Some v"
  shows "length (samples_of n r) \<le> MaxSeries + 1 \<and> distinct (map sm_labels (samples_of n r)) \<and>
    (\<exists>G. mset (concat (map G (samples_of n r))) = mset (recorded n ops) \<and>
       (\<forall>s\<in>set (samples_of n r). accounted v (length (samples_of n r)) s (G s)))"
  by (rule recorded_accounts[OF assms])

definition latency_ops :: "metric_op list" where
  "latency_ops = [RegHistogram ''h'' [] [Fin 2, Fin 1, PosInf], Observe ''h'' (Fin 1) [], Observe ''h'' (Fin 3) []]"

theorem recorded_values_accounted_witness:
  "\<exists>r v. metric_run latency_ops = Some r \<and> map_of r ''h'' = Some v \<and> vc_buckets v = [Fin 1, Fin 2] \<and>
    length (samples_of ''h'' r) \<le> MaxSeries + 1 \<and>
    (\<exists>G. mset (concat (map G (samples_of ''h'' r))) = {#([] :: metric_label list, Fin 1), ([], Fin 3)#})"
proof -
  have "normalize_buckets [Fin 2, Fin 1, PosInf] = [Fin 1, Fin 2]"
    by (simp add: normalize_buckets_def less_eq_fl_def)
  moreover have "valid_metric_name ''h''" by code_simp
  ultimately obtain r v where r: "metric_run latency_ops = Some r" "map_of r ''h'' = Some v" "vc_buckets v = [Fin 1, Fin 2]"
    by (simp add: metric_run_def latency_ops_def reg_histogram_def register_def on_vec_def observe_def)
  have "recorded ''h'' latency_ops = [([], Fin 1), ([], Fin 3)]"
    by (simp add: recorded_def latency_ops_def)
  moreover obtain G where "mset (concat (map G (samples_of ''h'' r))) = mset (recorded ''h'' latency_ops)"
    "length (samples_of ''h'' r) \<le> MaxSeries + 1"
    using recorded_values_accounted[OF r(1,2)] by blast
  ultimately show ?thesis using r by (intro exI[of _ r] exI[of _ v] conjI exI[of _ G]) simp_all
qed

section \<open>The lock-free addition\<close>

text \<open>
  \<^verbatim>\<open>addFloat\<close>: a goroutine loads the value, and swaps in the sum if the value is still the one it loaded;
  if not, it starts over. Any number of them add to one value at the same time.
\<close>

datatype adder = Ready | Loaded fl | Added

inductive cas_step :: "(nat \<Rightarrow> fl) \<Rightarrow> fl \<times> (nat \<Rightarrow> adder) \<Rightarrow> fl \<times> (nat \<Rightarrow> adder) \<Rightarrow> bool" for delta where
  load: "pc i = Ready \<Longrightarrow> cas_step delta (x, pc) (x, pc(i := Loaded x))"
| swap: "pc i = Loaded x \<Longrightarrow> cas_step delta (x, pc) (x + delta i, pc(i := Added))"
| retry: "pc i = Loaded y \<Longrightarrow> y \<noteq> x \<Longrightarrow> cas_step delta (x, pc) (x, pc(i := Ready))"

definition adders :: "nat \<Rightarrow> nat \<Rightarrow> adder" where
  "adders n i = (if i < n then Ready else Added)"

definition pending :: "nat \<Rightarrow> (nat \<Rightarrow> adder) \<Rightarrow> nat" where
  "pending n pc = card {i. i < n \<and> pc i \<noteq> Added}"

fun adder_weight :: "fl \<Rightarrow> adder \<Rightarrow> nat" where
  "adder_weight x Ready = 1"
| "adder_weight x (Loaded y) = (if x = y then 0 else 2)"
| "adder_weight x Added = 0"

definition weight :: "nat \<Rightarrow> fl \<times> (nat \<Rightarrow> adder) \<Rightarrow> nat" where
  "weight n s = (\<Sum>i<n. adder_weight (fst s) (snd s i))"

definition owed :: "(nat \<Rightarrow> fl) \<Rightarrow> nat \<Rightarrow> (nat \<Rightarrow> adder) \<Rightarrow> fl" where
  "owed delta n pc = (\<Sum>i<n. if pc i = Added then 0 else delta i)"

definition cas_ok :: "(nat \<Rightarrow> fl) \<Rightarrow> nat \<Rightarrow> fl \<Rightarrow> fl \<times> (nat \<Rightarrow> adder) \<Rightarrow> bool" where
  "cas_ok delta n x0 s \<longleftrightarrow> (\<forall>i. snd s i \<noteq> Added \<longrightarrow> i < n) \<and> fst s + owed delta n (snd s) = x0 + (\<Sum>i<n. delta i)"

lemma sum_at: "i < n \<Longrightarrow> (\<Sum>j<n. f j) = f i + (\<Sum>j\<in>{..<n} - {i}. f j)" for f :: "nat \<Rightarrow> 'a::comm_monoid_add"
  by (intro sum.remove) auto

lemma cas_step_ok:
  assumes "cas_step delta s s'" and "cas_ok delta n x0 s"
  shows "cas_ok delta n x0 s' \<and> ((pending n (snd s'), weight n s'), (pending n (snd s), weight n s)) \<in> less_than <*lex*> less_than"
  using assms
proof (cases rule: cas_step.cases)
  case (load pc i x)
  then have i: "i < n" using assms(2) by (auto simp: cas_ok_def)
  have "pending n (pc(i := Loaded x)) = pending n pc"
    using load(3) unfolding pending_def by (intro arg_cong[where f = card]) auto
  moreover have "owed delta n (pc(i := Loaded x)) = owed delta n pc"
    using load(3) unfolding owed_def by (intro sum.cong) auto
  ultimately show ?thesis
    using load i assms(2) sum_at[OF i, of "\<lambda>j. adder_weight x (pc j)"] sum_at[OF i, of "\<lambda>j. adder_weight x ((pc(i := Loaded x)) j)"]
    by (auto simp: cas_ok_def weight_def)
next
  case (swap pc i x)
  then have i: "i < n" using assms(2) by (auto simp: cas_ok_def)
  have "{j. j < n \<and> pc j \<noteq> Added} = insert i {j. j < n \<and> (pc(i := Added)) j \<noteq> Added}" using swap(3) i by auto
  then have "pending n pc = Suc (pending n (pc(i := Added)))" unfolding pending_def by simp
  moreover have "owed delta n pc = delta i + owed delta n (pc(i := Added))"
    using swap(3) sum_at[OF i, of "\<lambda>j. if pc j = Added then 0 else delta j"]
      sum_at[OF i, of "\<lambda>j. if (pc(i := Added)) j = Added then 0 else delta j"]
    by (simp add: owed_def)
  ultimately show ?thesis using swap assms(2) by (auto simp: cas_ok_def add_ac)
next
  case (retry pc i y x)
  then have i: "i < n" using assms(2) by (auto simp: cas_ok_def)
  have "pending n (pc(i := Ready)) = pending n pc"
    using retry(3) unfolding pending_def by (intro arg_cong[where f = card]) auto
  moreover have "owed delta n (pc(i := Ready)) = owed delta n pc"
    using retry(3) unfolding owed_def by (intro sum.cong) auto
  ultimately show ?thesis
    using retry i assms(2) sum_at[OF i, of "\<lambda>j. adder_weight x (pc j)"] sum_at[OF i, of "\<lambda>j. adder_weight x ((pc(i := Ready)) j)"]
    by (auto simp: cas_ok_def weight_def)
qed

lemma cas_start_ok: "cas_ok delta n x0 (x0, adders n)"
proof -
  have "owed delta n (adders n) = (\<Sum>i<n. delta i)" unfolding owed_def by (intro sum.cong) (auto simp: adders_def)
  then show ?thesis by (simp add: cas_ok_def adders_def)
qed

lemma cas_run_ok: "(cas_step delta)\<^sup>*\<^sup>* (x0, adders n) s \<Longrightarrow> cas_ok delta n x0 s"
  by (induction rule: rtranclp_induct) (auto simp: cas_start_ok dest: cas_step_ok)

text \<open>C39: Concurrent additions to one counter are lock-free and none is lost: however the goroutines
  interleave, they all finish, and when none can go on the value is the old one plus every delta.\<close>

theorem concurrent_adds_all_count:
  "(\<nexists>f. f 0 = (x0, adders n) \<and> (\<forall>k. cas_step delta (f k) (f (Suc k)))) \<and>
   ((cas_step delta)\<^sup>*\<^sup>* (x0, adders n) (x, pc) \<and> (\<nexists>s. cas_step delta (x, pc) s) \<longrightarrow> x = x0 + (\<Sum>i<n. delta i))"
proof (intro conjI impI notI; (elim exE conjE)?)
  fix f assume f: "f 0 = (x0, adders n)" "\<forall>k. cas_step delta (f k) (f (Suc k))"
  have "cas_ok delta n x0 (f k)" for k
  proof (induction k)
    case 0
    with f(1) cas_start_ok show ?case by simp
  next
    case (Suc k)
    with f(2) cas_step_ok show ?case by blast
  qed
  then have "((pending n (snd (f (Suc k))), weight n (f (Suc k))), (pending n (snd (f k)), weight n (f k))) \<in> less_than <*lex*> less_than" for k
    using f(2) cas_step_ok by blast
  then have "\<exists>g. \<forall>k. (g (Suc k), g k) \<in> less_than <*lex*> less_than"
    by (intro exI[of _ "\<lambda>k. (pending n (snd (f k)), weight n (f k))"] allI)
  moreover have "wf (less_than <*lex*> less_than)" by (intro wf_lex_prod wf_less_than)
  ultimately show False unfolding wf_iff_no_infinite_down_chain by blast
next
  assume "(cas_step delta)\<^sup>*\<^sup>* (x0, adders n) (x, pc)" and stuck: "\<nexists>s. cas_step delta (x, pc) s"
  then have ok: "cas_ok delta n x0 (x, pc)" using cas_run_ok by blast
  have "pc i = Added" for i
  proof (cases "pc i")
    case (Loaded y)
    with stuck cas_step.intros(2,3)[of pc i] show ?thesis by (cases "y = x") blast+
  qed (use stuck cas_step.intros(1) in blast)+
  then have "owed delta n pc = 0" by (simp add: owed_def)
  with ok show "x = x0 + (\<Sum>i<n. delta i)" by (simp add: cas_ok_def)
qed

definition one_added :: "nat \<Rightarrow> adder" where
  "one_added i = Added"

theorem concurrent_adds_all_count_witness:
  "(cas_step (\<lambda>_. Fin 1))\<^sup>*\<^sup>* (Fin 2, adders 1) (Fin 3, one_added) \<and> Fin 3 = Fin 2 + (\<Sum>i<(1::nat). Fin 1)"
proof -
  let ?step = "cas_step (\<lambda>_. Fin 1)" and ?mid = "(adders 1)(0 := Loaded (Fin 2))"
  have "?step (Fin 2, adders 1) (Fin 2, ?mid)" by (rule cas_step.load) (simp add: adders_def)
  moreover have "?step (Fin 2, ?mid) (Fin 2 + Fin 1, ?mid(0 := Added))" by (rule cas_step.swap) simp
  moreover have "?mid(0 := Added) = one_added" by (auto simp: adders_def one_added_def)
  ultimately have run: "?step\<^sup>*\<^sup>* (Fin 2, adders 1) (Fin 3, one_added)" by simp
  moreover have "\<nexists>s. ?step (Fin 3, one_added) s" by (auto simp: one_added_def elim: cas_step.cases)
  ultimately show ?thesis
    using concurrent_adds_all_count[of "Fin 2" 1 "\<lambda>_. Fin 1" "Fin 3" one_added] by blast
qed

end
