(* ===== verification/Exposition.thy ===== *)
theory Exposition
  imports Metric
begin

text \<open>
  The text exposition of a registry (\<^verbatim>\<open>metric/text.go\<close>), and a reader of that format. The shortest
  decimal form of a finite float64 is an argument.
\<close>

abbreviation Newline :: char where "Newline \<equiv> CHR 0x0A"

abbreviation Backslash :: char where "Backslash \<equiv> CHR 0x5C"

abbreviation Quote :: char where "Quote \<equiv> CHR 0x22"

definition escape_label_value :: "string \<Rightarrow> string" where
  "escape_label_value s = concat (map (\<lambda>c. if c = Backslash then [Backslash, Backslash]
     else if c = Quote then [Backslash, Quote] else if c = Newline then [Backslash, CHR ''n''] else [c]) s)"

definition escape_help :: "string \<Rightarrow> string" where
  "escape_help s = concat (map (\<lambda>c. if c = Backslash then [Backslash, Backslash]
     else if c = Newline then [Backslash, CHR ''n''] else [c]) s)"

definition format_float :: "(real \<Rightarrow> string) \<Rightarrow> fl \<Rightarrow> string" where
  "format_float ftext x = (case x of PosInf \<Rightarrow> ''+Inf'' | NegInf \<Rightarrow> ''-Inf'' | NaN \<Rightarrow> ''NaN'' | Fin r \<Rightarrow> ftext r)"

definition write_label :: "metric_label \<Rightarrow> string" where
  "write_label l = lb_key l @ ''='' @ [Quote] @ escape_label_value (lb_value l) @ [Quote]"

definition write_labels :: "metric_label list \<Rightarrow> metric_label option \<Rightarrow> string" where
  "write_labels ls extra =
     (let all = ls @ (case extra of None \<Rightarrow> [] | Some l \<Rightarrow> [l]) in
      if all = [] then [] else ''{'' @ join_with '','' (map write_label all) @ ''}'')"

definition write_line :: "string \<Rightarrow> metric_label list \<Rightarrow> metric_label option \<Rightarrow> string \<Rightarrow> string" where
  "write_line name ls extra val = name @ write_labels ls extra @ '' '' @ val @ [Newline]"

definition uint_text :: "64 word \<Rightarrow> string" where
  "uint_text w = itoa (unat w)"

definition write_series :: "(real \<Rightarrow> string) \<Rightarrow> sample \<Rightarrow> string" where
  "write_series ftext s =
     (if sm_type s \<noteq> HistogramType then write_line (sm_name s) (sm_labels s) None (format_float ftext (sm_value s))
      else concat (map (\<lambda>(le, n). write_line (sm_name s @ ''_bucket'') (sm_labels s)
             (Some \<lparr>lb_key = ''le'', lb_value = format_float ftext le\<rparr>) (uint_text n)) (sm_buckets s)) @
           write_line (sm_name s @ ''_sum'') (sm_labels s) None (format_float ftext (sm_sum s)) @
           write_line (sm_name s @ ''_count'') (sm_labels s) None (uint_text (sm_count s)))"

definition type_text :: "metric_type \<Rightarrow> string" where
  "type_text t = (case t of CounterType \<Rightarrow> ''counter'' | GaugeType \<Rightarrow> ''gauge'' | HistogramType \<Rightarrow> ''histogram'')"

definition write_heading :: "sample \<Rightarrow> string" where
  "write_heading s =
     (if sm_help s = [] then [] else ''# HELP '' @ sm_name s @ '' '' @ escape_help (sm_help s) @ [Newline]) @
     ''# TYPE '' @ sm_name s @ '' '' @ type_text (sm_type s) @ [Newline]"

fun write_samples :: "(real \<Rightarrow> string) \<Rightarrow> string \<Rightarrow> sample list \<Rightarrow> string" where
  "write_samples ftext lst [] = []"
| "write_samples ftext lst (s # ss) =
     (if sm_name s = lst then [] else write_heading s) @ write_series ftext s @ write_samples ftext (sm_name s) ss"

definition write_exposition :: "(real \<Rightarrow> string) \<Rightarrow> metric_registry \<Rightarrow> string" where
  "write_exposition ftext r = write_samples ftext [] (snapshot r)"

section \<open>A reader of the format\<close>

text \<open>What a scraper makes of a line: the name, the labels and the text of the value.\<close>

type_synonym reading = "string \<times> (string \<times> string) list \<times> string"

fun read_quoted :: "string \<Rightarrow> string \<times> string" where
  "read_quoted [] = ([], [])"
| "read_quoted [c] = (if c = Quote then ([], []) else ([c], []))"
| "read_quoted (c # d # s) =
     (if c = Quote then ([], d # s)
      else if c = Backslash then
        (case read_quoted s of (v, rest) \<Rightarrow> ((if d = CHR ''n'' then Newline else d) # v, rest))
      else (case read_quoted (d # s) of (v, rest) \<Rightarrow> (c # v, rest)))"

lemma read_quoted_length: "length (snd (read_quoted s)) \<le> length s"
  by (induction s rule: read_quoted.induct) (auto split: prod.splits)

text \<open>The labels after an opening brace, and what follows the closing one.\<close>

function read_labels :: "string \<Rightarrow> (string \<times> string) list \<times> string" where
  "read_labels s =
     (case dropWhile (\<lambda>c. c \<noteq> CHR ''='') s of
        eq # q # s' \<Rightarrow>
          (case read_quoted s' of (v, rest) \<Rightarrow>
             (case rest of
                [] \<Rightarrow> ([(takeWhile (\<lambda>c. c \<noteq> CHR ''='') s, v)], [])
              | c # rest' \<Rightarrow>
                  if c = CHR '','' then (case read_labels rest' of (ls, t) \<Rightarrow> ((takeWhile (\<lambda>c. c \<noteq> CHR ''='') s, v) # ls, t))
                  else ([(takeWhile (\<lambda>c. c \<noteq> CHR ''='') s, v)], rest')))
      | _ \<Rightarrow> ([], []))"
  by pat_completeness auto
termination
proof (relation "measure length"; simp)
  show "length rest < length s"
    if "dropWhile (\<lambda>c. c \<noteq> CHR ''='') s = eq # q # s'" "(v, c # rest) = read_quoted s'"
    for s eq q s' v c rest
    using that read_quoted_length[of s'] length_dropWhile_le[of "\<lambda>c. c \<noteq> CHR ''=''" s] by (cases "read_quoted s'") simp
qed

declare read_labels.simps [simp del]

definition read_line :: "string \<Rightarrow> reading" where
  "read_line l =
     (let stop = (\<lambda>c. c \<noteq> CHR ''{'' \<and> c \<noteq> CHR '' ''); name = takeWhile stop l in
      (case dropWhile stop l of
         [] \<Rightarrow> (name, [], [])
       | c # rest \<Rightarrow> if c = CHR ''{'' then (case read_labels rest of (ls, t) \<Rightarrow> (name, ls, drop 1 t)) else (name, [], rest)))"

definition read_text :: "string \<Rightarrow> reading list" where
  "read_text s = map read_line (filter (\<lambda>l. l \<noteq> [] \<and> hd l \<noteq> CHR ''#'') (split_on Newline s))"

text \<open>What the samples of a snapshot say.\<close>

definition label_pairs :: "metric_label list \<Rightarrow> (string \<times> string) list" where
  "label_pairs ls = map (\<lambda>l. (lb_key l, lb_value l)) ls"

definition readings :: "(real \<Rightarrow> string) \<Rightarrow> sample \<Rightarrow> reading list" where
  "readings ftext s =
     (if sm_type s \<noteq> HistogramType then [(sm_name s, label_pairs (sm_labels s), format_float ftext (sm_value s))]
      else map (\<lambda>(le, n). (sm_name s @ ''_bucket'', label_pairs (sm_labels s) @ [(''le'', format_float ftext le)], uint_text n))
             (sm_buckets s) @
           [(sm_name s @ ''_sum'', label_pairs (sm_labels s), format_float ftext (sm_sum s)),
            (sm_name s @ ''_count'', label_pairs (sm_labels s), uint_text (sm_count s))])"

section \<open>Reading what was written\<close>

lemma escape_Cons: "escape_label_value (c # s) = (if c = Backslash then [Backslash, Backslash]
     else if c = Quote then [Backslash, Quote] else if c = Newline then [Backslash, CHR ''n''] else [c]) @ escape_label_value s"
  by (simp add: escape_label_value_def)

lemma read_quoted_plain: "c \<noteq> Quote \<Longrightarrow> c \<noteq> Backslash \<Longrightarrow> s \<noteq> [] \<Longrightarrow>
    read_quoted (c # s) = (case read_quoted s of (v, rest) \<Rightarrow> (c # v, rest))"
  by (cases s) simp_all

lemma read_quoted_escaped: "read_quoted (escape_label_value s @ Quote # rest) = (s, rest)"
proof (induction s)
  case Nil
  then show ?case by (cases rest) (simp_all add: escape_label_value_def)
next
  case (Cons c s)
  then show ?case by (auto simp: escape_Cons read_quoted_plain)
qed

lemma escape_no_newline: "Newline \<notin> set (escape_label_value s)" "Newline \<notin> set (escape_help s)"
  by (auto simp: escape_label_value_def escape_help_def split: if_splits)

lemma read_labels_written:
  assumes "ls \<noteq> []" and "\<forall>l\<in>set ls. CHR ''='' \<notin> set (lb_key l)"
  shows "read_labels (join_with '','' (map write_label ls) @ CHR ''}'' # rest) = (label_pairs ls, rest)"
  using assms
proof (induction ls)
  case (Cons l ls)
  have key: "takeWhile (\<lambda>c. c \<noteq> CHR ''='') (lb_key l @ CHR ''='' # x) = lb_key l"
    "dropWhile (\<lambda>c. c \<noteq> CHR ''='') (lb_key l @ CHR ''='' # x) = CHR ''='' # x" for x
  proof -
    have "\<forall>c\<in>set (lb_key l). c \<noteq> CHR ''=''" using Cons.prems(2) by auto
    then show "takeWhile (\<lambda>c. c \<noteq> CHR ''='') (lb_key l @ CHR ''='' # x) = lb_key l"
      "dropWhile (\<lambda>c. c \<noteq> CHR ''='') (lb_key l @ CHR ''='' # x) = CHR ''='' # x"
      by (simp_all add: takeWhile_append2 dropWhile_append2)
  qed
  show ?case
  proof (cases "ls = []")
    case True
    then show ?thesis
      by (subst read_labels.simps) (simp add: write_label_def key read_quoted_escaped label_pairs_def)
  next
    case False
    with Cons show ?thesis
      by (subst read_labels.simps) (simp add: write_label_def[of l] key read_quoted_escaped join_with_Cons label_pairs_def)
  qed
qed simp

definition line_text :: "string \<Rightarrow> metric_label list \<Rightarrow> metric_label option \<Rightarrow> string \<Rightarrow> string" where
  "line_text name ls extra val = name @ write_labels ls extra @ '' '' @ val"

lemma write_line_text: "write_line name ls extra val = line_text name ls extra val @ [Newline]"
  by (simp add: write_line_def line_text_def)

definition name_char :: "char \<Rightarrow> bool" where
  "name_char c \<longleftrightarrow> c \<noteq> CHR ''{'' \<and> c \<noteq> CHR '' '' \<and> c \<noteq> CHR ''='' \<and> c \<noteq> CHR ''#'' \<and> c \<noteq> Newline"

lemma letter_name_char: "is_letter c \<or> is_digit_byte c \<or> c = CHR '':'' \<Longrightarrow> name_char c"
  by (auto simp: is_letter_def is_digit_byte_def name_char_def Let_def)

lemma valid_name_chars: "valid_metric_name s \<Longrightarrow> s \<noteq> [] \<and> list_all name_char s"
  using letter_name_char by (auto simp: valid_metric_name_def list_all_iff split: list.splits)

lemma clean_name_chars: "clean_name s \<Longrightarrow> list_all name_char s"
  using letter_name_char by (auto simp: clean_name_def list_all_iff)

definition all_labels :: "metric_label list \<Rightarrow> metric_label option \<Rightarrow> metric_label list" where
  "all_labels ls extra = ls @ (case extra of None \<Rightarrow> [] | Some l \<Rightarrow> [l])"

lemma read_line_text:
  assumes "list_all name_char name" and "\<forall>l\<in>set (all_labels ls extra). list_all name_char (lb_key l)"
  shows "read_line (line_text name ls extra val) = (name, label_pairs (all_labels ls extra), val)"
proof -
  let ?stop = "\<lambda>c. c \<noteq> CHR ''{'' \<and> c \<noteq> CHR '' ''"
  have "\<forall>c\<in>set name. ?stop c" using assms(1) by (auto simp: list_all_iff name_char_def)
  then have cut: "takeWhile ?stop (name @ c # x) = name" "dropWhile ?stop (name @ c # x) = c # x" if "\<not> ?stop c" for c x
    using that by (auto simp: takeWhile_append2 dropWhile_append2)
  have "\<forall>l\<in>set (all_labels ls extra). CHR ''='' \<notin> set (lb_key l)"
    using assms(2) by (auto simp: list_all_iff name_char_def)
  note r = read_labels_written[OF _ this]
  show ?thesis
  proof (cases "all_labels ls extra = []")
    case True
    then show ?thesis using cut[of "CHR '' ''"]
      by (simp add: line_text_def write_labels_def all_labels_def[symmetric] read_line_def label_pairs_def Let_def)
  next
    case False
    with r[OF False] show ?thesis using cut[of "CHR ''{''"]
      by (simp add: line_text_def write_labels_def all_labels_def[symmetric] read_line_def Let_def)
  qed
qed

lemma join_without: "(\<And>w. w \<in> set ws \<Longrightarrow> c \<notin> set w) \<Longrightarrow> c \<notin> set sep \<Longrightarrow> c \<notin> set (join_with sep ws)"
  by (induction ws rule: induct_list012) auto

lemma line_no_newline:
  assumes "list_all name_char name" and "\<forall>l\<in>set (all_labels ls extra). list_all name_char (lb_key l)" and "Newline \<notin> set val"
  shows "Newline \<notin> set (line_text name ls extra val)"
proof -
  have name: "Newline \<notin> set s" if "list_all name_char s" for s using that by (auto simp: list_all_iff name_char_def)
  have "Newline \<notin> set (write_label l)" if "l \<in> set (all_labels ls extra)" for l
    using that assms(2) name[of "lb_key l"] escape_no_newline by (auto simp: write_label_def)
  then have "Newline \<notin> set (join_with '','' (map write_label (all_labels ls extra)))" by (intro join_without) auto
  then show ?thesis using assms(1,3) name[of name]
    by (auto simp: line_text_def write_labels_def all_labels_def[symmetric] Let_def)
qed

section \<open>The whole text\<close>

definition series_lines :: "(real \<Rightarrow> string) \<Rightarrow> sample \<Rightarrow> string list" where
  "series_lines ftext s =
     (if sm_type s \<noteq> HistogramType then [line_text (sm_name s) (sm_labels s) None (format_float ftext (sm_value s))]
      else map (\<lambda>(le, n). line_text (sm_name s @ ''_bucket'') (sm_labels s)
             (Some \<lparr>lb_key = ''le'', lb_value = format_float ftext le\<rparr>) (uint_text n)) (sm_buckets s) @
           [line_text (sm_name s @ ''_sum'') (sm_labels s) None (format_float ftext (sm_sum s)),
            line_text (sm_name s @ ''_count'') (sm_labels s) None (uint_text (sm_count s))])"

definition heading_lines :: "sample \<Rightarrow> string list" where
  "heading_lines s =
     (if sm_help s = [] then [] else [''# HELP '' @ sm_name s @ '' '' @ escape_help (sm_help s)]) @
     [''# TYPE '' @ sm_name s @ '' '' @ type_text (sm_type s)]"

fun text_lines :: "(real \<Rightarrow> string) \<Rightarrow> string \<Rightarrow> sample list \<Rightarrow> string list" where
  "text_lines ftext lst [] = []"
| "text_lines ftext lst (s # ss) =
     (if sm_name s = lst then [] else heading_lines s) @ series_lines ftext s @ text_lines ftext (sm_name s) ss"

abbreviation ended :: "string list \<Rightarrow> string" where
  "ended ls \<equiv> concat (map (\<lambda>l. l @ [Newline]) ls)"

lemma write_series_lines: "write_series ftext s = ended (series_lines ftext s)"
proof -
  have "concat (map (\<lambda>(le, n). write_line a ls (e le) (f n)) bs) = ended (map (\<lambda>(le, n). line_text a ls (e le) (f n)) bs)"
    for a ls and e :: "fl \<Rightarrow> metric_label option" and f :: "64 word \<Rightarrow> string" and bs
    by (induction bs) (auto simp: write_line_text)
  then show ?thesis by (simp add: write_series_def series_lines_def write_line_text)
qed

lemma write_samples_lines: "write_samples ftext lst ss = ended (text_lines ftext lst ss)"
  by (induction ss arbitrary: lst) (simp_all add: write_series_lines write_heading_def heading_lines_def)

definition fine_sample :: "sample \<Rightarrow> bool" where
  "fine_sample s \<longleftrightarrow> valid_metric_name (sm_name s) \<and> canonical (sm_labels s)"

lemma plain_texts:
  assumes "\<And>x. Newline \<notin> set (ftext x)"
  shows "Newline \<notin> set (format_float ftext x)" "Newline \<notin> set (uint_text w)"
proof -
  show "Newline \<notin> set (format_float ftext x)" using assms by (cases x) (simp_all add: format_float_def)
  have "\<not> is_digit_byte Newline" by (simp add: is_digit_byte_def)
  then show "Newline \<notin> set (uint_text w)" using itoa_decimal[of "unat w"] by (auto simp: uint_text_def list_all_iff)
qed

lemma series_lines_fine:
  assumes "fine_sample s" and "\<And>x. Newline \<notin> set (ftext x)"
  shows "map read_line (series_lines ftext s) = readings ftext s \<and>
    (\<forall>l\<in>set (series_lines ftext s). Newline \<notin> set l \<and> l \<noteq> [] \<and> hd l \<noteq> CHR ''#'')"
proof -
  have name: "sm_name s \<noteq> []" "list_all name_char (sm_name s)"
    using assms(1) valid_name_chars by (auto simp: fine_sample_def)
  have keys: "\<forall>l\<in>set (all_labels (sm_labels s) e). list_all name_char (lb_key l)"
    if "e = None \<or> (\<exists>v. e = Some \<lparr>lb_key = ''le'', lb_value = v\<rparr>)" for e
    using that assms(1) clean_name_chars by (auto simp: all_labels_def fine_sample_def canonical_def name_char_def)
  have sfx: "list_all name_char (sm_name s @ x)" if "x \<in> {[], ''_bucket'', ''_sum'', ''_count''}" for x
    using name(2) that by (auto simp: name_char_def)
  have start: "line_text (sm_name s @ x) ls e v \<noteq> [] \<and> hd (line_text (sm_name s @ x) ls e v) \<noteq> CHR ''#''" for x ls e v
    using name by (cases "sm_name s") (auto simp: line_text_def name_char_def)
  have line: "read_line (line_text (sm_name s @ x) (sm_labels s) e v) = (sm_name s @ x, label_pairs (all_labels (sm_labels s) e), v)
      \<and> (Newline \<notin> set v \<longrightarrow> Newline \<notin> set (line_text (sm_name s @ x) (sm_labels s) e v))"
    if "x \<in> {[], ''_bucket'', ''_sum'', ''_count''}" "e = None \<or> (\<exists>v. e = Some \<lparr>lb_key = ''le'', lb_value = v\<rparr>)" for x e v
    using read_line_text[OF sfx[OF that(1)] keys[OF that(2)]] line_no_newline[OF sfx[OF that(1)] keys[OF that(2)]] by blast
  note lines = line[of "[]" None] line[of "''_bucket''" "Some _"] line[of "''_sum''" None] line[of "''_count''" None]
  note starts = start[of "[]"] start[of "''_bucket''"] start[of "''_sum''"] start[of "''_count''"]
  show ?thesis
  proof (cases "sm_type s = HistogramType")
    case True
    then show ?thesis
      using lines starts plain_texts[OF assms(2)]
      by (auto simp: series_lines_def readings_def all_labels_def label_pairs_def)
  next
    case False
    then show ?thesis
      using lines(1) starts(1) plain_texts[OF assms(2)]
      by (auto simp: series_lines_def readings_def all_labels_def)
  qed
qed

lemma text_lines_read:
  assumes "\<forall>s\<in>set ss. fine_sample s" and "\<And>x. Newline \<notin> set (ftext x)"
  shows "(\<forall>l\<in>set (text_lines ftext lst ss). Newline \<notin> set l) \<and>
    map read_line (filter (\<lambda>l. l \<noteq> [] \<and> hd l \<noteq> CHR ''#'') (text_lines ftext lst ss)) = concat (map (readings ftext) ss)"
  using assms(1)
proof (induction ss arbitrary: lst)
  case (Cons s ss)
  let ?p = "\<lambda>l. l \<noteq> [] \<and> hd l \<noteq> CHR ''#''"
  have name: "Newline \<notin> set (sm_name s)"
    using Cons.prems valid_name_chars[of "sm_name s"] by (auto simp: fine_sample_def list_all_iff name_char_def)
  have head: "filter ?p (heading_lines s) = []" "\<forall>l\<in>set (heading_lines s). Newline \<notin> set l"
    using name escape_no_newline by (auto simp: heading_lines_def type_text_def split: metric_type.splits)
  have fine: "fine_sample s" using Cons.prems by simp
  note sl = series_lines_fine[OF this assms(2)]
  then have "filter ?p (series_lines ftext s) = series_lines ftext s" by (auto simp: filter_id_conv)
  with sl head Cons show ?case by auto
qed simp

text \<open>C38: A scrape can be trusted: whatever names, help texts and label values the program used, reading the
  exposition line by line gives back exactly the samples of the registry, with their labels and values;
  no text of the program can end a line, a quoted value or a comment early.\<close>

theorem exposition_reads_back:
  assumes "metric_run ops = Some r" and "\<And>x. Newline \<notin> set (ftext x)"
  shows "read_text (write_exposition ftext r) = concat (map (readings ftext) (snapshot r))"
proof -
  have "fine_sample s" if s: "s \<in> set (snapshot r)" for s
  proof -
    obtain n v where v: "(n, v) \<in> set r" "s \<in> set (vec_samples v)" using s by (auto simp: snapshot_def)
    have "distinct (map fst r)" using run_inv[OF assms(1)] by (simp add: reg_inv_def)
    then have "map_of r n = Some v" using v(1) by simp
    then have "vec_ok v" "vc_name v = n" "valid_metric_name n" using run_inv[OF assms(1)] unfolding reg_inv_def by blast+
    with v(2) show ?thesis by (auto simp: vec_samples_def fine_sample_def vec_ok_def)
  qed
  with text_lines_read[where ftext = ftext and ss = "snapshot r" and lst = "[]", OF _ assms(2)] have
    t: "\<forall>l\<in>set (text_lines ftext [] (snapshot r)). Newline \<notin> set l"
    "map read_line (filter (\<lambda>l. l \<noteq> [] \<and> hd l \<noteq> CHR ''#'') (text_lines ftext [] (snapshot r))) =
      concat (map (readings ftext) (snapshot r))" by blast+
  from split_lines[of "text_lines ftext [] (snapshot r)" Newline "[]"] t(1)
  have "split_on Newline (write_exposition ftext r) = text_lines ftext [] (snapshot r) @ [[]]"
    by (simp add: write_exposition_def write_samples_lines)
  with t(2) show ?thesis by (simp add: read_text_def)
qed

definition nasty :: metric_label where
  "nasty = \<lparr>lb_key = ''k'', lb_value = ''a'' @ [Quote, Newline, Backslash] @ ''b''\<rparr>"

definition nasty_ops :: "metric_op list" where
  "nasty_ops = [RegCounter ''c'' ([Newline] @ ''x 1''), AddCounter ''c'' (Fin 1) [nasty]]"

lemma nasty_run: "metric_run nasty_ops = Some [(''c'', \<lparr>vc_name = ''c'', vc_help = [Newline] @ ''x 1'', vc_type = CounterType,
    vc_buckets = [], vc_children = [(label_key [nasty], \<lparr>sr_labels = [nasty], sr_value = Fin 1, sr_counts = [], sr_sum = 0, sr_count = 0\<rparr>)]\<rparr>)]"
proof -
  have "canonicalize [nasty] = ([nasty], label_key [nasty])" "valid_metric_name ''c''" by code_simp+
  moreover have "\<not> Fin 1 < 0" "0 + Fin 1 = Fin 1" by (simp_all add: zero_fl_def less_fl_def)
  ultimately show ?thesis
    by (simp add: metric_run_def nasty_ops_def reg_counter_def register_def on_vec_def counter_add_def on_series_def
        vec_get_def new_series_def Let_def)
qed

theorem exposition_reads_back_witness:
  "\<exists>r. metric_run nasty_ops = Some r \<and>
     read_text (write_exposition (\<lambda>x. if x = 1 then ''1'' else ''0'') r) = [(''c'', [(''k'', lb_value nasty)], ''1'')]"
  using exposition_reads_back[OF nasty_run, of "\<lambda>x. if x = 1 then ''1'' else ''0''"]
  by (simp add: nasty_run snapshot_def vec_samples_def snapshot_one_def readings_def label_pairs_def format_float_def)
    (simp add: nasty_def)

text \<open>
  A label of the program named like the bucket bound stands beside it in every bucket line of a histogram.
\<close>

lemma bucket_label_duplicated:
  "\<exists>r. metric_run [RegHistogram ''h'' [] [], Observe ''h'' (Fin 1) [\<lparr>lb_key = ''le'', lb_value = ''x''\<rparr>]] = Some r \<and>
     (''h_bucket'', [(''le'', ''x''), (''le'', ''+Inf'')], ''1'') \<in> set (concat (map (readings ftext) (snapshot r)))"
proof -
  let ?l = "\<lparr>lb_key = ''le'', lb_value = ''x''\<rparr>"
  have "canonicalize [?l] = ([?l], label_key [?l])" "valid_metric_name ''h''" by code_simp+
  moreover have "uint_text 1 = ''1''" by code_simp
  ultimately show ?thesis
    by (simp add: metric_run_def reg_histogram_def register_def on_vec_def observe_def on_series_def vec_get_def
        new_series_def Let_def normalize_buckets_def count_in_def search_floats_def snapshot_def vec_samples_def
        snapshot_one_def readings_def label_pairs_def format_float_def)
qed

end
