(* ===== verification/Instruments.thy ===== *)
theory Instruments
  imports Exposition
begin

text \<open>
  The instrument set of the harness (\<^verbatim>\<open>metric/middleware.go\<close>): what \<^verbatim>\<open>New\<close> registers, and the
  operations each middleware and recorder makes on it. Latencies are arguments.
\<close>

abbreviation NameLLMCalls :: string where "NameLLMCalls \<equiv> ''wombat_llm_calls_total''"
abbreviation NameLLMDuration :: string where "NameLLMDuration \<equiv> ''wombat_llm_duration_seconds''"
abbreviation NameLLMTokens :: string where "NameLLMTokens \<equiv> ''wombat_llm_tokens_total''"
abbreviation NameLLMCost :: string where "NameLLMCost \<equiv> ''wombat_llm_cost_usd_total''"
abbreviation NameLLMUnpriced :: string where "NameLLMUnpriced \<equiv> ''wombat_llm_unpriced_calls_total''"
abbreviation NameToolCalls :: string where "NameToolCalls \<equiv> ''wombat_tool_calls_total''"
abbreviation NameToolDuration :: string where "NameToolDuration \<equiv> ''wombat_tool_duration_seconds''"
abbreviation NameRuns :: string where "NameRuns \<equiv> ''wombat_runs_total''"
abbreviation NameRunDuration :: string where "NameRunDuration \<equiv> ''wombat_run_duration_seconds''"
abbreviation NameRunsActive :: string where "NameRunsActive \<equiv> ''wombat_runs_active''"
abbreviation NameIterations :: string where "NameIterations \<equiv> ''wombat_iterations_total''"

definition DefaultLLMBuckets :: "fl list" where
  "DefaultLLMBuckets = map Fin [1/10, 1/4, 1/2, 1, 2, 4, 8, 15, 30, 60, 120, 300, 600]"

definition DefaultToolBuckets :: "fl list" where
  "DefaultToolBuckets = map Fin [1/1000, 5/1000, 1/100, 25/1000, 5/100, 1/10, 1/4, 1/2, 1, 5/2, 5, 10, 30]"

definition runBuckets :: "fl list" where
  "runBuckets = map Fin [1, 5, 15, 30, 60, 120, 300, 600, 1800, 3600, 7200]"

definition new_metrics :: "metric_op list" where
  "new_metrics =
    [RegCounter NameLLMCalls ''Model calls completed, by model, purpose and outcome.'',
     RegHistogram NameLLMDuration ''Model call latency in seconds, by model and purpose.'' DefaultLLMBuckets,
     RegCounter NameLLMTokens ''Tokens consumed, by model and kind (input, output, cache_read, cache_write).'',
     RegCounter NameLLMCost ''Estimated model spend in USD, by model.'',
     RegCounter NameLLMUnpriced
       ''Model calls whose cost could not be computed because the pricing has no rate for the model, by model.'',
     RegCounter NameToolCalls ''Tool dispatches completed, by tool and outcome.'',
     RegHistogram NameToolDuration ''Tool dispatch latency in seconds, by tool.'' DefaultToolBuckets,
     RegCounter NameRuns ''Agent runs finished, by outcome.'',
     RegHistogram NameRunDuration ''Agent run duration in seconds, by outcome.'' runBuckets,
     RegGauge NameRunsActive ''Agent runs currently in flight.'',
     RegCounter NameIterations ''Agent loop iterations, by agent.'',
     SetGauge NameRunsActive (Fin 0) []]"

section \<open>Recorders\<close>

definition default_error_class :: "err option \<Rightarrow> string" where
  "default_error_class e = (case e of None \<Rightarrow> ''ok'' | Some _ \<Rightarrow> ''error'')"

text \<open>The last classifier given, if any; the empty word falls back to the default.\<close>

definition new_class :: "(err option \<Rightarrow> string) option list \<Rightarrow> err option \<Rightarrow> string" where
  "new_class opts e =
     (let inner = foldl (\<lambda>c o'. case o' of None \<Rightarrow> c | Some f \<Rightarrow> f) default_error_class opts; s = inner e in
      if s \<noteq> [] then s else default_error_class e)"

definition tag :: "string \<Rightarrow> string \<Rightarrow> metric_label" where
  "tag k v = \<lparr>lb_key = k, lb_value = v\<rparr>"

definition fl_int :: "int \<Rightarrow> fl" where
  "fl_int n = Fin (of_int n)"

definition llm_recorded ::
  "(string \<times> rate) list \<Rightarrow> (err option \<Rightarrow> string) \<Rightarrow> string \<Rightarrow> string \<Rightarrow> real \<Rightarrow> err + response \<Rightarrow> metric_op list" where
  "llm_recorded p class purpose asked elapsed result =
     (let purpose = (if purpose = [] then ''other'' else purpose);
          model = (case result of Inl _ \<Rightarrow> [] | Inr r \<Rightarrow> rs_model r);
          model = (if model = [] then asked else model);
          model = (if model = [] then ''default'' else model);
          m = tag ''model'' model; q = tag ''purpose'' purpose
      in [AddCounter NameLLMCalls (Fin 1) [m, q, tag ''outcome'' (class (case result of Inl e \<Rightarrow> Some e | Inr _ \<Rightarrow> None))],
          Observe NameLLMDuration (Fin elapsed) [m, q]] @
         (case result of
            Inl _ \<Rightarrow> []
          | Inr r \<Rightarrow>
             [AddCounter NameLLMTokens (fl_int (u_input (rs_usage r))) [m, tag ''kind'' ''input''],
              AddCounter NameLLMTokens (fl_int (u_output (rs_usage r))) [m, tag ''kind'' ''output''],
              AddCounter NameLLMTokens (fl_int (u_cache_read (rs_usage r))) [m, tag ''kind'' ''cache_read''],
              AddCounter NameLLMTokens (fl_int (u_cache_write (rs_usage r))) [m, tag ''kind'' ''cache_write''],
              AddCounter NameLLMCost (Fin (cost_usd p model (rs_usage r))) [m],
              AddCounter NameLLMUnpriced (if priced p model then Fin 0 else Fin 1) [m]]))"

definition tool_recorded :: "(err option \<Rightarrow> string) \<Rightarrow> string \<Rightarrow> real \<Rightarrow> err + string \<Rightarrow> metric_op list" where
  "tool_recorded class name elapsed result =
     (let t = tag ''tool'' (if name = [] then ''unknown'' else name) in
      [Observe NameToolDuration (Fin elapsed) [t],
       AddCounter NameToolCalls (Fin 1) [t, tag ''outcome'' (class (case result of Inl e \<Rightarrow> Some e | Inr _ \<Rightarrow> None))]])"

definition run_started :: "metric_op list" where
  "run_started = [AddGauge NameRunsActive (Fin 1) []]"

definition run_finished :: "string \<Rightarrow> real \<Rightarrow> metric_op list" where
  "run_finished outcome d =
     (let l = tag ''outcome'' (if outcome = [] then ''unknown'' else outcome) in
      [AddGauge NameRunsActive (Fin (-1)) [], AddCounter NameRuns (Fin 1) [l], Observe NameRunDuration (Fin d) [l]])"

definition iteration_recorded :: "string \<Rightarrow> metric_op list" where
  "iteration_recorded agent = [AddCounter NameIterations (Fin 1) [tag ''agent'' (if agent = [] then ''root'' else agent)]]"

section \<open>What a harness does\<close>

datatype metric_event =
    LlmCall "(string \<times> rate) list" "err option \<Rightarrow> string" string string real "err + response"
  | ToolCall "err option \<Rightarrow> string" string real "err + string"
  | RunStarted
  | RunFinished string real
  | Iterated string

fun event_ops :: "metric_event \<Rightarrow> metric_op list" where
  "event_ops (LlmCall p c q m t res) = llm_recorded p c q m t res"
| "event_ops (ToolCall c n t res) = tool_recorded c n t res"
| "event_ops RunStarted = run_started"
| "event_ops (RunFinished o' d) = run_finished o' d"
| "event_ops (Iterated a) = iteration_recorded a"

definition metrics_after :: "metric_event list \<Rightarrow> metric_registry option" where
  "metrics_after evs = metric_run (new_metrics @ concat (map event_ops evs))"

definition instrument_types :: "(string \<times> metric_type) list" where
  "instrument_types = [(NameLLMCalls, CounterType), (NameLLMDuration, HistogramType), (NameLLMTokens, CounterType),
     (NameLLMCost, CounterType), (NameLLMUnpriced, CounterType), (NameToolCalls, CounterType),
     (NameToolDuration, HistogramType), (NameRuns, CounterType), (NameRunDuration, HistogramType),
     (NameRunsActive, GaugeType), (NameIterations, CounterType)]"

definition equipped :: "metric_registry \<Rightarrow> bool" where
  "equipped r \<longleftrightarrow> (\<forall>n t. (n, t) \<in> set instrument_types \<longrightarrow> (\<exists>v. map_of r n = Some v \<and> vc_type v = t))"

lemma metric_run_append: "metric_run (xs @ ys) = Option.bind (metric_run xs) (\<lambda>r. foldl (\<lambda>r op. Option.bind r (metric_step op)) (Some r) ys)"
proof -
  have "foldl (\<lambda>r op. Option.bind r (metric_step op)) None ys = None" by (induction ys) auto
  then show ?thesis by (cases "metric_run xs") (simp_all add: metric_run_def)
qed

lemma op_vec_type: "vc_type (op_vec op v) = vc_type v"
  by (cases op) (auto simp: op_vec_def counter_add_def gauge_set_def gauge_add_def observe_def)

lemma equipped_step:
  assumes "equipped r" and "op_target op = Some (n, t)" and "(n, t) \<in> set instrument_types"
  shows "\<exists>v. map_of r n = Some v \<and> metric_step op r = Some (AList.update n (op_vec op v) r) \<and>
    equipped (AList.update n (op_vec op v) r)"
proof -
  obtain v where v: "map_of r n = Some v" "vc_type v = t" using assms(1,3) by (auto simp: equipped_def)
  then have "metric_step op r = Some (AList.update n (op_vec op v) r)"
    using assms(2) by (cases op) (auto simp: on_vec_def op_vec_def)
  moreover have "equipped (AList.update n (op_vec op v) r)"
    using assms(1) v unfolding equipped_def by (metis fun_upd_apply op_vec_type option.inject update_conv')
  ultimately show ?thesis using v by blast
qed

lemma event_targets: "op \<in> set (event_ops e) \<Longrightarrow> \<exists>n t. op_target op = Some (n, t) \<and> (n, t) \<in> set instrument_types"
  by (cases e) (auto simp: llm_recorded_def tool_recorded_def run_started_def run_finished_def iteration_recorded_def
      instrument_types_def Let_def split: sum.splits)

definition active_vec :: "real \<Rightarrow> vec \<Rightarrow> bool" where
  "active_vec k v \<longleftrightarrow> vc_name v = NameRunsActive \<and> vc_type v = GaugeType \<and>
     (\<exists>s. vc_children v = [([], s)] \<and> sr_labels s = [] \<and> sr_value s = Fin k)"

definition active_runs :: "real \<Rightarrow> metric_registry \<Rightarrow> bool" where
  "active_runs k r \<longleftrightarrow> (\<exists>v. map_of r NameRunsActive = Some v \<and> active_vec k v)"

lemma no_labels: "canonicalize [] = ([], [])"
  by (simp add: canonicalize_def label_key_def List.map_filter_def)

lemma active_add: "active_vec k v \<Longrightarrow> active_vec (k + x) (gauge_add (Fin x) [] v)"
  by (auto simp: active_vec_def gauge_add_def on_series_def vec_get_def no_labels Let_def)

lemma new_metrics_run: "\<exists>r. metric_run new_metrics = Some r \<and> equipped r \<and> active_runs 0 r"
proof -
  have names: "list_all (\<lambda>(n, t). valid_metric_name n) instrument_types" by code_simp
  have regs: "\<exists>vs. foldl (\<lambda>r op. Option.bind r (metric_step op)) (Some []) (butlast new_metrics) = Some vs \<and>
      map (\<lambda>(n, v). (n, vc_type v)) vs = rev instrument_types \<and>
      list_all (\<lambda>(n, v). vc_name v = n \<and> vc_children v = []) vs"
    using names by (simp add: new_metrics_def instrument_types_def reg_counter_def reg_gauge_def reg_histogram_def register_def)
  then obtain vs where vs: "metric_run (butlast new_metrics) = Some vs" "map (\<lambda>(n, v). (n, vc_type v)) vs = rev instrument_types"
    "list_all (\<lambda>(n, v). vc_name v = n \<and> vc_children v = []) vs" by (auto simp: metric_run_def)
  have keys: "map fst vs = rev (map fst instrument_types)" using arg_cong[OF vs(2), of "map fst"] by (simp add: comp_def case_prod_unfold rev_map)
  then have dist: "distinct (map fst vs)" by (simp add: instrument_types_def)
  have eq: "equipped vs"
    unfolding equipped_def
  proof (intro allI impI)
    fix n t assume "(n, t) \<in> set instrument_types"
    then have "(n, t) \<in> set (map (\<lambda>(n, v). (n, vc_type v)) vs)" using vs(2) by simp
    then show "\<exists>v. map_of vs n = Some v \<and> vc_type v = t" using dist by auto
  qed
  have last: "new_metrics = butlast new_metrics @ [SetGauge NameRunsActive (Fin 0) []]" by (simp add: new_metrics_def)
  have target: "op_target (SetGauge NameRunsActive (Fin 0) []) = Some (NameRunsActive, GaugeType)"
    "(NameRunsActive, GaugeType) \<in> set instrument_types" by (simp_all add: instrument_types_def)
  from equipped_step[OF eq target] obtain v where v: "map_of vs NameRunsActive = Some v"
    "metric_step (SetGauge NameRunsActive (Fin 0) []) vs = Some (AList.update NameRunsActive (gauge_set (Fin 0) [] v) vs)"
    "equipped (AList.update NameRunsActive (gauge_set (Fin 0) [] v) vs)" by (auto simp: op_vec_def)
  have "vc_type v = GaugeType" using eq v(1) target(2) unfolding equipped_def by fastforce
  moreover have "vc_name v = NameRunsActive" "vc_children v = []"
    using vs(3) map_of_SomeD[OF v(1)] by (auto simp: list_all_iff)
  ultimately have "active_vec 0 (gauge_set (Fin 0) [] v)"
    by (simp add: active_vec_def gauge_set_def on_series_def vec_get_def no_labels Let_def new_series_def)
  then have "active_runs 0 (AList.update NameRunsActive (gauge_set (Fin 0) [] v) vs)"
    by (simp add: active_runs_def update_conv')
  moreover have "metric_run new_metrics = Some (AList.update NameRunsActive (gauge_set (Fin 0) [] v) vs)"
    by (subst last) (simp add: metric_run_append vs(1) v(2) del: metric_step.simps)
  ultimately show ?thesis using v(3) by blast
qed

section \<open>Accounts of a harness\<close>

definition active_change :: "metric_event \<Rightarrow> int" where
  "active_change e = (case e of RunStarted \<Rightarrow> 1 | RunFinished _ _ \<Rightarrow> -1 | _ \<Rightarrow> 0)"

lemma active_other: "op_target op = Some (n, t) \<Longrightarrow> n \<noteq> NameRunsActive \<Longrightarrow> active_runs k r \<Longrightarrow>
    active_runs k (AList.update n v r)"
  by (auto simp: active_runs_def update_conv')

abbreviation run_from :: "metric_registry \<Rightarrow> metric_op list \<Rightarrow> metric_registry option" where
  "run_from r ops \<equiv> foldl (\<lambda>r op. Option.bind r (metric_step op)) (Some r) ops"

lemma others_keep_active:
  assumes "equipped r" and "active_runs k r"
    and "\<forall>op\<in>set ops. \<exists>n t. op_target op = Some (n, t) \<and> (n, t) \<in> set instrument_types \<and> n \<noteq> NameRunsActive"
  shows "\<exists>r'. run_from r ops = Some r' \<and> equipped r' \<and> active_runs k r'"
  using assms
proof (induction ops arbitrary: r)
  case (Cons op ops)
  then obtain n t where t: "op_target op = Some (n, t)" "(n, t) \<in> set instrument_types" "n \<noteq> NameRunsActive" by auto
  from equipped_step[OF Cons.prems(1) t(1,2)] obtain v where
    "metric_step op r = Some (AList.update n (op_vec op v) r)" "equipped (AList.update n (op_vec op v) r)" by blast
  with Cons.IH[of "AList.update n (op_vec op v) r"] active_other[OF t(1,3) Cons.prems(2)] Cons.prems(3) show ?case by simp
qed simp

lemma active_step:
  assumes "equipped r" and "active_runs k r"
  shows "\<exists>r'. run_from r [AddGauge NameRunsActive (Fin x) []] = Some r' \<and> equipped r' \<and> active_runs (k + x) r'"
proof -
  have target: "op_target (AddGauge NameRunsActive (Fin x) []) = Some (NameRunsActive, GaugeType)"
    "(NameRunsActive, GaugeType) \<in> set instrument_types" by (simp_all add: instrument_types_def)
  from equipped_step[OF assms(1) target] obtain v where v: "map_of r NameRunsActive = Some v"
    "metric_step (AddGauge NameRunsActive (Fin x) []) r = Some (AList.update NameRunsActive (gauge_add (Fin x) [] v) r)"
    "equipped (AList.update NameRunsActive (gauge_add (Fin x) [] v) r)" by (auto simp: op_vec_def)
  moreover have "active_runs (k + x) (AList.update NameRunsActive (gauge_add (Fin x) [] v) r)"
    using assms(2) v(1) active_add by (auto simp: active_runs_def update_conv')
  ultimately show ?thesis by simp
qed

lemma run_from_append: "run_from r (xs @ ys) = Option.bind (run_from r xs) (\<lambda>r. run_from r ys)"
proof -
  have "foldl (\<lambda>r op. Option.bind r (metric_step op)) None ys = None" by (induction ys) auto
  then show ?thesis by (cases "run_from r xs") simp_all
qed

lemma event_keeps:
  assumes "equipped r" and "active_runs (of_int k) r"
  shows "\<exists>r'. run_from r (event_ops e) = Some r' \<and> equipped r' \<and> active_runs (of_int (k + active_change e)) r'"
proof -
  consider (start) "e = RunStarted" | (finish) o' d where "e = RunFinished o' d"
    | (other) "active_change e = 0" "\<forall>op\<in>set (event_ops e). op_target op \<noteq> Some (NameRunsActive, GaugeType)"
    by (cases e) (auto simp: active_change_def llm_recorded_def tool_recorded_def iteration_recorded_def Let_def split: sum.splits)
  then show ?thesis
  proof cases
    case start
    with active_step[OF assms, of 1] show ?thesis by (simp add: run_started_def active_change_def)
  next
    case (finish o' d)
    from active_step[OF assms, of "-1"] obtain r' where r': "run_from r [AddGauge NameRunsActive (Fin (-1)) []] = Some r'"
      "equipped r'" "active_runs (of_int (k - 1)) r'" by auto
    have "\<exists>r''. run_from r' (tl (event_ops e)) = Some r'' \<and> equipped r'' \<and> active_runs (of_int (k - 1)) r''"
      using r'(2,3) by (intro others_keep_active) (auto simp: finish run_finished_def Let_def instrument_types_def)
    moreover have "event_ops e = [AddGauge NameRunsActive (Fin (-1)) []] @ tl (event_ops e)"
      by (simp add: finish run_finished_def Let_def)
    then have "run_from r (event_ops e) = run_from r' (tl (event_ops e))"
      using run_from_append[of r "[AddGauge NameRunsActive (Fin (-1)) []]" "tl (event_ops e)"] r'(1) by (metis bind.bind_lunit)
    ultimately show ?thesis by (simp add: finish active_change_def)
  next
    case other
    have "\<exists>n t. op_target op = Some (n, t) \<and> (n, t) \<in> set instrument_types \<and> n \<noteq> NameRunsActive"
      if op: "op \<in> set (event_ops e)" for op
    proof -
      obtain n t where nt: "op_target op = Some (n, t)" "(n, t) \<in> set instrument_types" using event_targets[OF op] by blast
      then have "n = NameRunsActive \<Longrightarrow> t = GaugeType" by (auto simp: instrument_types_def)
      with nt other(2) op show ?thesis by blast
    qed
    with others_keep_active[OF assms, of "event_ops e"] other(1) show ?thesis by simp
  qed
qed

lemma metrics_after_ok: "\<exists>r. metrics_after evs = Some r \<and> equipped r \<and> active_runs (of_int (sum_list (map active_change evs))) r"
proof (induction evs rule: rev_induct)
  case Nil
  from new_metrics_run show ?case by (simp add: metrics_after_def)
next
  case (snoc e evs)
  then obtain r where r: "metrics_after evs = Some r" "equipped r" "active_runs (of_int (sum_list (map active_change evs))) r" by blast
  have "metrics_after (evs @ [e]) = run_from r (event_ops e)"
    using r(1) by (simp add: metrics_after_def metric_run_append[of "new_metrics @ concat (map event_ops evs)", simplified])
  with event_keeps[OF r(2,3)] show ?case by simp
qed

abbreviation shown :: "string \<Rightarrow> metric_registry \<Rightarrow> fl" where
  "shown n r \<equiv> sum_list (map sm_value (samples_of n r))"

lemma counter_total:
  assumes "metric_run ops = Some r" and "map_of r n = Some v" and "vc_type v = CounterType"
  shows "shown n r = sum_list (map snd (recorded n ops))"
proof -
  obtain G where G: "mset (concat (map G (samples_of n r))) = mset (recorded n ops)"
    "\<forall>s\<in>set (samples_of n r). accounted v (length (samples_of n r)) s (G s)"
    using run_inv[OF assms(1)] recorded_accounts[OF assms(1,2)] by blast
  have "map sm_value (samples_of n r) = map (\<lambda>s. sum_list (map snd (G s))) (samples_of n r)"
    using G(2) assms(3) by (auto simp: accounted_def)
  moreover have "sum_list (map (\<lambda>s. sum_list (map snd (G s))) ss) = sum_list (map snd (concat (map G ss)))" for ss
    by (induction ss) auto
  moreover have "sum_list (map snd xs) = sum_list (map snd ys)" if "mset xs = mset ys" for xs ys :: records
    using that by (metis mset_map sum_mset_sum_list)
  ultimately show ?thesis using G(1) by metis
qed

definition reply_usage :: "metric_event \<Rightarrow> usage list" where
  "reply_usage e = (case e of LlmCall _ _ _ _ _ (Inr r) \<Rightarrow> [rs_usage r] | _ \<Rightarrow> [])"

definition usage_total :: "usage \<Rightarrow> int" where
  "usage_total u = u_input u + u_output u + u_cache_read u + u_cache_write u"

definition usage_counted :: "usage \<Rightarrow> bool" where
  "usage_counted u \<longleftrightarrow> u_input u \<ge> 0 \<and> u_output u \<ge> 0 \<and> u_cache_read u \<ge> 0 \<and> u_cache_write u \<ge> 0"

lemma recorded_append: "recorded n (xs @ ys) = recorded n xs @ recorded n ys"
  by (simp add: recorded_def)

lemma nothing_registered: "recorded n new_metrics = []"
  by (simp add: recorded_def new_metrics_def)

lemma event_records:
  "sum_list (map snd (recorded NameLLMCalls (event_ops e))) = Fin (case e of LlmCall _ _ _ _ _ _ \<Rightarrow> 1 | _ \<Rightarrow> 0)"
  "sum_list (map snd (recorded NameToolCalls (event_ops e))) = Fin (case e of ToolCall _ _ _ _ \<Rightarrow> 1 | _ \<Rightarrow> 0)"
  "\<forall>u\<in>set (reply_usage e). usage_counted u \<Longrightarrow>
     sum_list (map snd (recorded NameLLMTokens (event_ops e))) = Fin (of_int (sum_list (map usage_total (reply_usage e))))"
  by (cases e; auto simp: recorded_def llm_recorded_def tool_recorded_def run_started_def run_finished_def
      iteration_recorded_def Let_def zero_fl_def fl_int_def less_fl_def reply_usage_def usage_total_def usage_counted_def
      split: sum.splits)+

lemma events_sum:
  assumes "\<And>e. e \<in> set evs \<Longrightarrow> sum_list (map snd (recorded n (event_ops e))) = Fin (f e)"
  shows "sum_list (map snd (recorded n (new_metrics @ concat (map event_ops evs)))) = Fin (sum_list (map f evs))"
proof -
  have "sum_list (map snd (recorded n (concat (map event_ops evs)))) = Fin (sum_list (map f evs))"
    using assms
  proof (induction evs)
    case Nil
    then show ?case by (simp add: recorded_def zero_fl_def)
  next
    case (Cons e evs)
    then show ?case by (simp add: recorded_append)
  qed
  then show ?thesis by (simp add: recorded_append nothing_registered)
qed

lemma shown_counter:
  assumes "metrics_after evs = Some r" and "equipped r" and "(n, CounterType) \<in> set instrument_types"
    and "\<And>e. e \<in> set evs \<Longrightarrow> sum_list (map snd (recorded n (event_ops e))) = Fin (f e)"
  shows "shown n r = Fin (sum_list (map f evs))"
proof -
  obtain v where "map_of r n = Some v" "vc_type v = CounterType" using assms(2,3) by (auto simp: equipped_def)
  with counter_total[of _ r n v] events_sum[OF assms(4)] assms(1) show ?thesis by (simp add: metrics_after_def)
qed

lemma shown_active:
  assumes "metrics_after evs = Some r" and "active_runs k r"
  shows "map sm_value (samples_of NameRunsActive r) = [Fin k]"
proof -
  obtain v where v: "map_of r NameRunsActive = Some v" "active_vec k v" using assms(2) by (auto simp: active_runs_def)
  have inv: "reg_inv r (new_metrics @ concat (map event_ops evs))"
    using assms(1) run_inv by (simp add: metrics_after_def)
  then have "distinct (map fst r)" "\<And>m u. map_of r m = Some u \<Longrightarrow> vc_name u = m" by (auto simp: reg_inv_def)
  from samples_of_mset[OF this v(1)] have "mset (samples_of NameRunsActive r) = mset (vec_samples v)" .
  moreover obtain s where "vec_samples v = [s]" "sm_value s = Fin k"
    using v(2) by (auto simp: active_vec_def vec_samples_def snapshot_one_def)
  ultimately show ?thesis by simp
qed

text \<open>The metrics tell what the harness did: recording never panics, and after any sequence of model
  calls, tool calls, iterations and runs the active-run gauge is the runs started less those finished, the
  call counters add up to the calls made, and the token counter to the usage of all successful calls.\<close>

theorem metrics_account_for_calls:
  assumes "\<forall>e\<in>set evs. \<forall>u\<in>set (reply_usage e). usage_counted u"
  shows "\<exists>r. metrics_after evs = Some r \<and>
    map sm_value (samples_of NameRunsActive r) = [Fin (of_int (sum_list (map active_change evs)))] \<and>
    shown NameLLMCalls r = Fin (\<Sum>e\<leftarrow>evs. case e of LlmCall _ _ _ _ _ _ \<Rightarrow> 1 | _ \<Rightarrow> 0) \<and>
    shown NameToolCalls r = Fin (\<Sum>e\<leftarrow>evs. case e of ToolCall _ _ _ _ \<Rightarrow> 1 | _ \<Rightarrow> 0) \<and>
    shown NameLLMTokens r = Fin (\<Sum>e\<leftarrow>evs. of_int (sum_list (map usage_total (reply_usage e))))"
proof -
  obtain r where r: "metrics_after evs = Some r" "equipped r" "active_runs (of_int (sum_list (map active_change evs))) r"
    using metrics_after_ok by blast
  note counter = shown_counter[OF r(1,2)]
  have calls: "shown NameLLMCalls r = Fin (\<Sum>e\<leftarrow>evs. case e of LlmCall _ _ _ _ _ _ \<Rightarrow> 1 | _ \<Rightarrow> 0)"
    by (rule counter[OF _ event_records(1)]) (simp add: instrument_types_def)
  have tools: "shown NameToolCalls r = Fin (\<Sum>e\<leftarrow>evs. case e of ToolCall _ _ _ _ \<Rightarrow> 1 | _ \<Rightarrow> 0)"
    by (rule counter[OF _ event_records(2)]) (simp add: instrument_types_def)
  have tokens: "shown NameLLMTokens r = Fin (\<Sum>e\<leftarrow>evs. of_int (sum_list (map usage_total (reply_usage e))))"
  proof (rule counter)
    show "(NameLLMTokens, CounterType) \<in> set instrument_types" by (simp add: instrument_types_def)
    fix e assume "e \<in> set evs"
    with assms have "\<forall>u\<in>set (reply_usage e). usage_counted u" by blast
    then show "sum_list (map snd (recorded NameLLMTokens (event_ops e))) = Fin (of_int (sum_list (map usage_total (reply_usage e))))"
      by (rule event_records(3))
  qed
  show ?thesis by (intro exI[of _ r] conjI) (fact r(1), fact shown_active[OF r(1,3)], fact calls, fact tools, fact tokens)
qed

definition busy_day :: "metric_event list" where
  "busy_day = [RunStarted, LlmCall [] default_error_class [] ''m'' 1
       (Inr \<lparr>rs_content = [], rs_stop = [], rs_usage = \<lparr>u_input = 3, u_output = 4, u_cache_write = 0, u_cache_read = 0\<rparr>, rs_model = []\<rparr>),
     LlmCall [] default_error_class [] ''m'' 1 (Inl (Sentinel ''down'')), ToolCall default_error_class ''ls'' 1 (Inr []), RunStarted,
     RunFinished ''success'' 5]"

theorem metrics_account_for_calls_witness:
  "\<exists>r. metrics_after busy_day = Some r \<and> map sm_value (samples_of NameRunsActive r) = [Fin 1] \<and>
     shown NameLLMCalls r = Fin 2 \<and> shown NameToolCalls r = Fin 1 \<and> shown NameLLMTokens r = Fin 7"
  using metrics_account_for_calls[of busy_day]
  by (simp add: busy_day_def reply_usage_def usage_counted_def active_change_def usage_total_def)

text \<open>
  Building the instrument set again on the same registry, as two wirings do, zeroes the gauge of the runs
  in flight.
\<close>

lemma second_new_zeroes_active_runs:
  "\<exists>r r'. metrics_after [RunStarted] = Some r \<and> map sm_value (samples_of NameRunsActive r) = [Fin 1] \<and>
     run_from r [SetGauge NameRunsActive (Fin 0) []] = Some r' \<and>
     (\<exists>v s. map_of r' NameRunsActive = Some v \<and> vc_children v = [([], s)] \<and> sr_value s = Fin 0)"
proof -
  obtain r where r: "metrics_after [RunStarted] = Some r" "equipped r" "active_runs 1 r"
    using metrics_after_ok[of "[RunStarted]"] by (auto simp: active_change_def)
  then obtain v where v: "map_of r NameRunsActive = Some v" "active_vec 1 v" by (auto simp: active_runs_def)
  then obtain s where s: "vc_children v = [([], s)]" "vc_type v = GaugeType" by (auto simp: active_vec_def)
  let ?v = "gauge_set (Fin 0) [] v"
  let ?r = "AList.update NameRunsActive ?v r"
  have run: "run_from r [SetGauge NameRunsActive (Fin 0) []] = Some ?r"
    using v(1) s(2) by (simp add: on_vec_def)
  have kids: "vc_children ?v = [([], s\<lparr>sr_value := Fin 0\<rparr>)]"
    using s(1) by (simp add: gauge_set_def on_series_def vec_get_def no_labels Let_def)
  have at: "map_of ?r NameRunsActive = Some ?v" by (simp only: update_conv' fun_upd_same)
  have zero: "sr_value (s\<lparr>sr_value := Fin 0\<rparr>) = Fin 0" by simp
  show ?thesis
    by (intro exI conjI) (fact r(1), fact shown_active[OF r(1,3)], fact run, fact at, fact kids, fact zero)
qed

end
