(* ===== verification/FileTools.thy ===== *)
theory FileTools
  imports ToolChain Paths Wire
begin

text \<open>
  The file system of the built-in tools and the tools over it (\<^verbatim>\<open>tool/builtin/fs.go\<close>,
  \<^verbatim>\<open>tool/builtin/file_tools.go\<close>, and the shared helpers of \<^verbatim>\<open>tool/builtin/builtin.go\<close>). A file system is
  a record of operations on a world; \<open>os_fs\<close> is the one over an operating system, which is a function from
  a call and a world to a reply and a world.
\<close>

section \<open>The operating system\<close>

datatype os_call =
    OsReadFile string
  | OsReadDir string
  | OsStat string
  | OsMkdirAll string
  | OsCreateTemp string string
  | OsWrite string string
  | OsSync string
  | OsClose string
  | OsChmod string nat
  | OsRename string string
  | OsRemove string
  | OsOpen string

datatype os_reply = Done | Bytes string | StatInfo bool nat | Entries "(string \<times> bool) list" | TempNumber nat

type_synonym 'w os = "os_call \<Rightarrow> 'w \<Rightarrow> (err + os_reply) \<times> 'w"

fun reply_bytes :: "os_reply \<Rightarrow> string" where
  "reply_bytes (Bytes s) = s"
| "reply_bytes _ = []"

fun reply_number :: "os_reply \<Rightarrow> nat" where
  "reply_number (TempNumber n) = n"
| "reply_number _ = 0"

text \<open>\<^verbatim>\<open>os.CreateTemp\<close>: the operating system picks the number that ends the name.\<close>

definition temp_name :: "string \<Rightarrow> string \<Rightarrow> nat \<Rightarrow> string" where
  "temp_name dir pat n = (if has_suffix dir ''/'' then dir @ pat @ itoa n else dir @ ''/'' @ pat @ itoa n)"

fun reply_entries :: "os_reply \<Rightarrow> (string \<times> bool) list" where
  "reply_entries (Entries es) = es"
| "reply_entries _ = []"

section \<open>The file system\<close>

datatype file_kind = KindMissing | KindFile | KindDir

record 'w fs =
  fs_read :: "string \<Rightarrow> 'w \<Rightarrow> (err + string) \<times> 'w"
  fs_write :: "string \<Rightarrow> string \<Rightarrow> 'w \<Rightarrow> err option \<times> 'w"
  fs_stat :: "string \<Rightarrow> 'w \<Rightarrow> (err + file_kind) \<times> 'w"
  fs_list :: "string \<Rightarrow> 'w \<Rightarrow> (err + string list) \<times> 'w"

definition ErrOutsideRoot :: err where
  "ErrOutsideRoot = CallerErr (Sentinel ''builtin: path escapes the filesystem root'')"

definition clean_root :: "string \<Rightarrow> string" where
  "clean_root rt = (if rt \<noteq> [] then clean_path rt else rt)"

definition fs_resolve :: "string \<Rightarrow> string \<Rightarrow> err + string" where
  "fs_resolve rt path =
     (let clean = clean_path path in
      if rt = [] then Inr clean
      else if clean \<noteq> rt \<and> \<not> has_prefix clean (rt @ ''/'')
      then Inl (Wrapf (quote path @ '' is outside '' @ quote rt) [ErrOutsideRoot])
      else Inr clean)"

text \<open>Every method asks the context first, then resolves the path. \<open>ctx\<close> is \<^verbatim>\<open>ctx.Err\<close>.\<close>

definition with_path ::
  "('w \<Rightarrow> err option) \<Rightarrow> string \<Rightarrow> string \<Rightarrow> (err \<Rightarrow> 'r) \<Rightarrow> (string \<Rightarrow> 'w \<Rightarrow> 'r \<times> 'w) \<Rightarrow> 'w \<Rightarrow> 'r \<times> 'w" where
  "with_path ctx rt path bad k w =
     (case ctx w of
        Some e \<Rightarrow> (bad e, w)
      | None \<Rightarrow> (case fs_resolve rt path of Inl e \<Rightarrow> (bad e, w) | Inr p \<Rightarrow> k p w))"

definition os_read_file :: "'w os \<Rightarrow> string \<Rightarrow> 'w \<Rightarrow> (err + string) \<times> 'w" where
  "os_read_file os p w = (case os (OsReadFile p) w of (Inl e, w') \<Rightarrow> (Inl e, w') | (Inr r, w') \<Rightarrow> (Inr (reply_bytes r), w'))"

text \<open>\<^verbatim>\<open>syncDir\<close>: best effort.\<close>

definition sync_dir :: "'w os \<Rightarrow> string \<Rightarrow> 'w \<Rightarrow> 'w" where
  "sync_dir os d w = (case os (OsOpen d) w of
     (Inl _, w) \<Rightarrow> w
   | (Inr _, w) \<Rightarrow> snd (os (OsClose d) (snd (os (OsSync d) w))))"

text \<open>The temporary file from its creation to the rename; a failed step closes it where the code does.\<close>

definition fill_temp :: "'w os \<Rightarrow> string \<Rightarrow> string \<Rightarrow> string \<Rightarrow> nat \<Rightarrow> 'w \<Rightarrow> err option \<times> 'w" where
  "fill_temp os t p data mode w =
     (case os (OsWrite t data) w of
        (Inl e, w) \<Rightarrow> (Some (Wrapf (''write '' @ p) [e]), snd (os (OsClose t) w))
      | (Inr _, w) \<Rightarrow>
     (case os (OsSync t) w of
        (Inl e, w) \<Rightarrow> (Some (Wrapf (''sync '' @ p) [e]), snd (os (OsClose t) w))
      | (Inr _, w) \<Rightarrow>
     (case os (OsClose t) w of
        (Inl e, w) \<Rightarrow> (Some (Wrapf (''close '' @ p) [e]), w)
      | (Inr _, w) \<Rightarrow>
     (case os (OsChmod t mode) w of
        (Inl e, w) \<Rightarrow> (Some (Wrapf (''chmod '' @ p) [e]), w)
      | (Inr _, w) \<Rightarrow>
     (case os (OsRename t p) w of
        (Inl e, w) \<Rightarrow> (Some (Wrapf (''rename onto '' @ p) [e]), w)
      | (Inr _, w) \<Rightarrow> (None, sync_dir os (path_dir p) w))))))"

text \<open>The permission bits of a file that is there, else \<open>0644\<close>.\<close>

definition file_mode :: "err + os_reply \<Rightarrow> nat" where
  "file_mode st = (case st of Inr (StatInfo _ m) \<Rightarrow> m mod 512 | _ \<Rightarrow> 420)"

definition temp_pattern :: "string \<Rightarrow> string" where
  "temp_pattern p = ''.'' @ path_base p @ ''.tmp''"

definition os_write_file :: "'w os \<Rightarrow> string \<Rightarrow> string \<Rightarrow> 'w \<Rightarrow> err option \<times> 'w" where
  "os_write_file os data p w =
     (case os (OsMkdirAll (path_dir p)) w of
        (Inl e, w) \<Rightarrow> (Some (Wrapf (''create parent of '' @ p) [e]), w)
      | (Inr _, w) \<Rightarrow>
     (case os (OsStat p) w of
        (st, w) \<Rightarrow>
     (case os (OsCreateTemp (path_dir p) (temp_pattern p)) w of
        (Inl e, w) \<Rightarrow> (Some (Wrapf (''create temp for '' @ p) [e]), w)
      | (Inr r, w) \<Rightarrow>
     (let t = temp_name (path_dir p) (temp_pattern p) (reply_number r) in
      case fill_temp os t p data (file_mode st) w of
        (res, w) \<Rightarrow> (res, snd (os (OsRemove t) w))))))"

definition os_stat :: "'w os \<Rightarrow> string \<Rightarrow> 'w \<Rightarrow> (err + file_kind) \<times> 'w" where
  "os_stat os p w =
     (case os (OsStat p) w of
        (Inl e, w) \<Rightarrow> (if errors_is e ErrNotExist then Inr KindMissing else Inl e, w)
      | (Inr (StatInfo d _), w) \<Rightarrow> (Inr (if d then KindDir else KindFile), w)
      | (Inr _, w) \<Rightarrow> (Inr KindFile, w))"

definition os_list_dir :: "'w os \<Rightarrow> string \<Rightarrow> 'w \<Rightarrow> (err + string list) \<times> 'w" where
  "os_list_dir os p w =
     (case os (OsReadDir p) w of
        (Inl e, w) \<Rightarrow> (Inl e, w)
      | (Inr r, w) \<Rightarrow> (Inr (map (\<lambda>(n, d). if d then n @ ''/'' else n) (reply_entries r)), w))"

definition os_fs :: "'w os \<Rightarrow> ('w \<Rightarrow> err option) \<Rightarrow> string \<Rightarrow> 'w fs" where
  "os_fs os ctx rt =
     (let r = clean_root rt in
      \<lparr>fs_read = (\<lambda>path. with_path ctx r path Inl (os_read_file os)),
       fs_write = (\<lambda>path data. with_path ctx r path Some (os_write_file os data)),
       fs_stat = (\<lambda>path. with_path ctx r path Inl (os_stat os)),
       fs_list = (\<lambda>path. with_path ctx r path Inl (os_list_dir os))\<rparr>)"

section \<open>Shared helpers\<close>

definition maxToolOutput :: int where "maxToolOutput = 8000"

definition cut_output :: "string \<Rightarrow> string" where
  "cut_output s = clip_head s maxToolOutput"

definition require_abs :: "string \<Rightarrow> string \<Rightarrow> err option" where
  "require_abs field path =
     (if path = [] then Some (Wrapf (''field '' @ field @ '' must not be empty'') [])
      else if \<not> has_prefix path ''/''
      then Some (Wrapf (''field '' @ field @ '' must be an absolute path (starts with /), got: '' @ quote path) [])
      else None)"

section \<open>The file tools\<close>

text \<open>\<^verbatim>\<open>%5d\<close>.\<close>

definition pad5 :: "string \<Rightarrow> string" where
  "pad5 s = replicate (5 - length s) CHR '' '' @ s"

definition number_row :: "string list \<Rightarrow> int \<Rightarrow> string" where
  "number_row lines i = pad5 (int_text i) @ [CHR 0x09] @ lines ! nat (i - 1)"

definition trim_suffix :: "string \<Rightarrow> string \<Rightarrow> string" where
  "trim_suffix s t = (if has_suffix s t then take (length s - length t) s else s)"

text \<open>
  \<^verbatim>\<open>numberLines\<close>. The separator is written when the builder is not empty, which it is from the second
  row on, since every row has a tab.
\<close>

definition number_lines :: "string \<Rightarrow> int list \<Rightarrow> string" where
  "number_lines content view_range =
     (let lines = split_on CHR 0x0A (trim_suffix content [CHR 0x0A]);
          total = int (length lines);
          (s, e) = (case view_range of [a, b] \<Rightarrow> (a, b) | _ \<Rightarrow> (1, total));
          s = (if s < 1 then 1 else s);
          e = (if e > total then total else e)
      in cut_output (join_with [CHR 0x0A] (map (number_row lines) [s..e])))"

definition view_file :: "'w fs \<Rightarrow> string \<times> int list \<Rightarrow> 'w \<Rightarrow> (err + string) \<times> 'w" where
  "view_file fs inp w =
     (case inp of (path, view_range) \<Rightarrow>
      (case require_abs ''path'' path of
         Some e \<Rightarrow> (Inl e, w)
       | None \<Rightarrow>
      (case fs_stat fs path w of
         (Inl e, w) \<Rightarrow> (Inl e, w)
       | (Inr KindMissing, w) \<Rightarrow> (Inl (CallerErr (Wrapf (''no such file or directory: '' @ path) [])), w)
       | (Inr KindDir, w) \<Rightarrow>
           (case fs_list fs path w of
              (Inl e, w) \<Rightarrow> (Inl e, w)
            | (Inr entries, w) \<Rightarrow>
                (Inr (cut_output (''Directory: '' @ path @ concat (map (\<lambda>e. CHR 0x0A # ''  '' @ e) entries))), w))
       | (Inr KindFile, w) \<Rightarrow>
           (case fs_read fs path w of
              (Inl e, w) \<Rightarrow> (Inl e, w)
            | (Inr data, w) \<Rightarrow> (Inr (number_lines data view_range), w)))))"

definition write_file :: "'w fs \<Rightarrow> string \<times> string \<Rightarrow> 'w \<Rightarrow> (err + string) \<times> 'w" where
  "write_file fs inp w =
     (case inp of (path, content) \<Rightarrow>
      (case require_abs ''path'' path of
         Some e \<Rightarrow> (Inl e, w)
       | None \<Rightarrow>
      (case fs_write fs path content w of
         (Some e, w) \<Rightarrow> (Inl e, w)
       | (None, w) \<Rightarrow> (Inr (''wrote '' @ itoa (length content) @ '' bytes to '' @ path), w))))"

text \<open>\<^verbatim>\<open>strings.Count\<close> on a pattern that is not empty: occurrences that do not overlap, from the left.\<close>

function count_sub :: "string \<Rightarrow> string \<Rightarrow> nat" where
  "count_sub [] p = 0"
| "count_sub (c # s) p =
     (if p = [] then 0
      else if has_prefix (c # s) p then Suc (count_sub (drop (length p) (c # s)) p)
      else count_sub s p)"
  by pat_completeness auto
termination by (relation "measure (\<lambda>(s, p). length s)") auto

declare count_sub.simps(2) [simp del]

text \<open>\<^verbatim>\<open>strings.Replace\<close> with a limit of 1: the first occurrence.\<close>

fun replace_first :: "string \<Rightarrow> string \<Rightarrow> string \<Rightarrow> string" where
  "replace_first [] old new = []"
| "replace_first (c # s) old new =
     (if has_prefix (c # s) old then new @ drop (length old) (c # s) else c # replace_first s old new)"

definition str_replace :: "'w fs \<Rightarrow> string \<times> string \<times> string \<Rightarrow> 'w \<Rightarrow> (err + string) \<times> 'w" where
  "str_replace fs inp w =
     (case inp of (path, old, new) \<Rightarrow>
      (case require_abs ''path'' path of
         Some e \<Rightarrow> (Inl e, w)
       | None \<Rightarrow>
      (case fs_read fs path w of
         (Inl e, w) \<Rightarrow> (Inl e, w)
       | (Inr content, w) \<Rightarrow>
           (let n = (if old \<noteq> [] then count_sub content old else 0) in
            if n = 0 then (Inl (CallerErr (Wrapf (''old_str not found in '' @ path) [])), w)
            else if n > 1
            then (Inl (CallerErr (Wrapf (''old_str matches '' @ itoa n @ '' times in '' @ path) [])), w)
            else let updated = replace_first content old new in
              (case fs_write fs path updated w of
                 (Some e, w) \<Rightarrow> (Inl e, w)
               | (None, w) \<Rightarrow> (Inr (''replaced 1 occurrence in '' @ path), w))))))"

definition ErrNoTranscript :: err where
  [sentinel_defs]: "ErrNoTranscript = Sentinel ''builtin: no transcript lookup in this context''"

text \<open>\<open>lookup\<close> is what the loop puts on the context, if anything.\<close>

definition save_tool_result ::
  "(tool_use_id \<Rightarrow> err + string) option \<Rightarrow> 'w fs \<Rightarrow> string \<times> string \<Rightarrow> 'w \<Rightarrow> (err + string) \<times> 'w" where
  "save_tool_result lookup fs inp w =
     (case inp of (i, path) \<Rightarrow>
      if i = [] then (Inl (CallerErr (Wrapf ''field tool_use_id must not be empty'' [])), w)
      else (case require_abs ''path'' path of
         Some e \<Rightarrow> (Inl e, w)
       | None \<Rightarrow>
      (case lookup of
         None \<Rightarrow> (Inl (Wrapf ''save_tool_result only works inside an agent loop'' [ErrNoTranscript]), w)
       | Some look \<Rightarrow>
      (case look i of
         Inl e \<Rightarrow> (Inl (Wrapf (''tool_result '' @ i) [e]), w)
       | Inr content \<Rightarrow>
      (case fs_write fs path content w of
         (Some e, w) \<Rightarrow> (Inl e, w)
       | (None, w) \<Rightarrow>
           (Inr (''saved '' @ itoa (length content) @ '' bytes from tool_result '' @ i @ '' to '' @ path), w))))))"

text \<open>The arguments of the four tools.\<close>

definition view_file_in :: "(string \<times> json) list \<Rightarrow> (string \<times> int list) option" where
  "view_file_in kvs =
     (case (field_str ''path'' kvs,
            array_of (\<lambda>v. case v of JNum t \<Rightarrow> int_of_text t | JNull \<Rightarrow> Some 0 | _ \<Rightarrow> None) ''view_range'' kvs) of
        (Some p, Some r) \<Rightarrow> Some (p, r) | _ \<Rightarrow> None)"

definition two_fields :: "string \<Rightarrow> string \<Rightarrow> (string \<times> json) list \<Rightarrow> (string \<times> string) option" where
  "two_fields a b kvs =
     (case (field_str a kvs, field_str b kvs) of (Some x, Some y) \<Rightarrow> Some (x, y) | _ \<Rightarrow> None)"

definition str_replace_in :: "(string \<times> json) list \<Rightarrow> (string \<times> string \<times> string) option" where
  "str_replace_in kvs =
     (case (field_str ''path'' kvs, two_fields ''old_str'' ''new_str'' kvs) of
        (Some p, Some q) \<Rightarrow> Some (p, q) | _ \<Rightarrow> None)"

definition typed_tool ::
  "((string \<times> json) list \<Rightarrow> 'i option) \<Rightarrow> string \<Rightarrow> ('i \<Rightarrow> 'w \<Rightarrow> (err + string) \<times> 'w) \<Rightarrow> string \<Rightarrow> 'w \<Rightarrow> call_end \<times> 'w" where
  "typed_tool dec name f raw w =
     (case typed_input dec name raw of
        Inl e \<Rightarrow> (Returned (Inl e), w)
      | Inr i \<Rightarrow> (case f i w of (r, w) \<Rightarrow> (Returned r, w)))"

fun file_tool :: "(tool_use_id \<Rightarrow> err + string) option \<Rightarrow> 'w fs \<Rightarrow> string \<Rightarrow> (string \<Rightarrow> 'w \<Rightarrow> call_end \<times> 'w) option" where
  "file_tool lookup fs name =
     (if name = ''view_file'' then Some (typed_tool view_file_in name (view_file fs))
      else if name = ''write_file'' then Some (typed_tool (two_fields ''path'' ''content'') name (write_file fs))
      else if name = ''str_replace'' then Some (typed_tool str_replace_in name (str_replace fs))
      else if name = ''save_tool_result''
      then Some (typed_tool (two_fields ''tool_use_id'' ''path'') name (save_tool_result lookup fs))
      else None)"

definition EINTR :: err where [sentinel_defs]: "EINTR = Sentinel ''interrupted system call''"
definition EAGAIN :: err where [sentinel_defs]: "EAGAIN = Sentinel ''resource temporarily unavailable''"
definition ETXTBSY :: err where [sentinel_defs]: "ETXTBSY = Sentinel ''text file busy''"

definition retry_fs :: "err \<Rightarrow> bool" where
  "retry_fs e = (errors_is e EINTR \<or> errors_is e EAGAIN \<or> errors_is e ETXTBSY)"

section \<open>The calls a tool makes\<close>

text \<open>The operating system with a record of the calls made of it.\<close>

definition call_logged :: "'w os \<Rightarrow> ('w \<times> os_call list) os" where
  "call_logged os c = (\<lambda>(w, log). case os c w of (r, w') \<Rightarrow> (r, w', log @ [c]))"

fun call_paths :: "os_call \<Rightarrow> string list" where
  "call_paths (OsCreateTemp d _) = [d]"
| "call_paths (OsRename a b) = [a, b]"
| "call_paths (OsReadFile p) = [p]"
| "call_paths (OsReadDir p) = [p]"
| "call_paths (OsStat p) = [p]"
| "call_paths (OsMkdirAll p) = [p]"
| "call_paths (OsWrite p _) = [p]"
| "call_paths (OsSync p) = [p]"
| "call_paths (OsClose p) = [p]"
| "call_paths (OsChmod p _) = [p]"
| "call_paths (OsRemove p) = [p]"
| "call_paths (OsOpen p) = [p]"

definition inside :: "string list \<Rightarrow> string \<Rightarrow> bool" where
  "inside rs p \<longleftrightarrow> is_abs p \<and> has_prefix (clean_elems p) rs"

text \<open>Replacing the root itself touches its directory and a temporary file beside it.\<close>

definition beside :: "string list \<Rightarrow> string \<Rightarrow> bool" where
  "beside rs p \<longleftrightarrow> is_abs p \<and>
     (clean_elems p = butlast rs \<or> (\<exists>n. clean_elems p = butlast rs @ [''.'' @ last rs @ ''.tmp'' @ itoa n]))"

definition near :: "string list \<Rightarrow> string \<Rightarrow> bool" where
  "near rs p \<longleftrightarrow> inside rs p \<or> beside rs p"

definition allowed_call :: "string list \<Rightarrow> os_call \<Rightarrow> bool" where
  "allowed_call rs c = list_all (near rs) (call_paths c)"

locale call_keeper =
  fixes fs :: "'w fs" and inv :: "'w \<Rightarrow> bool"
  assumes read_keeps: "inv w \<Longrightarrow> inv (snd (fs_read fs p w))"
    and write_keeps: "inv w \<Longrightarrow> inv (snd (fs_write fs p d w))"
    and stat_keeps: "inv w \<Longrightarrow> inv (snd (fs_stat fs p w))"
    and list_keeps: "inv w \<Longrightarrow> inv (snd (fs_list fs p w))"
begin

lemma op_keeps:
  "fs_read fs p w = (a, w') \<Longrightarrow> inv w \<Longrightarrow> inv w'"
  "fs_write fs p d w = (b, w') \<Longrightarrow> inv w \<Longrightarrow> inv w'"
  "fs_stat fs p w = (c, w') \<Longrightarrow> inv w \<Longrightarrow> inv w'"
  "fs_list fs p w = (l, w') \<Longrightarrow> inv w \<Longrightarrow> inv w'"
  using read_keeps[of w p] write_keeps[of w p d] stat_keeps[of w p] list_keeps[of w p] by auto

lemma view_keeps: "inv w \<Longrightarrow> inv (snd (view_file fs i w))"
  by (auto simp: view_file_def split: prod.splits option.splits sum.splits file_kind.splits dest: op_keeps)

lemma write_tool_keeps: "inv w \<Longrightarrow> inv (snd (write_file fs i w))"
  by (auto simp: write_file_def split: prod.splits option.splits dest: op_keeps)

lemma replace_keeps: "inv w \<Longrightarrow> inv (snd (str_replace fs i w))"
  by (auto simp: str_replace_def Let_def split: prod.splits option.splits sum.splits dest: op_keeps)

lemma save_keeps: "inv w \<Longrightarrow> inv (snd (save_tool_result look fs i w))"
  by (auto simp: save_tool_result_def split: prod.splits option.splits sum.splits dest: op_keeps)

lemma typed_keeps: "(\<And>i. inv (snd (f i w))) \<Longrightarrow> inv w \<Longrightarrow> inv (snd (typed_tool dec name f raw w))"
  by (simp add: typed_tool_def split: sum.split prod.split) (metis snd_conv)

lemma file_tool_keeps: "file_tool look fs name = Some f \<Longrightarrow> inv w \<Longrightarrow> inv (snd (f raw w))"
  by (auto split: if_splits intro!: typed_keeps view_keeps write_tool_keeps replace_keeps save_keeps)

end

text \<open>The names a resolved path stands for.\<close>

lemma fs_resolve_names:
  assumes "is_abs rt" and "clean_elems rt \<noteq> []" and "fs_resolve (clean_root rt) path = Inr p"
  shows "\<exists>qs. p = rooted_path (clean_elems rt @ qs) \<and> list_all plain_name (clean_elems rt @ qs)"
proof -
  have r: "clean_root rt = rooted_path (clean_elems rt)" and ne: "clean_root rt \<noteq> []"
    using assms(1) by (auto simp: clean_root_def clean_path_rooted is_abs_def has_prefix_def rooted_path_def)
  with assms(3) have p: "p = clean_path path" and c: "path_contains (clean_root rt) p"
    by (auto simp: fs_resolve_def path_contains_def Let_def split: if_splits)
  have "is_abs p" using c by (auto simp: path_contains_def r is_abs_def has_prefix_iff rooted_path_def)
  then have abs: "is_abs path" unfolding p by (rule clean_abs)
  then have "p = rooted_path (clean_elems path)" "list_all plain_name (clean_elems path)"
    by (simp_all add: p clean_path_rooted clean_elems_plain)
  moreover have "list_all plain_name (clean_elems rt)" by (rule clean_elems_plain[OF assms(1)])
  ultimately show ?thesis using c assms(2) by (auto simp: r path_contains_names)
qed

lemma temp_name_rooted:
  assumes "list_all plain_name (ps @ [n])"
  shows "temp_name (path_dir (rooted_path (ps @ [n]))) (temp_pattern (rooted_path (ps @ [n]))) k =
      rooted_path (ps @ [''.'' @ n @ ''.tmp'' @ itoa k])"
    and "plain_name (''.'' @ n @ ''.tmp'' @ itoa k)"
proof -
  have "CHR ''/'' \<notin> set (itoa k)" using itoa_digits[of k] by (auto simp: list_all_iff is_digit_def)
  with assms show "plain_name (''.'' @ n @ ''.tmp'' @ itoa k)" by (auto simp: plain_name_def)
  show "temp_name (path_dir (rooted_path (ps @ [n]))) (temp_pattern (rooted_path (ps @ [n]))) k =
      rooted_path (ps @ [''.'' @ n @ ''.tmp'' @ itoa k])"
    using assms by (simp add: dir_rooted temp_pattern_def base_rooted temp_name_def rooted_ends_slash)
      (simp add: rooted_path_def join_with_append)
qed

lemma inside_rooted: "list_all plain_name ps \<Longrightarrow> inside rs (rooted_path ps) \<longleftrightarrow> has_prefix ps rs"
  by (simp add: inside_def clean_elems_rooted)

lemma beside_rooted: "list_all plain_name ps \<Longrightarrow> beside rs (rooted_path ps) \<longleftrightarrow>
    ps = butlast rs \<or> (\<exists>n. ps = butlast rs @ [''.'' @ last rs @ ''.tmp'' @ itoa n])"
  by (simp add: beside_def clean_elems_rooted)

text \<open>Every path a write names is in the tree, or beside its root when the root itself is written.\<close>

lemma near_write:
  assumes "list_all plain_name (rs @ qs)" and "rs \<noteq> []" and "p = rooted_path (rs @ qs)"
  shows "near rs p" and "near rs (path_dir p)" and "near rs (temp_name (path_dir p) (temp_pattern p) k)"
proof -
  from assms(2) obtain ps n where pn: "rs @ qs = ps @ [n]" by (metis append_is_Nil_conv rev_exhaust)
  then have plain: "list_all plain_name (ps @ [n])" "p = rooted_path (ps @ [n])" using assms by simp_all
  have tmp: "temp_name (path_dir p) (temp_pattern p) k = rooted_path (ps @ [''.'' @ n @ ''.tmp'' @ itoa k])"
    "plain_name (''.'' @ n @ ''.tmp'' @ itoa k)" using temp_name_rooted[OF plain(1), of k] plain(2) by simp_all
  have dir: "path_dir p = rooted_path ps" using plain by (simp add: dir_rooted)
  show "near rs p" using assms by (simp add: near_def inside_rooted)
  show "near rs (path_dir p)"
  proof (cases "qs = []")
    case True
    with pn have "rs = ps @ [n]" by simp
    then show ?thesis using plain(1) by (simp add: near_def dir beside_rooted)
  next
    case False
    with pn have "ps = rs @ butlast qs" by (metis butlast_append butlast_snoc)
    then show ?thesis using plain(1) by (simp add: near_def dir inside_rooted)
  qed
  show "near rs (temp_name (path_dir p) (temp_pattern p) k)"
  proof (cases "qs = []")
    case True
    with pn have "rs = ps @ [n]" by simp
    then show ?thesis using plain tmp by (auto simp: near_def beside_rooted)
  next
    case False
    with pn have "ps = rs @ butlast qs" by (metis butlast_append butlast_snoc)
    then show ?thesis using plain tmp by (simp add: near_def inside_rooted)
  qed
qed

definition calls_near :: "string \<Rightarrow> 'w \<times> os_call list \<Rightarrow> bool" where
  "calls_near rt = (\<lambda>(w, log). is_abs rt \<and> clean_elems rt \<noteq> [] \<longrightarrow> list_all (allowed_call (clean_elems rt)) log)"

definition near_call :: "string \<Rightarrow> os_call \<Rightarrow> bool" where
  "near_call rt c \<longleftrightarrow> (is_abs rt \<and> clean_elems rt \<noteq> [] \<longrightarrow> allowed_call (clean_elems rt) c)"

lemma logged_near: "calls_near rt w \<Longrightarrow> near_call rt c \<Longrightarrow> calls_near rt (snd (call_logged os c w))"
  by (auto simp: call_logged_def calls_near_def near_call_def split: prod.splits)

lemma near_cases:
  assumes "calls_near rt w" and "near_call rt c"
    and "\<And>e w. calls_near rt w \<Longrightarrow> calls_near rt (snd (f e w))"
    and "\<And>r w. calls_near rt w \<Longrightarrow> calls_near rt (snd (g r w))"
  shows "calls_near rt (snd (case call_logged os c w of (Inl e, w) \<Rightarrow> f e w | (Inr r, w) \<Rightarrow> g r w))"
  using logged_near[OF assms(1,2), of os] assms(3,4) by (auto split: prod.splits sum.splits)

lemma sync_dir_near: "calls_near rt w \<Longrightarrow> near_call rt (OsOpen d) \<Longrightarrow> calls_near rt (sync_dir (call_logged os) d w)"
  using logged_near[of rt w "OsOpen d" os]
  by (auto simp: sync_dir_def near_call_def allowed_call_def split: prod.splits sum.splits intro!: logged_near)

lemma fill_temp_near:
  assumes "calls_near rt w" and "near_call rt (OsRename t p)" and "near_call rt (OsOpen (path_dir p))"
  shows "calls_near rt (snd (fill_temp (call_logged os) t p data mode w))"
proof -
  have "near_call rt (OsWrite t data)" "near_call rt (OsSync t)" "near_call rt (OsClose t)" "near_call rt (OsChmod t mode)"
    using assms(2) by (auto simp: near_call_def allowed_call_def)
  with assms show ?thesis unfolding fill_temp_def
    by (intro near_cases) (simp_all add: logged_near sync_dir_near)
qed

lemma write_file_near:
  assumes "calls_near rt w"
    and "is_abs rt \<Longrightarrow> clean_elems rt \<noteq> [] \<Longrightarrow>
      \<exists>qs. p = rooted_path (clean_elems rt @ qs) \<and> list_all plain_name (clean_elems rt @ qs)"
  shows "calls_near rt (snd (os_write_file (call_logged os) data p w))"
proof -
  define t where "t = temp_name (path_dir p) (temp_pattern p)"
  have "near (clean_elems rt) p \<and> near (clean_elems rt) (path_dir p) \<and> near (clean_elems rt) (t k)"
    if "is_abs rt" "clean_elems rt \<noteq> []" for k
    using assms(2)[OF that] near_write[OF _ that(2)] by (auto simp: t_def)
  then have calls: "near_call rt (OsMkdirAll (path_dir p))" "near_call rt (OsStat p)"
    "near_call rt (OsCreateTemp (path_dir p) x)" "near_call rt (OsRename (t k) p)" "near_call rt (OsOpen (path_dir p))"
    "near_call rt (OsRemove (t k))" for x k
    by (simp_all add: near_call_def allowed_call_def)
  have filled: "calls_near rt w \<Longrightarrow>
      calls_near rt (snd (case fill_temp (call_logged os) (t k) p data m w of (res, w) \<Rightarrow> (res, snd (call_logged os (OsRemove (t k)) w))))" for k m w
    using fill_temp_near[OF _ calls(4,5), of w os k data m] calls(6) by (auto split: prod.splits intro!: logged_near)
  have stat: "calls_near rt (snd (case call_logged os (OsStat p) w of (st, w) \<Rightarrow> h st w))"
    if "calls_near rt w" "\<And>st w. calls_near rt w \<Longrightarrow> calls_near rt (snd (h st w))" for w h
    using logged_near[OF that(1) calls(2), of os] that(2) by (auto split: prod.splits)
  show ?thesis unfolding os_write_file_def Let_def t_def[symmetric]
    by (intro near_cases stat filled assms(1) calls) simp_all
qed

interpretation rooted: call_keeper "os_fs (call_logged os) ctx rt" "calls_near rt" for os :: "'w os" and ctx rt
proof
  fix w :: "'w \<times> os_call list" and p d
  assume near: "calls_near rt w"
  have names: "\<exists>qs. q = rooted_path (clean_elems rt @ qs) \<and> list_all plain_name (clean_elems rt @ qs)"
    if "fs_resolve (clean_root rt) p = Inr q" "is_abs rt" "clean_elems rt \<noteq> []" for q
    using fs_resolve_names that by blast
  have one: "near_call rt c" if "fs_resolve (clean_root rt) p = Inr q" "call_paths c = [q]" for c q
    using names[OF that(1)] near_write(1)[of "clean_elems rt"] that(2) by (auto simp: near_call_def allowed_call_def)
  have path: "calls_near rt (snd (with_path ctx (clean_root rt) p bad k w))"
    if "\<And>q. fs_resolve (clean_root rt) p = Inr q \<Longrightarrow> calls_near rt (snd (k q w))" for bad :: "err \<Rightarrow> 'r" and k
    using near that by (auto simp: with_path_def split: option.splits sum.splits)
  show "calls_near rt (snd (fs_read (os_fs (call_logged os) ctx rt) p w))"
    unfolding os_fs_def Let_def fs.simps os_read_file_def by (intro path near_cases near one) simp_all
  show "calls_near rt (snd (fs_stat (os_fs (call_logged os) ctx rt) p w))"
    unfolding os_fs_def Let_def fs.simps
  proof (intro path)
    fix q assume "fs_resolve (clean_root rt) p = Inr q"
    then have "calls_near rt (snd (call_logged os (OsStat q) w))" by (intro logged_near near one) simp_all
    then show "calls_near rt (snd (os_stat (call_logged os) q w))"
      by (auto simp: os_stat_def split: prod.splits sum.splits os_reply.splits)
  qed
  show "calls_near rt (snd (fs_list (os_fs (call_logged os) ctx rt) p w))"
    unfolding os_fs_def Let_def fs.simps os_list_dir_def by (intro path near_cases near one) simp_all
  show "calls_near rt (snd (fs_write (os_fs (call_logged os) ctx rt) p d w))"
    unfolding os_fs_def Let_def fs.simps by (intro path write_file_near near names) simp_all
qed

section \<open>Confinement\<close>

lemma confined_by_log:
  "calls_near rt (w, cs) \<Longrightarrow> is_abs rt \<Longrightarrow> clean_elems rt \<noteq> [] \<Longrightarrow> c \<in> set cs \<Longrightarrow> p \<in> set (call_paths c) \<Longrightarrow>
   inside (clean_elems rt) p \<or> beside (clean_elems rt) p"
  by (auto simp: calls_near_def list_all_iff allowed_call_def near_def)

lemma outside_refused:
  assumes "is_abs rt" and "clean_elems rt \<noteq> []" and "is_abs path" and "\<not> inside (clean_elems rt) path"
  shows "\<exists>m. fs_resolve (clean_root rt) path = Inl (Wrapf m [ErrOutsideRoot])"
proof (cases "fs_resolve (clean_root rt) path")
  case (Inl e)
  then show ?thesis by (auto simp: fs_resolve_def Let_def split: if_splits)
next
  case (Inr p)
  from fs_resolve_names[OF assms(1,2) this] obtain qs where
    "p = rooted_path (clean_elems rt @ qs)" "list_all plain_name (clean_elems rt @ qs)" by blast
  moreover have "p = rooted_path (clean_elems path)" using Inr assms(3)
    by (auto simp: fs_resolve_def Let_def clean_path_rooted split: if_splits)
  ultimately have "clean_elems path = clean_elems rt @ qs" using rooted_inj clean_elems_plain[OF assms(3)] by metis
  then show ?thesis using assms(3,4) by (simp add: inside_def)
qed


definition path_input :: string where
  "path_input = json_render (JObj [(''path'', JStr ''/w/../etc''), (''content'', JStr ''x'')])"


text \<open>Asked to write the root itself, a rooted file system creates a file beside it.\<close>

lemma writing_root_leaves_tree:
  "snd (snd (fs_write (os_fs (call_logged (\<lambda>c w. (Inr (TempNumber 7), w))) (\<lambda>_. None) ''/w'') ''/w'' ''x'' ((), []))) =
    [OsMkdirAll ''/'', OsStat ''/w'', OsCreateTemp ''/'' ''.w.tmp'', OsWrite ''/.w.tmp7'' ''x'', OsSync ''/.w.tmp7'',
     OsClose ''/.w.tmp7'', OsChmod ''/.w.tmp7'' 420, OsRename ''/.w.tmp7'' ''/w'', OsOpen ''/'', OsSync ''/'',
     OsClose ''/'', OsRemove ''/.w.tmp7'']"
  by code_simp

text \<open>The directory \<open>/\<close> as a root refuses everything below it.\<close>

lemma slash_root_refuses: "list_all plain_name ps \<Longrightarrow> ps \<noteq> [] \<Longrightarrow> \<exists>e. fs_resolve (clean_root ''/'') (rooted_path ps) = Inl e"
proof -
  assume ps: "list_all plain_name ps" "ps \<noteq> []"
  have r: "clean_root ''/'' = ''/''" by code_simp
  have c: "clean_path (rooted_path ps) = rooted_path ps" using ps by (simp add: clean_path_rooted clean_elems_rooted)
  show ?thesis using path_contains_root[OF ps(1)] ps(2) by (auto simp: r fs_resolve_def Let_def c path_contains_def)
qed

end
