(* ===== verification/FileEdits.thy ===== *)
theory FileEdits
  imports FileTools
begin

text \<open>
  What the file tools do to files: a write replaces a file at once (\<^verbatim>\<open>fs.go\<close>), an edit touches one
  place, a view shows the lines of the file (\<^verbatim>\<open>file_tools.go\<close>).
\<close>

section \<open>A write is atomic\<close>

text \<open>The operating system with a record of the worlds it went through.\<close>

definition traced :: "'w os \<Rightarrow> ('w \<times> 'w list) os" where
  "traced os c = (\<lambda>(w, ws). case os c w of (r, w') \<Rightarrow> (r, w', ws @ [w']))"

text \<open>
  What POSIX says of these calls, \<open>view\<close> giving the contents of the files: a temporary file is new and
  empty, a complete write to it is what it holds, a rename moves the contents at once or changes nothing, and
  the other calls leave the contents of every file alone.
\<close>

fun disk_law :: "('w \<Rightarrow> string \<Rightarrow> string option) \<Rightarrow> os_call \<Rightarrow> 'w \<Rightarrow> err + os_reply \<Rightarrow> 'w \<Rightarrow> bool" where
  "disk_law view (OsCreateTemp d pat) w r w' =
     (case r of
        Inr (TempNumber n) \<Rightarrow> view w (temp_name d pat n) = None \<and> view w' = (view w)(temp_name d pat n \<mapsto> [])
      | Inr _ \<Rightarrow> False
      | Inl _ \<Rightarrow> view w' = view w)"
| "disk_law view (OsWrite t data) w r w' =
     ((\<forall>q. q \<noteq> t \<longrightarrow> view w' q = view w q) \<and>
      (case r of Inl _ \<Rightarrow> True | Inr _ \<Rightarrow> (view w t = Some [] \<longrightarrow> view w' t = Some data)))"
| "disk_law view (OsRename a b) w r w' =
     (case r of Inl _ \<Rightarrow> view w' = view w | Inr _ \<Rightarrow> view w' = (view w)(b := view w a, a := None))"
| "disk_law view (OsRemove t) w r w' = (\<forall>q. q \<noteq> t \<longrightarrow> view w' q = view w q)"
| "disk_law view c w r w' = (view w' = view w)"

definition disk_laws :: "'w os \<Rightarrow> ('w \<Rightarrow> string \<Rightarrow> string option) \<Rightarrow> bool" where
  "disk_laws os view \<longleftrightarrow> (\<forall>c w. case os c w of (r, w') \<Rightarrow> disk_law view c w r w')"

text \<open>Apart from \<open>t\<close> the files are as in \<open>v\<close>, and as in one of \<open>vs\<close> at every moment before.\<close>

definition held :: "('w \<Rightarrow> string \<Rightarrow> string option) \<Rightarrow> string \<Rightarrow> (string \<Rightarrow> string option) set \<Rightarrow> (string \<Rightarrow> string option)
    \<Rightarrow> 'w \<times> 'w list \<Rightarrow> bool" where
  "held view t vs v = (\<lambda>(w, ws).
     v \<in> vs \<and> (\<forall>q. q \<noteq> t \<longrightarrow> view w q = v q) \<and> (\<forall>x\<in>set ws. \<exists>v\<in>vs. \<forall>q. q \<noteq> t \<longrightarrow> view x q = v q))"

definition temp_holds :: "('w \<Rightarrow> string \<Rightarrow> string option) \<Rightarrow> string \<Rightarrow> string \<Rightarrow> 'w \<times> 'w list \<Rightarrow> bool" where
  "temp_holds view t data W = (view (fst W) t = Some data)"

fun quiet_on :: "string \<Rightarrow> os_call \<Rightarrow> bool" where
  "quiet_on t (OsWrite a _) = (a = t)"
| "quiet_on t (OsRemove a) = (a = t)"
| "quiet_on t (OsCreateTemp _ _) = False"
| "quiet_on t (OsRename _ _) = False"
| "quiet_on t _ = True"

lemma traced_quiet:
  assumes "disk_laws os view" and "quiet_on t c" and "held view t vs v W"
  shows "held view t vs v (snd (traced os c W))"
proof -
  obtain w ws where W: "W = (w, ws)" by (cases W)
  obtain r w' where s: "os c w = (r, w')" by (cases "os c w")
  then have "disk_law view c w r w'" using assms(1) unfolding disk_laws_def by (metis case_prod_conv)
  then have "\<forall>q. q \<noteq> t \<longrightarrow> view w' q = view w q" using assms(2) by (cases c) auto
  then show ?thesis using assms(3) s by (auto simp: held_def traced_def W)
qed

lemma traced_reads:
  assumes "disk_laws os view" and "c = OsSync a \<or> c = OsClose a \<or> c = OsChmod a m" and "temp_holds view t data W"
  shows "temp_holds view t data (snd (traced os c W))"
proof -
  obtain w ws where W: "W = (w, ws)" by (cases W)
  obtain r w' where s: "os c w = (r, w')" by (cases "os c w")
  then have "disk_law view c w r w'" using assms(1) unfolding disk_laws_def by (metis case_prod_conv)
  then show ?thesis using assms(2,3) s by (auto simp: temp_holds_def traced_def W)
qed

lemma traced_write:
  assumes "disk_laws os view" and "temp_holds view t [] W" and "traced os (OsWrite t data) W = (Inr x, W')"
  shows "temp_holds view t data W'"
proof -
  obtain w ws where W: "W = (w, ws)" by (cases W)
  obtain w' where s: "os (OsWrite t data) w = (Inr x, w')" "fst W' = w'" using assms(3) by (auto simp: W traced_def split: prod.splits)
  then have "disk_law view (OsWrite t data) w (Inr x) w'" using assms(1) unfolding disk_laws_def by (metis case_prod_conv)
  then show ?thesis using assms(2) s by (simp add: temp_holds_def W)
qed

lemma traced_rename:
  assumes "disk_laws os view" and "held view t {v, v(p \<mapsto> data)} v W" and "temp_holds view t data W" and "t \<noteq> p"
    and "traced os (OsRename t p) W = (r, W')"
  shows "held view t {v, v(p \<mapsto> data)} (case r of Inl _ \<Rightarrow> v | Inr _ \<Rightarrow> v(p \<mapsto> data)) W'"
proof -
  obtain w ws where W: "W = (w, ws)" by (cases W)
  obtain w' where s: "os (OsRename t p) w = (r, w')" "W' = (w', ws @ [w'])" using assms(5) by (auto simp: W traced_def split: prod.splits)
  then have "disk_law view (OsRename t p) w r w'" using assms(1) unfolding disk_laws_def by (metis case_prod_conv)
  then show ?thesis using assms(2,3,4) s by (auto simp: held_def temp_holds_def W split: sum.splits)
qed

lemma sync_dir_quiet:
  "disk_laws os view \<Longrightarrow> held view t vs v W \<Longrightarrow> held view t vs v (sync_dir (traced os) d W)"
  using traced_quiet[of os view t "OsOpen d" vs v W]
  by (auto simp: sync_dir_def split: prod.splits sum.splits intro!: traced_quiet)

lemma fill_temp_atomic:
  assumes laws: "disk_laws os view" and "t \<noteq> p" and "held view t {v, v(p \<mapsto> data)} v W" and "temp_holds view t [] W"
    and run: "fill_temp (traced os) t p data m W = (r, W')"
  shows "held view t {v, v(p \<mapsto> data)} (if r = None then v(p \<mapsto> data) else v) W'"
proof -
  let ?vs = "{v, v(p \<mapsto> data)}"
  have quiet: "held view t ?vs u X'" if "traced os c X = (x, X')" "held view t ?vs u X" "quiet_on t c" for c X x X' u
    using traced_quiet[OF laws that(3,2)] that(1) by simp
  have reads: "temp_holds view t data X'" if "traced os c X = (x, X')" "temp_holds view t data X"
    "c = OsSync t \<or> c = OsClose t \<or> c = OsChmod t m" for c X x X'
    using traced_reads[OF laws that(3,2)] that(1) by simp
  obtain x1 W1 where 1: "traced os (OsWrite t data) W = (x1, W1)" by (metis prod.exhaust)
  obtain x2 W2 where 2: "traced os (OsSync t) W1 = (x2, W2)" by (metis prod.exhaust)
  obtain x3 W3 where 3: "traced os (OsClose t) W2 = (x3, W3)" by (metis prod.exhaust)
  obtain x4 W4 where 4: "traced os (OsChmod t m) W3 = (x4, W4)" by (metis prod.exhaust)
  obtain x5 W5 where 5: "traced os (OsRename t p) W4 = (x5, W5)" by (metis prod.exhaust)
  have h: "held view t ?vs v W1" "held view t ?vs v W2" "held view t ?vs v W3" "held view t ?vs v W4"
    using quiet[OF 1 assms(3)] quiet[OF 2] quiet[OF 3] quiet[OF 4] by simp_all
  have closed: "held view t ?vs v (snd (traced os (OsClose t) X))" if "held view t ?vs v X" for X
    using traced_quiet[OF laws _ that] by simp
  show ?thesis
  proof (cases x1)
    case (Inr y1)
    then have t: "temp_holds view t data W1" "temp_holds view t data W2" "temp_holds view t data W3" "temp_holds view t data W4"
      using traced_write[OF laws assms(4)] 1 reads[OF 2] reads[OF 3] reads[OF 4] by simp_all
    have last: "held view t ?vs (case x5 of Inl _ \<Rightarrow> v | Inr _ \<Rightarrow> v(p \<mapsto> data)) W5"
      by (rule traced_rename[OF laws h(4) t(4) assms(2) 5])
    then have "x5 = Inr y \<Longrightarrow> held view t ?vs (v(p \<mapsto> data)) (sync_dir (traced os) (path_dir p) W5)" for y
      by (intro sync_dir_quiet[OF laws]) simp
    then show ?thesis using run 1 2 3 4 5 Inr h last closed[of W2]
      by (cases x2; cases x3; cases x4; cases x5) (auto simp: fill_temp_def)
  qed (use run 1 h closed[of W1] in \<open>auto simp: fill_temp_def\<close>)
qed

lemma temp_name_other: "list_all plain_name (ps @ [n]) \<Longrightarrow> p = rooted_path (ps @ [n]) \<Longrightarrow> temp_name (path_dir p) (temp_pattern p) k \<noteq> p"
  using temp_name_rooted[of ps n k] rooted_inj[of "ps @ [''.'' @ n @ ''.tmp'' @ itoa k]" "ps @ [n]"]
  by (auto dest: arg_cong[where f = length])

lemma write_file_atomic:
  assumes laws: "disk_laws os view" and "\<And>k. temp_name (path_dir p) (temp_pattern p) k \<noteq> p"
    and run: "os_write_file (traced os) data p (w, []) = (r, W')"
  shows "\<exists>k. held view (temp_name (path_dir p) (temp_pattern p) k) {view w, (view w)(p \<mapsto> data)}
    (if r = None then (view w)(p \<mapsto> data) else view w) W'"
proof -
  define t where "t = temp_name (path_dir p) (temp_pattern p)"
  let ?vs = "{view w, (view w)(p \<mapsto> data)}" let ?v = "view w"
  have quiet: "held view (t k) ?vs ?v X'" if "traced os c X = (x, X')" "held view (t k) ?vs ?v X" "quiet_on (t k) c" for c X x X' k
    using traced_quiet[OF laws that(3,2)] that(1) by simp
  obtain x1 W1 where 1: "traced os (OsMkdirAll (path_dir p)) (w, []) = (x1, W1)" by (metis prod.exhaust)
  obtain x2 W2 where 2: "traced os (OsStat p) W1 = (x2, W2)" by (metis prod.exhaust)
  obtain x3 W3 where 3: "traced os (OsCreateTemp (path_dir p) (temp_pattern p)) W2 = (x3, W3)" by (metis prod.exhaust)
  define r0 where "r0 = (\<lambda>y. fst (fill_temp (traced os) (t (reply_number y)) p data (file_mode x2) W3))"
  define W4 where "W4 = (\<lambda>y. snd (fill_temp (traced os) (t (reply_number y)) p data (file_mode x2) W3))"
  have 4: "fill_temp (traced os) (t (reply_number y)) p data (file_mode x2) W3 = (r0 y, W4 y)" for y
    by (simp add: r0_def W4_def)
  have h: "held view (t k) ?vs ?v W1" "held view (t k) ?vs ?v W2" for k
    using quiet[OF 1, of k] quiet[OF 2, of k] by (simp_all add: held_def)
  have same: "view (fst W2) = ?v"
    using 1 2 laws by (auto simp: disk_laws_def traced_def split: prod.splits) (metis case_prod_conv disk_law.simps(7,8))+
  have new: "held view (t k) ?vs ?v W3 \<and> (case x3 of Inr y \<Rightarrow> k = reply_number y \<longrightarrow> temp_holds view (t k) [] W3 | Inl _ \<Rightarrow> True)"
    if "case x3 of Inr y \<Rightarrow> k = reply_number y | Inl _ \<Rightarrow> True" for k
  proof -
    obtain w2 ws where W2: "W2 = (w2, ws)" by (cases W2)
    obtain w3 where s: "os (OsCreateTemp (path_dir p) (temp_pattern p)) w2 = (x3, w3)" "W3 = (w3, ws @ [w3])"
      using 3 by (auto simp: W2 traced_def split: prod.splits)
    then have "disk_law view (OsCreateTemp (path_dir p) (temp_pattern p)) w2 x3 w3" using laws unfolding disk_laws_def by (metis case_prod_conv)
    then show ?thesis using h(2)[of k] same that s
      by (cases x3) (auto simp: held_def temp_holds_def W2 t_def split: os_reply.splits)
  qed
  show ?thesis
  proof (cases x1)
    case (Inl e)
    then show ?thesis using run 1 h(1)[of 0] by (auto simp: os_write_file_def t_def)
  next
    case x1: (Inr y1)
    show ?thesis
    proof (cases x3)
      case (Inl e)
      then show ?thesis using run 1 2 3 x1 new[of 0] by (auto simp: os_write_file_def t_def)
    next
      case (Inr y)
      let ?t = "t (reply_number y)"
      have "held view ?t ?vs ?v W3" "temp_holds view ?t [] W3" using new[of "reply_number y"] Inr by simp_all
      from fill_temp_atomic[OF laws _ this 4] assms(2)
      have f: "held view ?t ?vs (if r0 y = None then ?v(p \<mapsto> data) else ?v) (W4 y)" by (simp add: t_def)
      have "held view ?t ?vs (if r0 y = None then ?v(p \<mapsto> data) else ?v) (snd (traced os (OsRemove ?t) (W4 y)))"
        by (rule traced_quiet[OF laws _ f]) simp
      moreover have "r = r0 y" "W' = snd (traced os (OsRemove ?t) (W4 y))"
        using run 1 2 3 x1 Inr 4[of y] by (auto simp: os_write_file_def Let_def t_def[symmetric])
      ultimately show ?thesis unfolding t_def by auto
    qed
  qed
qed

text \<open>A disk that is a map from paths to contents.\<close>

fun mem_os :: "(string \<rightharpoonup> string) os" where
  "mem_os (OsReadFile p) m = ((case m p of None \<Rightarrow> Inl ErrNotExist | Some s \<Rightarrow> Inr (Bytes s)), m)"
| "mem_os (OsStat p) m = ((if m p = None then Inl ErrNotExist else Inr (StatInfo False 420)), m)"
| "mem_os (OsCreateTemp d pat) m =
     (let t = temp_name d pat 0 in
      if m t = None then (Inr (TempNumber 0), m(t \<mapsto> [])) else (Inl ErrNotExist, m))"
| "mem_os (OsWrite t d) m = (case m t of None \<Rightarrow> (Inl ErrNotExist, m) | Some s \<Rightarrow> (Inr Done, m(t \<mapsto> s @ d)))"
| "mem_os (OsRename a b) m =
     (if m a = None then (Inl ErrNotExist, m) else (Inr Done, m(b := m a, a := None)))"
| "mem_os (OsRemove t) m = (Inr Done, m(t := None))"
| "mem_os _ m = (Inr Done, m)"

lemma mem_os_lawful: "disk_laws mem_os (\<lambda>m. m)"
  unfolding disk_laws_def
proof (intro allI)
  fix c m
  show "case mem_os c m of (r, w') \<Rightarrow> disk_law (\<lambda>m. m) c m r w'"
    by (cases c) (auto simp: Let_def split: option.splits)
qed

text \<open>C26: A file is written atomically: on an operating system that keeps its promises about temporary files,
  writes and renames, at every moment of a write the file holds what it held before or all of the new
  content, never a part; it holds the new content in the end exactly if no error is reported; and no other
  file but the temporary one is touched.\<close>

theorem write_is_atomic:
  assumes "disk_laws os view" and "is_abs path" and "clean_elems path \<noteq> []"
    and "fs_write (os_fs (traced os) ctx rt) path data (w, []) = (r, w', seen)"
  shows "(\<forall>x\<in>set seen. view x (clean_path path) \<in> {view w (clean_path path), Some data}) \<and>
    view w' (clean_path path) = (if r = None then Some data else view w (clean_path path)) \<and>
    (\<exists>k. \<forall>q. q \<noteq> clean_path path \<and> q \<noteq> temp_name (path_dir (clean_path path)) (temp_pattern (clean_path path)) k \<longrightarrow>
        view w' q = view w q \<and> (\<forall>x\<in>set seen. view x q = view w q))"
proof -
  let ?p = "clean_path path"
  obtain ps n where pn: "clean_elems path = ps @ [n]" using assms(3) by (metis rev_exhaust)
  then have plain: "list_all plain_name (ps @ [n])" "?p = rooted_path (ps @ [n])"
    using clean_elems_plain[OF assms(2)] clean_path_rooted[OF assms(2)] by simp_all
  have other: "temp_name (path_dir ?p) (temp_pattern ?p) k \<noteq> ?p" for k by (rule temp_name_other[OF plain])
  have "w' = w \<and> seen = [] \<and> r \<noteq> None \<or> os_write_file (traced os) data ?p (w, []) = (r, w', seen)"
    using assms(4) by (cases "ctx (w, [])") (auto simp: os_fs_def Let_def with_path_def fs_resolve_def split: sum.splits if_splits, metis)
  then consider "w' = w" "seen = []" "r \<noteq> None" | "os_write_file (traced os) data ?p (w, []) = (r, w', seen)" by blast
  then show ?thesis
  proof cases
    case 2
    from write_file_atomic[OF assms(1) other 2] obtain k where
      "held view (temp_name (path_dir ?p) (temp_pattern ?p) k) {view w, (view w)(?p \<mapsto> data)}
        (if r = None then (view w)(?p \<mapsto> data) else view w) (w', seen)" by blast
    then have h: "\<And>q. q \<noteq> temp_name (path_dir ?p) (temp_pattern ?p) k \<Longrightarrow> view w' q = (if r = None then (view w)(?p \<mapsto> data) else view w) q"
      "\<And>x. x \<in> set seen \<Longrightarrow> \<exists>v\<in>{view w, (view w)(?p \<mapsto> data)}. \<forall>q. q \<noteq> temp_name (path_dir ?p) (temp_pattern ?p) k \<longrightarrow> view x q = v q"
      by (simp_all add: held_def)
    show ?thesis
    proof (intro conjI ballI exI[of _ k] allI impI)
      fix x assume "x \<in> set seen"
      from h(2)[OF this] show "view x ?p \<in> {view w ?p, Some data}" using other[of k] by (metis fun_upd_same insert_iff singletonD)
      fix q assume "q \<noteq> ?p \<and> q \<noteq> temp_name (path_dir ?p) (temp_pattern ?p) k"
      with h(2)[OF \<open>x \<in> set seen\<close>] show "view x q = view w q" by (metis fun_upd_other insert_iff singletonD)
    qed (use h(1) other[of k] in auto)
  qed auto
qed

theorem write_is_atomic_witness:
  "fst (snd (fs_write (os_fs (traced mem_os) (\<lambda>_. None) ''/w'') ''/w/a'' ''new'' (Map.empty(''/w/a'' \<mapsto> ''old''), []))) ''/w/a'' = Some ''new''"
proof -
  obtain r w' seen where run: "fs_write (os_fs (traced mem_os) (\<lambda>_. None) ''/w'') ''/w/a'' ''new'' (Map.empty(''/w/a'' \<mapsto> ''old''), []) = (r, w', seen)"
    by (metis prod.exhaust)
  have ok: "fst (fs_write (os_fs (traced mem_os) (\<lambda>_. None) ''/w'') ''/w/a'' ''new'' (Map.empty(''/w/a'' \<mapsto> ''old''), [])) = None"
    by code_simp
  have p: "is_abs ''/w/a''" "clean_elems ''/w/a'' \<noteq> []" "clean_path ''/w/a'' = ''/w/a''" by code_simp+
  from write_is_atomic[OF mem_os_lawful p(1,2) run] ok run show ?thesis by (simp add: p(3))
qed

section \<open>Editing\<close>

text \<open>Where a pattern occurs.\<close>

definition site :: "string \<Rightarrow> string \<Rightarrow> nat \<Rightarrow> bool" where
  "site s p i \<longleftrightarrow> has_prefix (drop i s) p"

lemma first_site:
  assumes "p \<noteq> []"
  shows "(\<exists>i. site s p i \<and> (\<forall>j<i. \<not> site s p j) \<and> count_sub s p = Suc (count_sub (drop (i + length p) s) p) \<and>
        replace_first s p new = take i s @ new @ drop (i + length p) s)
    \<or> (\<forall>i. \<not> site s p i) \<and> count_sub s p = 0"
proof (induction s)
  case Nil
  then show ?case using assms by (simp add: site_def has_prefix_def)
next
  case (Cons c s)
  show ?case
  proof (cases "has_prefix (c # s) p")
    case True
    then show ?thesis using assms by (intro disjI1 exI[of _ 0]) (simp add: site_def count_sub.simps(2))
  next
    case False
    have shift: "site (c # s) p j \<longleftrightarrow> (\<exists>k. j = Suc k \<and> site s p k)" for j
      using False by (cases j) (simp_all add: site_def)
    have count: "count_sub (c # s) p = count_sub s p" using False assms by (simp add: count_sub.simps(2))
    from Cons show ?thesis
    proof (elim disjE exE conjE)
      fix i assume i: "site s p i" "\<forall>j<i. \<not> site s p j" "count_sub s p = Suc (count_sub (drop (i + length p) s) p)"
        "replace_first s p new = take i s @ new @ drop (i + length p) s"
      have "\<forall>j<Suc i. \<not> site (c # s) p j" unfolding shift using i(2) by auto
      then show ?thesis using i count False shift by (intro disjI1 exI[of _ "Suc i"]) auto
    qed (auto simp: shift count)
  qed
qed

lemma site_drop: "site (drop k s) p j \<longleftrightarrow> site s p (k + j)"
  by (simp add: site_def add.commute)

text \<open>One edit: the sites of the pattern all overlap one another's start.\<close>

lemma one_count:
  assumes "p \<noteq> []"
  shows "count_sub s p = 1 \<longleftrightarrow> (\<exists>i. site s p i \<and> (\<forall>j. site s p j \<longrightarrow> i \<le> j \<and> j < i + length p))"
    and "site s p i \<Longrightarrow> \<forall>j. site s p j \<longrightarrow> i \<le> j \<and> j < i + length p \<Longrightarrow>
      replace_first s p new = take i s @ new @ drop (i + length p) s"
proof -
  have none: "count_sub t p = 0 \<longleftrightarrow> (\<forall>i. \<not> site t p i)" for t using first_site[OF assms, of t new] by auto
  note first = first_site[OF assms, of s new]
  from first show "count_sub s p = 1 \<longleftrightarrow> (\<exists>i. site s p i \<and> (\<forall>j. site s p j \<longrightarrow> i \<le> j \<and> j < i + length p))"
  proof (elim disjE exE conjE)
    fix i assume 1: "site s p i" "\<forall>j<i. \<not> site s p j" "count_sub s p = Suc (count_sub (drop (i + length p) s) p)"
    have "count_sub s p = 1 \<longleftrightarrow> (\<forall>j. \<not> site s p (i + length p + j))"
      using 1(3) none[of "drop (i + length p) s"] by (simp add: site_drop)
    also have "\<dots> \<longleftrightarrow> (\<forall>j. site s p j \<longrightarrow> j < i + length p)" by (metis le_iff_add not_le)
    also have "\<dots> \<longleftrightarrow> (\<exists>i. site s p i \<and> (\<forall>j. site s p j \<longrightarrow> i \<le> j \<and> j < i + length p))"
    proof
      assume "\<forall>j. site s p j \<longrightarrow> j < i + length p"
      then show "\<exists>i. site s p i \<and> (\<forall>j. site s p j \<longrightarrow> i \<le> j \<and> j < i + length p)"
        using 1(1,2) by (intro exI[of _ i]) (auto simp: not_less[symmetric])
    next
      assume "\<exists>i. site s p i \<and> (\<forall>j. site s p j \<longrightarrow> i \<le> j \<and> j < i + length p)"
      then obtain k where k: "site s p k" "\<forall>j. site s p j \<longrightarrow> k \<le> j \<and> j < k + length p" by blast
      then have "k = i" using 1(1,2) by (meson le_antisym not_le)
      with k(2) show "\<forall>j. site s p j \<longrightarrow> j < i + length p" by simp
    qed
    finally show ?thesis .
  qed auto
  assume i: "site s p i" "\<forall>j. site s p j \<longrightarrow> i \<le> j \<and> j < i + length p"
  from first show "replace_first s p new = take i s @ new @ drop (i + length p) s"
  proof (elim disjE exE conjE)
    fix k assume k: "site s p k" "\<forall>j<k. \<not> site s p j" "replace_first s p new = take k s @ new @ drop (k + length p) s"
    then have "k = i" using i by (meson le_antisym not_le)
    with k show ?thesis by simp
  qed (use i in auto)
qed


definition mem_fs :: "(string \<rightharpoonup> string) fs" where
  "mem_fs = os_fs mem_os (\<lambda>_. None) ''/w''"

lemma mem_fs_file: "m ''/w/a'' = Some c \<Longrightarrow> fs_read mem_fs ''/w/a'' m = (Inr c, m) \<and> fs_stat mem_fs ''/w/a'' m = (Inr KindFile, m)"
proof -
  have "fs_resolve (clean_root ''/w'') ''/w/a'' = Inr ''/w/a''" by code_simp
  then show "m ''/w/a'' = Some c \<Longrightarrow> fs_read mem_fs ''/w/a'' m = (Inr c, m) \<and> fs_stat mem_fs ''/w/a'' m = (Inr KindFile, m)"
    by (simp add: mem_fs_def os_fs_def Let_def with_path_def os_stat_def os_read_file_def)
qed


text \<open>Occurrences that overlap count as one: there are two places this edit could mean.\<close>

lemma overlapping_sites_edited:
  "site ''aaa'' ''aa'' 0 \<and> site ''aaa'' ''aa'' 1 \<and> count_sub ''aaa'' ''aa'' = 1 \<and> replace_first ''aaa'' ''aa'' ''b'' = ''ba''"
  by (simp add: site_def has_prefix_def count_sub.simps(2))

text \<open>A path that is not absolute is not marked as the caller's mistake.\<close>

lemma relative_path_counts_against_tool:
  "\<not> has_prefix path ''/'' \<Longrightarrow> \<exists>e. view_file fs (path, r) w = (Inl e, w) \<and> \<not> is_caller_fault e"
  by (auto simp: view_file_def require_abs_def)

section \<open>Viewing\<close>

text \<open>What a row says: its number and its line.\<close>

definition read_row :: "string \<Rightarrow> int option \<times> string" where
  "read_row row = (int_of_text (dropWhile (\<lambda>c. c = CHR '' '') (takeWhile (\<lambda>c. c \<noteq> CHR 0x09) row)),
     tl (dropWhile (\<lambda>c. c \<noteq> CHR 0x09) row))"

definition view_bounds :: "int list \<Rightarrow> int \<Rightarrow> int \<times> int" where
  "view_bounds rng n = (case (case rng of [a, b] \<Rightarrow> (a, b) | _ \<Rightarrow> (1, n)) of (a, b) \<Rightarrow> (max 1 a, min b n))"

lemma int_text_chars: "list_all (\<lambda>c. is_digit c \<or> c = CHR ''-'') (int_text i)" "int_text i \<noteq> []"
  using itoa_digits[of "nat i"] itoa_digits[of "nat (- i)"] by (auto simp: int_text_def list_all_iff)

lemma read_number_row: "read_row (number_row lines i) = (Some i, lines ! nat (i - 1))"
proof -
  have chars: "c \<noteq> CHR 0x09 \<and> c \<noteq> CHR '' ''" if "c \<in> set (int_text i)" for c
    using int_text_chars[of i] that by (auto simp: list_all_iff is_digit_def)
  have tab: "\<forall>c\<in>set (pad5 (int_text i)). c \<noteq> CHR 0x09" using chars by (auto simp: pad5_def)
  have "dropWhile (\<lambda>c. c = CHR '' '') (pad5 (int_text i)) = int_text i"
  proof -
    have "dropWhile (\<lambda>c. c = CHR '' '') (replicate n (CHR '' '') @ s) = dropWhile (\<lambda>c. c = CHR '' '') s" for n s
      by (induction n) auto
    then show ?thesis using chars int_text_chars(2)[of i] by (cases "int_text i") (auto simp: pad5_def)
  qed
  moreover have "takeWhile (\<lambda>c. c \<noteq> CHR 0x09) (number_row lines i) = pad5 (int_text i)"
    "dropWhile (\<lambda>c. c \<noteq> CHR 0x09) (number_row lines i) = CHR 0x09 # lines ! nat (i - 1)"
    using tab by (auto simp: number_row_def takeWhile_append2 dropWhile_append2)
  ultimately show ?thesis by (simp add: read_row_def int_of_int_text)
qed

lemma number_row_line:
  assumes "CHR 0x0A \<notin> set (lines ! nat (i - 1))"
  shows "CHR 0x0A \<notin> set (number_row lines i)"
proof -
  have "CHR 0x0A \<notin> set (int_text i)" using int_text_chars[of i] by (auto simp: list_all_iff is_digit_def)
  with assms show ?thesis by (auto simp: number_row_def pad5_def)
qed

text \<open>A view shows the file: as long as the answer is not clipped, the rows the model is given are the
  lines of the file from the start of the range, at least the first, to its end, at most the last, each with
  its number, in order and without a gap.\<close>

theorem view_shows_lines:
  assumes "has_prefix path ''/''" and "fs_stat fs path w = (Inr KindFile, w1)" and "fs_read fs path w1 = (Inr content, w2)"
    and "view_file fs (path, rng) w = (Inr out, w3)"
    and "view_bounds rng (int (length lines)) = (a, b)" and "a \<le> b"
    and "lines = split_on CHR 0x0A (trim_suffix content [CHR 0x0A])"
    and "int (length (join_with [CHR 0x0A] (map (number_row lines) [a..b]))) \<le> maxToolOutput"
  shows "w3 = w2 \<and> map read_row (split_on CHR 0x0A out) = map (\<lambda>i. (Some i, lines ! nat (i - 1))) [a..b]"
proof -
  have path: "require_abs ''path'' path = None" using assms(1) by (auto simp: require_abs_def has_prefix_def)
  have bounds: "1 \<le> a" "b \<le> int (length lines)" using assms(5) by (auto simp: view_bounds_def split: prod.splits)
  have out: "out = number_lines content rng" "w3 = w2" using assms(2,3,4) path by (auto simp: view_file_def)
  have "number_lines content rng = cut_output (join_with [CHR 0x0A] (map (number_row lines) [a..b]))"
    using assms(5) unfolding number_lines_def Let_def assms(7)[symmetric] view_bounds_def
    by (simp add: max_def min_def split: prod.splits if_splits)
  then have rows: "out = join_with [CHR 0x0A] (map (number_row lines) [a..b])"
    using out(1) assms(8) by (simp add: cut_output_def clip_head_def)
  have "CHR 0x0A \<notin> set (number_row lines i)" if "i \<in> set [a..b]" for i
  proof -
    have "lines ! nat (i - 1) \<in> set lines" using that bounds by (intro nth_mem) auto
    then have "CHR 0x0A \<notin> set (lines ! nat (i - 1))" unfolding assms(7) by (rule split_on_no_sep)
    then show ?thesis by (rule number_row_line)
  qed
  then have "split_on CHR 0x0A out = map (number_row lines) [a..b]"
    unfolding rows using assms(6) by (intro split_join) auto
  then show ?thesis using out(2) by (simp add: read_number_row o_def)
qed

theorem view_shows_lines_witness:
  "map read_row (split_on CHR 0x0A (number_lines (''one'' @ [CHR 0x0A] @ ''two'' @ [CHR 0x0A]) [2, 9])) = [(Some 2, ''two'')]"
proof -
  let ?c = "''one'' @ [CHR 0x0A] @ ''two'' @ [CHR 0x0A]" let ?m = "Map.empty(''/w/a'' \<mapsto> ?c)"
  let ?ls = "split_on CHR 0x0A (trim_suffix ?c [CHR 0x0A])"
  have p: "has_prefix ''/w/a'' ''/''" by code_simp
  have s: "fs_stat mem_fs ''/w/a'' ?m = (Inr KindFile, ?m)" "fs_read mem_fs ''/w/a'' ?m = (Inr ?c, ?m)"
    by (simp_all add: mem_fs_file)
  then have v: "view_file mem_fs (''/w/a'', [2, 9]) ?m = (Inr (number_lines ?c [2, 9]), ?m)"
    by (simp add: view_file_def require_abs_def has_prefix_def)
  have b: "view_bounds [2, 9] (int (length ?ls)) = (2, 2)" by code_simp
  have l: "int (length (join_with [CHR 0x0A] (map (number_row ?ls) [2..2]))) \<le> maxToolOutput" by code_simp
  have "[2..2] = [2::int]" "?ls ! 1 = ''two''" by code_simp+
  with view_shows_lines[OF p s v b _ refl l] show ?thesis by simp
qed

end
