(* ===== verification/ExecTools.thy ===== *)
theory ExecTools
  imports FileTools Calc
begin

text \<open>
  The tools that run commands and fetch pages, and the built-in surface (\<^verbatim>\<open>tool/builtin/exec.go\<close>,
  \<^verbatim>\<open>shell_tools.go\<close>, \<^verbatim>\<open>git_tools.go\<close>, \<^verbatim>\<open>net_tools.go\<close>, \<^verbatim>\<open>misc_tools.go\<close>, \<^verbatim>\<open>builtin.go\<close>). Starting a
  process, parsing a URL, an HTTP exchange and the repair of invalid UTF-8 are arguments.
\<close>

section \<open>Running commands\<close>

record 'w runner =
  rn_run :: "string \<Rightarrow> string list \<Rightarrow> 'w \<Rightarrow> (string \<times> err option) \<times> 'w"
  rn_shell :: "string \<Rightarrow> 'w \<Rightarrow> (string \<times> err option) \<times> 'w"

definition maxCapture :: nat where "maxCapture = 2 ^ 20"

text \<open>\<^verbatim>\<open>limitBuf\<close>: what is kept, and how many bytes were dropped.\<close>

definition limit_write :: "nat \<Rightarrow> string \<times> nat \<Rightarrow> string \<Rightarrow> string \<times> nat" where
  "limit_write limit = (\<lambda>(b, dropped) p.
     (let room = limit - length b in
      if room > 0 then
        (if length p \<le> room then (b @ p, dropped) else (b @ take room p, dropped + (length p - room)))
      else (b, dropped + length p)))"

definition limit_string :: "(string \<Rightarrow> string) \<Rightarrow> nat \<Rightarrow> string \<times> nat \<Rightarrow> string" where
  "limit_string valid limit = (\<lambda>(b, dropped).
     (if dropped = 0 then valid b
      else valid b @ [CHR 0x0A] @ ''[... '' @ itoa dropped @ '' more bytes dropped at the '' @ itoa limit @ ''-byte capture limit ...]''))"

text \<open>\<open>spawn\<close> runs a program: the pieces it wrote to its two streams, and how it ended.\<close>

type_synonym 'w spawn = "string \<Rightarrow> string list \<Rightarrow> 'w \<Rightarrow> (string list \<times> string list \<times> err option) \<times> 'w"

definition capture :: "(string \<Rightarrow> string) \<Rightarrow> 'w spawn \<Rightarrow> string \<Rightarrow> string list \<Rightarrow> 'w \<Rightarrow> (string \<times> string \<times> err option) \<times> 'w" where
  "capture valid spawn name args w =
     (case spawn name args w of ((out, er, res), w) \<Rightarrow>
        ((limit_string valid maxCapture (foldl (limit_write maxCapture) ([], 0) out),
          limit_string valid maxCapture (foldl (limit_write maxCapture) ([], 0) er), res), w))"

definition command_error :: "string \<Rightarrow> string \<Rightarrow> err \<Rightarrow> err" where
  "command_error name stderr e = Wrapf (if stderr = [] then name else name @ '': '' @ stderr) [e]"

definition os_run :: "(string \<Rightarrow> string) \<Rightarrow> 'w spawn \<Rightarrow> string \<Rightarrow> string list \<Rightarrow> 'w \<Rightarrow> (string \<times> err option) \<times> 'w" where
  "os_run valid spawn name args w =
     (case capture valid spawn name args w of ((out, er, res), w) \<Rightarrow>
        ((out, map_option (command_error name (trim_space er)) res), w))"

definition os_shell :: "(string \<Rightarrow> string) \<Rightarrow> 'w spawn \<Rightarrow> string \<Rightarrow> 'w \<Rightarrow> (string \<times> err option) \<times> 'w" where
  "os_shell valid spawn script w =
     (case capture valid spawn ''/bin/sh'' [''-c'', script] w of ((out, er, res), w) \<Rightarrow>
        ((if out \<noteq> [] \<and> er \<noteq> [] then out @ [CHR 0x0A] @ ''[stderr]'' @ [CHR 0x0A] @ er
          else if out \<noteq> [] then out else er,
          map_option (command_error ''sh'' []) res), w))"

definition os_runner :: "(string \<Rightarrow> string) \<Rightarrow> 'w spawn \<Rightarrow> 'w runner" where
  "os_runner valid spawn = \<lparr>rn_run = os_run valid spawn, rn_shell = os_shell valid spawn\<rparr>"

text \<open>\<^verbatim>\<open>errors.As\<close> for a value with an exit code, for a status error, and for a URL error.\<close>

fun exit_code :: "err \<Rightarrow> int option" where
  "exit_code (ExitErr c) = Some c"
| "exit_code (Wrapf _ es) = first_some (map exit_code es)"
| "exit_code (CallerErr e) = exit_code e"
| "exit_code (UrlErr e) = exit_code e"
| "exit_code (ApiErr c _ _ _ None) = exit_code c"
| "exit_code (ApiErr c _ _ _ (Some e)) = first_some [exit_code c, exit_code e]"
| "exit_code _ = None"

fun as_status :: "err \<Rightarrow> int option" where
  "as_status (StatusErr c _) = Some c"
| "as_status (Wrapf _ es) = first_some (map as_status es)"
| "as_status (CallerErr e) = as_status e"
| "as_status (UrlErr e) = as_status e"
| "as_status (ApiErr c _ _ _ None) = as_status c"
| "as_status (ApiErr c _ _ _ (Some e)) = first_some [as_status c, as_status e]"
| "as_status _ = None"

fun is_url_error :: "err \<Rightarrow> bool" where
  "is_url_error (UrlErr _) = True"
| "is_url_error (Wrapf _ es) = list_ex is_url_error es"
| "is_url_error (CallerErr e) = is_url_error e"
| "is_url_error (ApiErr c _ _ _ None) = is_url_error c"
| "is_url_error (ApiErr c _ _ _ (Some e)) = (is_url_error c \<or> is_url_error e)"
| "is_url_error _ = False"

section \<open>bash\<close>

definition sh_quote :: "string \<Rightarrow> string" where
  "sh_quote s = CHR 0x27 # concat (map (\<lambda>c. if c = CHR 0x27 then [CHR 0x27, CHR 0x5C, CHR 0x27, CHR 0x27] else [c]) s) @ [CHR 0x27]"

definition bash_script :: "string \<Rightarrow> string \<Rightarrow> string" where
  "bash_script dir command = ''cd '' @ sh_quote dir @ '' && ('' @ command @ '')''"

text \<open>\<open>ctx\<close> is the error of the context and its cause.\<close>

definition bash ::
  "('w \<Rightarrow> (err \<times> err) option) \<Rightarrow> 'w runner \<Rightarrow> string \<times> string \<Rightarrow> 'w \<Rightarrow> (err + string) \<times> 'w" where
  "bash ctx r inp w =
     (case inp of (command, dir) \<Rightarrow>
      if command = [] then (Inl (CallerErr (Wrapf ''field command must not be empty'' [])), w)
      else (case require_abs ''exec_dir'' dir of
         Some e \<Rightarrow> (Inl e, w)
       | None \<Rightarrow>
      (case rn_shell r (bash_script dir command) w of
         ((out, res), w) \<Rightarrow>
           (let out = (if clip out maxToolOutput = [] then ''(no output)'' else clip out maxToolOutput) in
            case res of
              None \<Rightarrow> (Inr out, w)
            | Some e \<Rightarrow>
                (case ctx w of
                   Some (ce, cause) \<Rightarrow>
                     if errors_is ce ErrDeadlineExceeded
                     then (Inl (Wrapf (''command timed out, partial output: '' @ out) []), w)
                     else (Inl (Wrapf ''command cancelled'' [cause]), w)
                 | None \<Rightarrow>
                     (case exit_code e of
                        Some c \<Rightarrow> (Inl (CallerErr (Wrapf (''exit '' @ int_text c @ '': '' @ out) [])), w)
                      | None \<Rightarrow> (Inl (Wrapf out [e]), w)))))))"

definition retry_exec :: "err \<Rightarrow> bool" where
  "retry_exec e = (errors_is e EINTR \<or> errors_is e EAGAIN \<or> errors_is e ETXTBSY)"

section \<open>grep and git\<close>

definition grepDefaultResults :: int where "grepDefaultResults = 100"
definition grepMaxResults :: int where "grepMaxResults = 500"

definition grepExcludes :: "string list" where
  "grepExcludes = map (\<lambda>d. ''--exclude-dir='' @ d)
     [''node_modules'', ''.git'', ''.venv'', ''__pycache__'', ''dist'', ''build'', ''.next'', ''target'']"

definition capped :: "int \<Rightarrow> int \<Rightarrow> int \<Rightarrow> int" where
  "capped dflt most n = min (if n \<le> 0 then dflt else n) most"

definition grep_args :: "string \<Rightarrow> string \<Rightarrow> bool \<Rightarrow> int \<Rightarrow> string list" where
  "grep_args pattern path ci limit =
     [''-rEnH'', ''--binary-files=without-match''] @ (if ci then [''-i''] else []) @ [''-m'', int_text limit] @
     grepExcludes @ [''--'', pattern, path]"

text \<open>\<^verbatim>\<open>strings.TrimRight\<close> of line breaks, then the lines, clamped.\<close>

definition grep_output :: "string \<Rightarrow> int \<Rightarrow> string" where
  "grep_output out limit =
     (let lines = split_on CHR 0x0A (trim_right_by (\<lambda>c. c = CHR 0x0A) out) in
      if lines = [[]] then ''(no matches)''
      else if int (length lines) > limit
      then cut_output (join_with [CHR 0x0A] (take (nat limit) lines) @ [CHR 0x0A] @ ''[... '' @
             int_text (int (length lines) - limit) @ '' more matching lines; raise max_results or narrow the pattern ...]'')
      else cut_output (join_with [CHR 0x0A] lines))"

definition grep_search :: "'w runner \<Rightarrow> string \<times> string \<times> bool \<times> int \<Rightarrow> 'w \<Rightarrow> (err + string) \<times> 'w" where
  "grep_search r inp w =
     (case inp of (pattern, path, ci, n) \<Rightarrow>
      if pattern = [] then (Inl (CallerErr (Wrapf ''field pattern must not be empty'' [])), w)
      else (case require_abs ''path'' path of
         Some e \<Rightarrow> (Inl e, w)
       | None \<Rightarrow>
      (let limit = capped grepDefaultResults grepMaxResults n in
       case rn_run r ''grep'' (grep_args pattern path ci limit) w of
         ((out, Some e), w) \<Rightarrow> (if exit_code e = Some 1 then Inr ''(no matches)'' else Inl e, w)
       | ((out, None), w) \<Rightarrow> (Inr (grep_output out limit), w))))"

definition gitLogDefaultN :: int where "gitLogDefaultN = 20"
definition gitLogMaxN :: int where "gitLogMaxN = 100"

definition require_safe_ref :: "string \<Rightarrow> string \<Rightarrow> err option" where
  "require_safe_ref field ref =
     (if ref = [] then Some (Wrapf (''field '' @ field @ '' must not be empty'') [])
      else if has_prefix ref ''-'' then Some (Wrapf (''field '' @ field @ '' must not start with -, got: '' @ quote ref) [])
      else None)"

definition trimmed_output :: "string \<Rightarrow> (string \<times> err option) \<times> 'w \<Rightarrow> (err + string) \<times> 'w" where
  "trimmed_output none = (\<lambda>((out, res), w).
     (case res of
        Some e \<Rightarrow> (Inl e, w)
      | None \<Rightarrow> (Inr (if trim_space out = [] then none else cut_output (trim_space out)), w)))"

definition git_log_args :: "string \<Rightarrow> string \<Rightarrow> int \<Rightarrow> string list" where
  "git_log_args cwd path n =
     [''-C'', cwd, ''log'', ''--pretty=format:%h %ad %an: %s'', ''--date=short'', ''-n'', int_text n] @
     (if path \<noteq> [] then [''--'', path] else [])"

definition git_log :: "'w runner \<Rightarrow> string \<times> string \<times> int \<Rightarrow> 'w \<Rightarrow> (err + string) \<times> 'w" where
  "git_log r inp w =
     (case inp of (cwd, path, n) \<Rightarrow>
      (case require_abs ''cwd'' cwd of
         Some e \<Rightarrow> (Inl e, w)
       | None \<Rightarrow> trimmed_output ''(no commits)'' (rn_run r ''git'' (git_log_args cwd path (capped gitLogDefaultN gitLogMaxN n)) w)))"

definition git_show :: "'w runner \<Rightarrow> string \<times> string \<Rightarrow> 'w \<Rightarrow> (err + string) \<times> 'w" where
  "git_show r inp w =
     (case inp of (cwd, ref) \<Rightarrow>
      (case require_abs ''cwd'' cwd of
         Some e \<Rightarrow> (Inl e, w)
       | None \<Rightarrow>
      (case require_safe_ref ''ref'' ref of
         Some e \<Rightarrow> (Inl e, w)
       | None \<Rightarrow> trimmed_output ''(empty output)'' (rn_run r ''git'' [''-C'', cwd, ''show'', ''--no-color'', ref] w))))"

section \<open>http_get\<close>

definition maxFetchBytes :: nat where "maxFetchBytes = 2 ^ 20"

record page_url =
  pu_scheme :: string
  pu_host :: string
  pu_text :: string
  pu_redacted :: string

text \<open>
  \<open>fetch\<close> makes the request and sends it: an error before it is sent, an error of the client, or a status
  and what reading the body gives, which stops at the limit.
\<close>

datatype fetched = Unbuilt err | Unsent err | Answered int "err + string"

definition http_get ::
  "(string \<Rightarrow> string) \<Rightarrow> (string \<Rightarrow> err + page_url) \<Rightarrow> (string \<Rightarrow> 'w \<Rightarrow> fetched \<times> 'w) \<Rightarrow> string \<Rightarrow> 'w \<Rightarrow> (err + string) \<times> 'w" where
  "http_get valid parse fetch url w =
     (case parse (trim_space url) of
        Inl e \<Rightarrow> (Inl (CallerErr (Wrapf ''field url is not a valid URL'' [e])), w)
      | Inr u \<Rightarrow>
          if pu_scheme u \<noteq> ''http'' \<and> pu_scheme u \<noteq> ''https'' \<or> pu_host u = []
          then (Inl (CallerErr (Wrapf (''field url must be an absolute http(s) URL, got: '' @ quote url) [])), w)
          else (case fetch (pu_text u) w of
             (Unbuilt e, w) \<Rightarrow> (Inl (Wrapf (''build request for '' @ pu_redacted u) [e]), w)
           | (Unsent e, w) \<Rightarrow> (Inl (Wrapf (''GET '' @ pu_redacted u) [e]), w)
           | (Answered status (Inl e), w) \<Rightarrow> (Inl (Wrapf (''reading '' @ pu_redacted u) [e]), w)
           | (Answered status (Inr raw), w) \<Rightarrow>
               (let body = cut_output (valid (take maxFetchBytes raw)) in
                (if status < 200 \<or> status > 299 then Inl (StatusErr status body)
                 else if body = [] then Inr ''(empty response body)'' else Inr body, w))))"

definition retry_http :: "err \<Rightarrow> bool" where
  "retry_http e =
     (if errors_is e ErrCanceled then False
      else if errors_is e ErrDeadlineExceeded \<or> errors_is e ErrTimeout then True
      else case as_status e of
        Some c \<Rightarrow> c \<in> {408, 429, 502, 503, 504, 529}
      | None \<Rightarrow> is_url_error e)"

section \<open>The surface\<close>

text \<open>
  The definitions of the tools, in the order the model sees them; \<open>desc\<close> and \<open>schema\<close> give their texts.
  Times are in nanoseconds.
\<close>

definition seconds :: "int \<Rightarrow> int" where "seconds n = n * 1000000000"

definition builtin_def ::
  "(string \<Rightarrow> string) \<Rightarrow> (string \<Rightarrow> string) \<Rightarrow> string \<Rightarrow> 32 word \<Rightarrow> 32 word \<Rightarrow> bool \<Rightarrow> int \<Rightarrow> string \<Rightarrow> (err \<Rightarrow> bool) option \<Rightarrow> tool_def" where
  "builtin_def desc schema name caps needs idem timeout cat retry =
     \<lparr>td_name = name, td_description = desc name, td_schema = schema name, td_caps = caps, td_needs = needs,
      td_idempotent = idem, td_timeout = timeout, td_category = cat, td_retryable = retry\<rparr>"

definition default_tools :: "(string \<Rightarrow> string) \<Rightarrow> (string \<Rightarrow> string) \<Rightarrow> tool_def list" where
  "default_tools desc schema =
     (let def = builtin_def desc schema in
      [def ''calculator'' CapReadOnly 0 True (seconds 5) ''compute'' None,
       def ''http_get'' (CapReadOnly OR CapNetwork) NeedNetwork True (seconds 15) ''network'' (Some retry_http),
       def ''current_time'' CapReadOnly 0 True (seconds 1) ''compute'' None,
       def ''bash'' (CapExec OR CapMutating OR CapNetwork) (NeedExec OR NeedFSRead OR NeedFSWrite) False (seconds 60) ''exec'' (Some retry_exec),
       def ''view_file'' CapReadOnly NeedFSRead True (seconds 5) ''file_io'' (Some retry_fs),
       def ''grep_search'' CapReadOnly (NeedFSRead OR NeedExec) True (seconds 10) ''file_io'' (Some retry_exec),
       def ''git_log'' CapReadOnly (NeedExec OR NeedFSRead) True (seconds 5) ''vcs'' (Some retry_exec),
       def ''git_show'' CapReadOnly (NeedExec OR NeedFSRead) True (seconds 5) ''vcs'' (Some retry_exec),
       def ''write_file'' CapMutating NeedFSWrite False (seconds 10) ''file_io'' None,
       def ''save_tool_result'' CapMutating NeedFSWrite False (seconds 10) ''file_io'' None,
       def ''str_replace'' CapMutating (NeedFSRead OR NeedFSWrite) False (seconds 10) ''file_io'' None,
       def ''ask_user'' CapPause 0 False 0 ''meta'' None])"

definition ErrAskUserNotIntercepted :: err where
  [sentinel_defs]: "ErrAskUserNotIntercepted = Sentinel ''builtin: ask_user is a pause tool and its handler must never be invoked''"

record ('w, 'n) deps =
  dp_fs :: "'w fs"
  dp_exec :: "'w runner"
  dp_http :: "string \<Rightarrow> 'w \<Rightarrow> fetched \<times> 'w"
  dp_now :: "'w \<Rightarrow> string"

definition grep_in :: "(string \<times> json) list \<Rightarrow> (string \<times> string \<times> bool \<times> int) option" where
  "grep_in kvs =
     (case (two_fields ''pattern'' ''path'' kvs, field_bool ''case_insensitive'' kvs, field_int ''max_results'' kvs) of
        (Some (p, q), Some c, Some n) \<Rightarrow> Some (p, q, c, n) | _ \<Rightarrow> None)"

definition git_log_in :: "(string \<times> json) list \<Rightarrow> (string \<times> string \<times> int) option" where
  "git_log_in kvs =
     (case (two_fields ''cwd'' ''path'' kvs, field_int ''n'' kvs) of (Some (c, p), Some n) \<Rightarrow> Some (c, p, n) | _ \<Rightarrow> None)"

text \<open>The commands, with what is needed of the world: \<open>ctx\<close> and the valid-UTF-8 repair.\<close>

fun exec_tool :: "('w \<Rightarrow> (err \<times> err) option) \<Rightarrow> 'w runner \<Rightarrow> string \<Rightarrow> (string \<Rightarrow> 'w \<Rightarrow> call_end \<times> 'w) option" where
  "exec_tool ctx r name =
     (if name = ''bash'' then Some (typed_tool (two_fields ''command'' ''exec_dir'') name (bash ctx r))
      else if name = ''grep_search'' then Some (typed_tool grep_in name (grep_search r))
      else if name = ''git_log'' then Some (typed_tool git_log_in name (git_log r))
      else if name = ''git_show'' then Some (typed_tool (two_fields ''cwd'' ''ref'') name (git_show r))
      else None)"

definition builtin_tool ::
  "'n calc_ops \<Rightarrow> (string \<Rightarrow> string) \<Rightarrow> (string \<Rightarrow> err + page_url) \<Rightarrow> ('w \<Rightarrow> (err \<times> err) option) \<Rightarrow>
   (tool_use_id \<Rightarrow> err + string) option \<Rightarrow> ('w, 'n) deps \<Rightarrow> string \<Rightarrow> (string \<Rightarrow> 'w \<Rightarrow> call_end \<times> 'w) option" where
  "builtin_tool ops valid parse ctx look d name =
     (if name = ''calculator'' then Some (typed_tool (field_str ''expression'') name (\<lambda>e w. (eval_expr ops e, w)))
      else if name = ''http_get'' then Some (typed_tool (field_str ''url'') name (http_get valid parse (dp_http d)))
      else if name = ''current_time'' then Some (typed_tool (\<lambda>_. Some ()) name (\<lambda>_ w. (Inr (dp_now d w), w)))
      else if name = ''ask_user'' then Some (\<lambda>_ w. (Returned (Inl ErrAskUserNotIntercepted), w))
      else case exec_tool ctx (dp_exec d) name of
        Some f \<Rightarrow> Some f
      | None \<Rightarrow> file_tool look (dp_fs d) name)"

section \<open>The shell's reading of a word\<close>

text \<open>
  POSIX, 2.2 and 2.3: a word ends at an operator or a blank; between single quotes everything stands for
  itself, after a backslash the next character does. Characters that start an expansion or are special in
  a pattern are not read (\<^const>\<open>None\<close>).
\<close>

definition shell_blank :: "char \<Rightarrow> bool" where
  "shell_blank c \<longleftrightarrow> c \<in> set ('' &;|<>()'' @ [CHR 0x09, CHR 0x0A])"

definition shell_special :: "char \<Rightarrow> bool" where
  "shell_special c \<longleftrightarrow> c \<in> set (''$*?[]~#={}!'' @ [CHR 0x22, CHR 0x60])"

fun shell_word :: "bool \<Rightarrow> string \<Rightarrow> (string \<times> string) option" where
  "shell_word quoted [] = (if quoted then None else Some ([], []))"
| "shell_word True (c # s) =
     (if c = CHR 0x27 then shell_word False s else map_option (\<lambda>(w, t). (c # w, t)) (shell_word True s))"
| "shell_word False (c # s) =
     (if c = CHR 0x27 then shell_word True s
      else if c = CHR 0x5C then
        (case s of [] \<Rightarrow> None | d # t \<Rightarrow> map_option (\<lambda>(w, t). (d # w, t)) (shell_word False t))
      else if shell_blank c then Some ([], c # s)
      else if shell_special c then None
      else map_option (\<lambda>(w, t). (c # w, t)) (shell_word False s))"

lemma quoted_body:
  "shell_word True (concat (map (\<lambda>c. if c = CHR 0x27 then [CHR 0x27, CHR 0x5C, CHR 0x27, CHR 0x27] else [c]) s) @ CHR 0x27 # t) =
     map_option (\<lambda>(w, r). (s @ w, r)) (shell_word False t)"
  by (induction s) (auto simp: option.map_comp o_def case_prod_unfold option.map_ident)

text \<open>The directory of a command is one word: whatever bytes it consists of, the shell that is handed the
  script of the bash tool reads the command name, then a single word that is exactly the directory, and then
  the condition and the parenthesis that open the model's command.\<close>

theorem exec_dir_is_one_word:
  "shell_word False (bash_script dir command) = Some (''cd'', drop 2 (bash_script dir command)) \<and>
   shell_word False (drop 3 (bash_script dir command)) = Some (dir, '' && ('' @ command @ '')'')"
proof -
  have blank: "shell_blank CHR '' ''" by (simp add: shell_blank_def)
  have plain: "\<not> shell_blank CHR ''c''" "\<not> shell_blank CHR ''d''" "\<not> shell_special CHR ''c''" "\<not> shell_special CHR ''d''"
    by (simp_all add: shell_blank_def shell_special_def)
  show ?thesis using blank plain quoted_body[of dir "'' && ('' @ command @ '')''"]
    by (simp add: bash_script_def sh_quote_def)
qed

section \<open>Captured output\<close>

text \<open>What is kept of a command's output is its beginning: after any sequence of writes the buffer holds the
  first bytes of all that was written, up to the limit, and counts every byte that it does not hold.\<close>

theorem capture_keeps_beginning:
  "foldl (limit_write limit) ([], 0) ps = (take limit (concat ps), length (concat ps) - limit)"
proof (induction ps rule: rev_induct)
  case (snoc p ps)
  have "foldl (limit_write limit) ([], 0) (ps @ [p]) = limit_write limit (take limit (concat ps), length (concat ps) - limit) p"
    using snoc by simp
  also have "\<dots> = (take limit (concat (ps @ [p])), length (concat (ps @ [p])) - limit)"
    by (auto simp: limit_write_def Let_def min_def not_less)
  finally show ?case .
qed simp

section \<open>Arguments stay arguments\<close>

text \<open>A runner that records the programs it is asked to run.\<close>

definition recording :: "'w runner \<Rightarrow> ('w \<times> (string \<times> string list) list) runner" where
  "recording r =
     \<lparr>rn_run = (\<lambda>name args (w, cs). case rn_run r name args w of (x, w) \<Rightarrow> (x, w, cs @ [(name, args)])),
      rn_shell = (\<lambda>script (w, cs). case rn_shell r script w of (x, w) \<Rightarrow> (x, w, cs @ [(''/bin/sh'', [''-c'', script])]))\<rparr>"

text \<open>What a program reads as options: the words before the marker that start with a dash.\<close>

definition read_options :: "string list \<Rightarrow> string list" where
  "read_options args = filter (\<lambda>a. has_prefix a ''-'') (takeWhile (\<lambda>a. a \<noteq> ''--'') args)"

definition fixed_options :: "string list" where
  "fixed_options = [''-rEnH'', ''--binary-files=without-match'', ''-i'', ''-m'', ''-C'', ''--pretty=format:%h %ad %an: %s'',
     ''--date=short'', ''-n'', ''--no-color''] @ grepExcludes"

lemma abs_not_option: "require_abs k p = None \<Longrightarrow> \<not> has_prefix p ''-''"
  by (cases p) (auto simp: require_abs_def has_prefix_def split: if_splits)

lemma count_not_option: "1 \<le> n \<Longrightarrow> \<not> has_prefix (int_text n) ''-''"
  using itoa_digits[of "nat n"] by (cases "itoa (nat n)") (auto simp: int_text_def has_prefix_def is_digit_def)

lemma capped_pos: "1 \<le> dflt \<Longrightarrow> 1 \<le> most \<Longrightarrow> 1 \<le> capped dflt most n \<and> capped dflt most n \<le> most"
  by (auto simp: capped_def)

lemma takeWhile_options: "set (read_options (a @ b)) \<subseteq> set (filter (\<lambda>a. has_prefix a ''-'') a) \<union> set (read_options b)"
  by (induction a) (auto simp: read_options_def split: if_splits)

lemma read_marker: "read_options (''--'' # b) = []"
  by (simp add: read_options_def)

definition safe_command :: "string \<times> string list \<Rightarrow> bool" where
  "safe_command = (\<lambda>(name, args). name \<in> {''grep'', ''git''} \<and> set (read_options args) \<subseteq> set fixed_options)"

lemma grep_safe: "1 \<le> n \<Longrightarrow> safe_command (''grep'', grep_args pattern path ci n)"
proof -
  assume n: "1 \<le> n"
  have "set (read_options (grep_args pattern path ci n)) \<subseteq>
      set (filter (\<lambda>a. has_prefix a ''-'') ([''-rEnH'', ''--binary-files=without-match''] @ (if ci then [''-i''] else []) @
        [''-m'', int_text n] @ grepExcludes)) \<union> set (read_options [''--'', pattern, path])"
    using takeWhile_options[of "[''-rEnH'', ''--binary-files=without-match''] @ (if ci then [''-i''] else []) @
        [''-m'', int_text n] @ grepExcludes" "[''--'', pattern, path]"]
    by (simp add: grep_args_def)
  also have "\<dots> \<subseteq> set fixed_options" using count_not_option[OF n] by (auto simp: read_marker fixed_options_def)
  finally show ?thesis by (simp add: safe_command_def)
qed

lemma git_log_safe: "1 \<le> n \<Longrightarrow> \<not> has_prefix cwd ''-'' \<Longrightarrow> safe_command (''git'', git_log_args cwd path n)"
proof -
  assume n: "1 \<le> n" and cwd: "\<not> has_prefix cwd ''-''"
  let ?opts = "[''-C'', cwd, ''log'', ''--pretty=format:%h %ad %an: %s'', ''--date=short'', ''-n'', int_text n]"
  have "set (read_options (git_log_args cwd path n)) \<subseteq>
      set (filter (\<lambda>a. has_prefix a ''-'') ?opts) \<union> set (read_options (if path \<noteq> [] then [''--'', path] else []))"
    using takeWhile_options[of ?opts] unfolding git_log_args_def by blast
  also have "\<dots> \<subseteq> set fixed_options" using count_not_option[OF n] cwd
    by (auto simp: read_marker fixed_options_def read_options_def has_prefix_def)
  finally show ?thesis by (simp add: safe_command_def)
qed

lemma git_show_safe:
  assumes "\<not> has_prefix cwd ''-''" and "\<not> has_prefix ref ''-''"
  shows "safe_command (''git'', [''-C'', cwd, ''show'', ''--no-color'', ref])"
proof -
  let ?args = "[''-C'', cwd, ''show'', ''--no-color'', ref]"
  have "read_options [] = []" by (simp add: read_options_def)
  then have "set (read_options ?args) \<subseteq> set (filter (\<lambda>a. has_prefix a ''-'') ?args)"
    using takeWhile_options[of ?args "[]"] by (simp only: append_Nil2 list.set(1) Un_empty_right)
  also have "\<dots> \<subseteq> {''-C'', ''--no-color''}" using assms by (auto simp: has_prefix_def[of "''show''"])
  also have "\<dots> \<subseteq> set fixed_options" by (simp add: fixed_options_def)
  finally show ?thesis by (simp add: safe_command_def)
qed

definition ran_safely :: "'w \<times> (string \<times> string list) list \<Rightarrow> bool" where
  "ran_safely W \<longleftrightarrow> length (snd W) \<le> 1 \<and> list_all safe_command (snd W)"

lemma ran_nothing: "ran_safely (w, [])"
  by (simp add: ran_safely_def)

lemma recorded_run: "safe_command (prog, args) \<Longrightarrow> ran_safely (snd (rn_run (recording r) prog args (w, [])))"
  by (simp add: recording_def ran_safely_def split: prod.split)

lemma trimmed_world: "snd (trimmed_output none X) = snd X"
  by (auto simp: trimmed_output_def split: prod.splits option.splits)

lemma grep_runs: "ran_safely (snd (grep_search (recording r) i (w, [])))"
proof -
  have "ran_safely (snd (rn_run (recording r) ''grep'' (grep_args pat path ci (capped grepDefaultResults grepMaxResults n)) (w, [])))" for pat path ci n
    by (intro recorded_run grep_safe) (simp add: capped_def grepDefaultResults_def grepMaxResults_def)
  then show ?thesis
    by (cases i) (simp add: grep_search_def ran_nothing Let_def split: prod.split option.split, metis snd_conv)
qed

lemma git_log_runs: "ran_safely (snd (git_log (recording r) i (w, [])))"
proof -
  have "ran_safely (snd (rn_run (recording r) ''git'' (git_log_args cwd path (capped gitLogDefaultN gitLogMaxN n)) (w, [])))"
    if "require_abs ''cwd'' cwd = None" for cwd path n
    by (intro recorded_run git_log_safe abs_not_option[OF that]) (simp add: capped_def gitLogDefaultN_def gitLogMaxN_def)
  then show ?thesis by (cases i) (simp add: git_log_def ran_nothing trimmed_world split: option.split)
qed

lemma git_show_runs: "ran_safely (snd (git_show (recording r) i (w, [])))"
proof -
  have "ran_safely (snd (rn_run (recording r) ''git'' [''-C'', cwd, ''show'', ''--no-color'', ref] (w, [])))"
    if "require_abs ''cwd'' cwd = None" "require_safe_ref ''ref'' ref = None" for cwd ref
    using that(2) by (intro recorded_run git_show_safe abs_not_option[OF that(1)]) (auto simp: require_safe_ref_def split: if_splits)
  then show ?thesis by (cases i) (simp add: git_show_def ran_nothing trimmed_world split: option.split)
qed

lemma typed_world: "(\<And>i. P (snd (g i w))) \<Longrightarrow> P w \<Longrightarrow> P (snd (typed_tool dec name g raw w))"
  by (simp add: typed_tool_def split: sum.split prod.split) (metis snd_conv)

text \<open>C28: Arguments stay arguments: whatever input the model gives grep_search, git_log or git_show, at most one
  program is run, it is grep or git, and every word that program reads as an option is one the tool wrote:
  no pattern, path, directory, revision or count the model chose is taken for an option.\<close>

theorem arguments_stay_arguments:
  assumes "exec_tool ctx (recording r) name = Some f" and "name \<noteq> ''bash''" and "f raw (w, []) = (res, w', cs)"
  shows "length cs \<le> 1 \<and> (\<forall>(prog, args)\<in>set cs. prog \<in> {''grep'', ''git''} \<and> set (read_options args) \<subseteq> set fixed_options)"
proof -
  have "ran_safely (snd (f raw (w, [])))" using assms(1,2)
    by (auto split: if_splits intro!: typed_world[where P = ran_safely] grep_runs git_log_runs git_show_runs ran_nothing)
  then show ?thesis using assms(3) by (auto simp: ran_safely_def safe_command_def list_all_iff)
qed

definition still_runner :: "unit runner" where
  "still_runner = \<lparr>rn_run = (\<lambda>_ _ w. (([], None), w)), rn_shell = (\<lambda>_ w. (([], None), w))\<rparr>"

theorem arguments_stay_arguments_witness:
  "list_all (\<lambda>(prog, args). list_all (\<lambda>a. a \<in> set fixed_options) (read_options args))
    (snd (snd (typed_tool grep_in ''grep_search'' (grep_search (recording still_runner))
      (json_render (JObj [(''pattern'', JStr ''--help''), (''path'', JStr ''/etc'')])) ((), []))))"
proof -
  let ?f = "typed_tool grep_in ''grep_search'' (grep_search (recording still_runner))"
  let ?raw = "json_render (JObj [(''pattern'', JStr ''--help''), (''path'', JStr ''/etc'')])"
  obtain res w' cs where run: "?f ?raw ((), []) = (res, w', cs)" by (metis prod.exhaust)
  have "exec_tool (\<lambda>_. None) (recording still_runner) ''grep_search'' = Some ?f" by simp
  from arguments_stay_arguments[OF this _ run] run show ?thesis by (auto simp: list_all_iff)
qed

section \<open>What the surface promises\<close>

text \<open>The surface is what its documentation says: the names are distinct, so a set of them is built; every
  tool has a handler; the read-only filter leaves calculator, current_time, view_file, grep_search, git_log
  and git_show; and no tool that changes files or runs the model's command is one that may be retried.\<close>

theorem builtin_surface_as_documented:
  "new_set (default_tools desc schema) \<noteq> None \<and>
   list_all (\<lambda>d. builtin_tool ops valid parse ctx look dps (td_name d) \<noteq> None) (default_tools desc schema) \<and>
   map td_name (filter_tools (default_tools desc schema) (only_caps CapReadOnly)) =
     [''calculator'', ''current_time'', ''view_file'', ''grep_search'', ''git_log'', ''git_show''] \<and>
   filter (\<lambda>d. td_idempotent d \<and> (has_cap d CapMutating \<or> has_cap d CapExec)) (default_tools desc schema) = []"
  by (simp add: new_set_def default_tools_def builtin_def_def Let_def builtin_tool_def filter_tools_def only_caps_def
      has_cap_def CapReadOnly_def CapMutating_def CapExec_def CapNetwork_def CapPause_def)

end
