(* ===== verification/Subagent.thy ===== *)
theory Subagent
  imports AgentLoop
begin

text \<open>
  Delegation (\<^verbatim>\<open>subagent.go\<close>): the tool that runs one child agent on the parent's budget and world, and
  the one that fans a list of tasks out over copies of it. The fan-out is a step relation: a branch waits
  for a slot, forwards the events of its child, and leaves a result; what a child does is an argument.
\<close>

definition ErrDelegateTooDeep :: err where
  [sentinel_defs]: "ErrDelegateTooDeep = Sentinel ''wombat: delegation is nested too deep''"

definition ErrSubagentPaused :: err where
  [sentinel_defs]: "ErrSubagentPaused = Sentinel ''wombat: sub-agent asked for user input''"

definition ErrEmptyTask :: err where
  [sentinel_defs]: "ErrEmptyTask = Sentinel ''wombat: delegate called with an empty task''"

definition DefaultDelegateName :: string where "DefaultDelegateName = ''delegate''"
definition DefaultParallelDelegateName :: string where "DefaultParallelDelegateName = ''parallel_delegate''"
definition DefaultMaxBranches :: nat where "DefaultMaxBranches = 4"

definition too_deep :: err where
  "too_deep = Wrapf ''you are already at the maximum nesting level'' [ErrDelegateTooDeep]"

section \<open>One child\<close>

text \<open>What the end of a child's run means to its parent.\<close>

definition child_result :: "string \<Rightarrow> run_state \<Rightarrow> err + string" where
  "child_result label st =
     (case run_err st of
        Some e \<Rightarrow> Inl (Wrapf (''sub-agent failed: '' @ label) [e])
      | None \<Rightarrow>
          (case run_outcome st of
             Some (Answer t) \<Rightarrow> Inr t
           | Some (Submitted _ p) \<Rightarrow> Inr p
           | Some (Paused _ s) \<Rightarrow> Inl (Wrapf (label @ '' asked '' @ pause_summary s) [ErrSubagentPaused])
           | None \<Rightarrow> Inl (Sentinel (''sub-agent ended in an unknown state: '' @ label))))"

definition run_child :: "'w agent \<Rightarrow> string \<Rightarrow> string \<Rightarrow> budget \<times> 'w \<Rightarrow> (err + string) \<times> budget \<times> 'w" where
  "run_child child label task bw =
     (case run_agent child (ask_input task) bw of (st, bw') \<Rightarrow> (child_result label st, bw'))"

definition delegate :: "'w agent \<Rightarrow> string \<Rightarrow> string \<Rightarrow> budget \<times> 'w \<Rightarrow> (err + string) \<times> budget \<times> 'w" where
  "delegate child name task bw =
     (let task = trim_space task in
      if task = [] then (Inl (Wrapf ''describe the whole task in the task field'' [ErrEmptyTask]), bw)
      else case enter_subagent (fst bw) of (ok, b) \<Rightarrow>
        (if \<not> ok then (Inl too_deep, bw)
         else case run_child child name task (b, snd bw) of (r, b', w') \<Rightarrow> (r, exit_subagent b', w')))"

definition delegate_handler :: "'w agent \<Rightarrow> string \<Rightarrow> string \<Rightarrow> budget \<times> 'w \<Rightarrow> call_end \<times> budget \<times> 'w" where
  "delegate_handler child name raw bw =
     (case typed_input (field_str ''task'') name raw of
        Inl e \<Rightarrow> (Returned (Inl e), bw)
      | Inr task \<Rightarrow> (case delegate child name task bw of (r, bw') \<Rightarrow> (Returned r, bw')))"

section \<open>Several children\<close>

text \<open>The tasks of a fan-out, trimmed; or why it is refused.\<close>

fun trim_tasks :: "nat \<Rightarrow> string list \<Rightarrow> err + string list" where
  "trim_tasks i [] = Inr []"
| "trim_tasks i (t # ts) =
     (if trim_space t = [] then Inl (Wrapf (''tasks['' @ itoa i @ ''] is empty'') [ErrEmptyTask])
      else map_sum id (\<lambda>us. trim_space t # us) (trim_tasks (i + 1) ts))"

definition fan_tasks :: "string list \<Rightarrow> err + string list" where
  "fan_tasks ts = (case trim_tasks 0 ts of
     Inl e \<Rightarrow> Inl e
   | Inr us \<Rightarrow> if us = [] then Inl (Wrapf ''tasks must list at least one task'' [ErrEmptyTask]) else Inr us)"

definition fields :: "string \<Rightarrow> string list" where
  "fields s = fields_func is_space s"

definition task_preview :: "string \<Rightarrow> nat \<Rightarrow> string" where
  "task_preview s n =
     (let s = join_with '' '' (fields s) in
      if length s \<le> n then s else take (boundary_from s n) s @ [CHR 0xE2, CHR 0x80, CHR 0xA6])"

definition branch_label :: "string \<Rightarrow> nat \<Rightarrow> string" where
  "branch_label name i = name @ ''['' @ itoa i @ '']''"

datatype 'e sub_event =
    SubagentStart string string int
  | SubagentEnd string bool string
  | SubagentEvent string int 'e

fun sub_name :: "'e sub_event \<Rightarrow> string" where
  "sub_name (SubagentStart n _ _) = n"
| "sub_name (SubagentEnd n _ _) = n"
| "sub_name (SubagentEvent n _ _) = n"

datatype 'e branch = Queued | Active "'e list" | Finished "err + string"

record 'e fan =
  fan_branches :: "'e branch list"
  fan_events :: "'e sub_event list"

definition start_event :: "string \<Rightarrow> int \<Rightarrow> string list \<Rightarrow> nat \<Rightarrow> 'e sub_event" where
  "start_event name depth tasks i = SubagentStart (branch_label name i) (tasks ! i) depth"

definition end_event :: "(err \<Rightarrow> string) \<Rightarrow> string \<Rightarrow> nat \<Rightarrow> err + string \<Rightarrow> 'e sub_event" where
  "end_event shw name i r = (case r of
     Inl e \<Rightarrow> SubagentEnd (branch_label name i) False (shw e)
   | Inr _ \<Rightarrow> SubagentEnd (branch_label name i) True [])"

definition active :: "'e branch list \<Rightarrow> nat" where
  "active bs = length (filter (\<lambda>b. case b of Active _ \<Rightarrow> True | _ \<Rightarrow> False) bs)"

text \<open>\<open>kid i\<close> gives the events of the i-th child's run and its result.\<close>

inductive fan_step ::
  "(err \<Rightarrow> string) \<Rightarrow> string \<Rightarrow> int \<Rightarrow> nat \<Rightarrow> string list \<Rightarrow> (nat \<Rightarrow> 'e list \<times> (err + string)) \<Rightarrow> 'e fan \<Rightarrow> 'e fan \<Rightarrow> bool"
  for shw name depth limit tasks kid where
  begin_branch: "i < length bs \<Longrightarrow> bs ! i = Queued \<Longrightarrow> active bs < limit \<Longrightarrow>
    fan_step shw name depth limit tasks kid \<lparr>fan_branches = bs, fan_events = evs\<rparr>
      \<lparr>fan_branches = bs[i := Active (fst (kid i))], fan_events = evs @ [start_event name depth tasks i]\<rparr>"
| forward: "i < length bs \<Longrightarrow> bs ! i = Active (e # es) \<Longrightarrow>
    fan_step shw name depth limit tasks kid \<lparr>fan_branches = bs, fan_events = evs\<rparr>
      \<lparr>fan_branches = bs[i := Active es], fan_events = evs @ [SubagentEvent (branch_label name i) depth e]\<rparr>"
| end_branch: "i < length bs \<Longrightarrow> bs ! i = Active [] \<Longrightarrow>
    fan_step shw name depth limit tasks kid \<lparr>fan_branches = bs, fan_events = evs\<rparr>
      \<lparr>fan_branches = bs[i := Finished (snd (kid i))], fan_events = evs @ [end_event shw name i (snd (kid i))]\<rparr>"

definition fan_start :: "nat \<Rightarrow> 'e fan" where
  "fan_start n = \<lparr>fan_branches = replicate n Queued, fan_events = []\<rparr>"

text \<open>The answer: one section per task, in the order of the tasks.\<close>

definition fan_section :: "(err \<Rightarrow> string) \<Rightarrow> string list \<Rightarrow> nat \<Rightarrow> err + string \<Rightarrow> string" where
  "fan_section shw tasks i r =
     ''=== task '' @ itoa (i + 1) @ '' of '' @ itoa (length tasks) @ '': '' @ task_preview (tasks ! i) 160 @
     '' ==='' @ [CHR 0x0A] @ (case r of Inl e \<Rightarrow> ''[failed] '' @ shw e | Inr t \<Rightarrow> t)"

definition fan_answer :: "(err \<Rightarrow> string) \<Rightarrow> string list \<Rightarrow> (err + string) list \<Rightarrow> string" where
  "fan_answer shw tasks rs =
     join_with newlines (map (\<lambda>i. fan_section shw tasks i (rs ! i)) [0..<length tasks])"

text \<open>\<open>fan\<close> runs the branches; the rest of the tool is sequential.\<close>

definition parallel_delegate ::
  "(err \<Rightarrow> string) \<Rightarrow> (int \<Rightarrow> string list \<Rightarrow> budget \<times> 'w \<Rightarrow> (err + string) list \<times> budget \<times> 'w) \<Rightarrow> string list
    \<Rightarrow> budget \<times> 'w \<Rightarrow> (err + string) \<times> budget \<times> 'w" where
  "parallel_delegate shw fan ts bw =
     (case fan_tasks ts of
        Inl e \<Rightarrow> (Inl e, bw)
      | Inr tasks \<Rightarrow>
          (case enter_subagent (fst bw) of (ok, b) \<Rightarrow>
             (if \<not> ok then (Inl too_deep, bw)
              else case fan (b_depth b) tasks (b, snd bw) of (rs, b', w') \<Rightarrow>
                (Inr (fan_answer shw tasks rs), exit_subagent b', w'))))"

text \<open>The argument list of the tool: strings, of which null is the empty one.\<close>

definition tasks_of_fields :: "(string \<times> json) list \<Rightarrow> string list option" where
  "tasks_of_fields kvs = (case json_field ''tasks'' kvs of
     None \<Rightarrow> Some []
   | Some JNull \<Rightarrow> Some []
   | Some (JArr vs) \<Rightarrow>
       if list_all (\<lambda>v. case v of JStr _ \<Rightarrow> True | JNull \<Rightarrow> True | _ \<Rightarrow> False) vs
       then Some (map (\<lambda>v. case v of JStr s \<Rightarrow> s | _ \<Rightarrow> []) vs) else None
   | _ \<Rightarrow> None)"

definition parallel_handler ::
  "(err \<Rightarrow> string) \<Rightarrow> (int \<Rightarrow> string list \<Rightarrow> budget \<times> 'w \<Rightarrow> (err + string) list \<times> budget \<times> 'w) \<Rightarrow> string \<Rightarrow> string
    \<Rightarrow> budget \<times> 'w \<Rightarrow> call_end \<times> budget \<times> 'w" where
  "parallel_handler shw fan name raw bw =
     (case typed_input tasks_of_fields name raw of
        Inl e \<Rightarrow> (Returned (Inl e), bw)
      | Inr ts \<Rightarrow> (case parallel_delegate shw fan ts bw of (r, bw') \<Rightarrow> (Returned r, bw')))"

section \<open>Fan-out\<close>

lemma branch_label_inject [simp]: "branch_label name i = branch_label name j \<longleftrightarrow> i = j"
  by (simp add: branch_label_def itoa_inject)

definition timeline :: "string \<Rightarrow> nat \<Rightarrow> 'e sub_event list \<Rightarrow> 'e sub_event list" where
  "timeline name i evs = filter (\<lambda>e. sub_name e = branch_label name i) evs"

lemma timeline_append [simp]: "timeline name i (xs @ ys) = timeline name i xs @ timeline name i ys"
  by (simp add: timeline_def)

lemma timeline_one [simp]:
  "timeline name i [start_event name depth tasks j] = (if i = j then [start_event name depth tasks j] else [])"
  "timeline name i [SubagentEvent (branch_label name j) depth e] =
     (if i = j then [SubagentEvent (branch_label name j) depth e] else [])"
  "timeline name i [end_event shw name j r] = (if i = j then [end_event shw name j r] else [])"
  by (auto simp: timeline_def start_event_def end_event_def split: sum.splits)

text \<open>What the parent's stream shows of a branch in each state.\<close>

definition told :: "(err \<Rightarrow> string) \<Rightarrow> string \<Rightarrow> int \<Rightarrow> string list \<Rightarrow> (nat \<Rightarrow> 'e list \<times> (err + string)) \<Rightarrow> nat
    \<Rightarrow> 'e branch \<Rightarrow> 'e sub_event list \<Rightarrow> bool" where
  "told shw name depth tasks kid i b evs =
     (let opening = start_event name depth tasks i; wrap = map (SubagentEvent (branch_label name i) depth) in
      case b of
        Queued \<Rightarrow> evs = []
      | Active es \<Rightarrow> \<exists>ds. fst (kid i) = ds @ es \<and> evs = opening # wrap ds
      | Finished r \<Rightarrow> r = snd (kid i) \<and> evs = opening # wrap (fst (kid i)) @ [end_event shw name i r])"

definition fan_ok :: "(err \<Rightarrow> string) \<Rightarrow> string \<Rightarrow> int \<Rightarrow> nat \<Rightarrow> string list \<Rightarrow> (nat \<Rightarrow> 'e list \<times> (err + string)) \<Rightarrow> 'e fan \<Rightarrow> bool" where
  "fan_ok shw name depth limit tasks kid s \<longleftrightarrow>
     length (fan_branches s) = length tasks \<and> active (fan_branches s) \<le> limit \<and>
     (\<forall>i<length tasks. told shw name depth tasks kid i (fan_branches s ! i) (timeline name i (fan_events s)))"

fun branch_work :: "'e list \<times> (err + string) \<Rightarrow> 'e branch \<Rightarrow> nat" where
  "branch_work k Queued = length (fst k) + 2"
| "branch_work k (Active es) = length es + 1"
| "branch_work k (Finished r) = 0"

definition fan_work :: "(nat \<Rightarrow> 'e list \<times> (err + string)) \<Rightarrow> 'e fan \<Rightarrow> nat" where
  "fan_work kid s = (\<Sum>i<length (fan_branches s). branch_work (kid i) (fan_branches s ! i))"

lemma active_update:
  "i < length bs \<Longrightarrow> active (bs[i := b]) + (case bs ! i of Active _ \<Rightarrow> 1 | _ \<Rightarrow> 0) = active bs + (case b of Active _ \<Rightarrow> 1 | _ \<Rightarrow> 0)"
  using filter_update_length[of i bs "\<lambda>b. case b of Active _ \<Rightarrow> True | _ \<Rightarrow> False" b]
  by (auto simp: active_def split: branch.splits)

lemma fan_update_ok:
  assumes "fan_ok shw name depth limit tasks kid \<lparr>fan_branches = bs, fan_events = evs\<rparr>" and "i < length bs"
    and "told shw name depth tasks kid i b (timeline name i evs @ [e])" and "sub_name e = branch_label name i"
    and "active (bs[i := b]) \<le> limit"
  shows "fan_ok shw name depth limit tasks kid \<lparr>fan_branches = bs[i := b], fan_events = evs @ [e]\<rparr>"
proof -
  have "timeline name j [e] = (if j = i then [e] else [])" for j using assms(4) by (simp add: timeline_def)
  then show ?thesis using assms by (auto simp: fan_ok_def nth_list_update)
qed

lemma fan_step_ok:
  assumes "fan_step shw name depth limit tasks kid s s'" and "fan_ok shw name depth limit tasks kid s"
  shows "fan_ok shw name depth limit tasks kid s'"
  using assms
proof (cases rule: fan_step.cases)
  case (begin_branch i bs evs)
  then have "told shw name depth tasks kid i Queued (timeline name i evs)" using assms(2) by (auto simp: fan_ok_def)
  with begin_branch assms(2) active_update[of i bs "Active (fst (kid i))"] show ?thesis
    by (auto simp: told_def Let_def start_event_def intro!: fan_update_ok)
next
  case (forward i bs e es evs)
  then have "told shw name depth tasks kid i (Active (e # es)) (timeline name i evs)"
    using assms(2) unfolding fan_ok_def by fastforce
  then obtain ds where "fst (kid i) = ds @ e # es"
    "timeline name i evs = start_event name depth tasks i # map (SubagentEvent (branch_label name i) depth) ds"
    by (auto simp: told_def Let_def)
  then have "told shw name depth tasks kid i (Active es) (timeline name i evs @ [SubagentEvent (branch_label name i) depth e])"
    by (auto simp: told_def Let_def intro!: exI[of _ "ds @ [e]"])
  moreover have "active (bs[i := Active es]) \<le> limit"
    using forward assms(2) active_update[of i bs "Active es"] by (auto simp: fan_ok_def)
  ultimately show ?thesis using forward assms(2) by (auto intro!: fan_update_ok)
next
  case (end_branch i bs evs)
  then have "told shw name depth tasks kid i (Active []) (timeline name i evs)"
    using assms(2) unfolding fan_ok_def by fastforce
  then have "told shw name depth tasks kid i (Finished (snd (kid i))) (timeline name i evs @ [end_event shw name i (snd (kid i))])"
    by (auto simp: told_def Let_def)
  moreover have "sub_name (end_event shw name i (snd (kid i)) :: 'a sub_event) = branch_label name i"
    by (simp add: end_event_def split: sum.splits)
  moreover have "active (bs[i := Finished (snd (kid i))]) \<le> limit"
    using end_branch assms(2) active_update[of i bs "Finished (snd (kid i))"] by (auto simp: fan_ok_def)
  ultimately show ?thesis using end_branch assms(2) by (auto intro!: fan_update_ok)
qed

lemma fan_start_ok: "fan_ok shw name depth limit tasks kid (fan_start (length tasks))"
  by (auto simp: fan_ok_def fan_start_def active_def told_def timeline_def)

lemma fan_run_ok: "(fan_step shw name depth limit tasks kid)\<^sup>*\<^sup>* (fan_start (length tasks)) s \<Longrightarrow>
    fan_ok shw name depth limit tasks kid s"
  by (induction rule: rtranclp_induct) (auto simp: fan_start_ok dest: fan_step_ok)

lemma branch_work_update:
  assumes "i < length bs" and "branch_work (kid i) b < branch_work (kid i) (bs ! i)"
  shows "(\<Sum>j<length bs. branch_work (kid j) (bs[i := b] ! j)) < (\<Sum>j<length bs. branch_work (kid j) (bs ! j))"
  using assms by (intro sum_strict_mono_ex1) (auto simp: nth_list_update)

lemma fan_step_work:
  assumes "fan_step shw name depth limit tasks kid s s'"
  shows "fan_work kid s' < fan_work kid s"
  using assms
proof (cases rule: fan_step.cases)
  case (begin_branch i bs evs)
  with branch_work_update[of i bs kid "Active (fst (kid i))"] show ?thesis by (simp add: fan_work_def)
next
  case (forward i bs e es evs)
  with branch_work_update[of i bs kid "Active es"] show ?thesis by (simp add: fan_work_def)
next
  case (end_branch i bs evs)
  with branch_work_update[of i bs kid "Finished (snd (kid i))"] show ?thesis by (simp add: fan_work_def)
qed

lemma fan_enabled:
  assumes "0 < limit" and "i < length (fan_branches s)" and "\<nexists>r. fan_branches s ! i = Finished r"
  shows "\<exists>s'. fan_step shw name depth limit tasks kid s s'"
proof -
  obtain bs evs where s: "s = \<lparr>fan_branches = bs, fan_events = evs\<rparr>" by (cases s)
  show ?thesis
  proof (cases "\<exists>j<length bs. \<exists>es. bs ! j = Active es")
    case True
    then obtain j es where j: "j < length bs" "bs ! j = Active es" by blast
    show ?thesis
    proof (cases es)
      case Nil
      with j fan_step.end_branch[of j bs shw name depth limit tasks kid evs] s show ?thesis by blast
    next
      case (Cons e es')
      with j fan_step.forward[of j bs e es' shw name depth limit tasks kid evs] s show ?thesis by blast
    qed
  next
    case False
    then have "active bs = 0" by (auto simp: active_def filter_empty_conv in_set_conv_nth split: branch.splits)
    moreover have "bs ! i = Queued" using assms(2,3) False s by (cases "bs ! i") auto
    ultimately show ?thesis
      using fan_step.begin_branch[of i bs limit shw name depth tasks kid evs] assms(1,2) s by auto
  qed
qed


definition one_kid :: "nat \<Rightarrow> string list \<times> (err + string)" where
  "one_kid i = ([''e''], Inr ''done'')"

definition one_fan :: "string fan" where
  "one_fan = \<lparr>fan_branches = [Finished (Inr ''done'')],
     fan_events = [SubagentStart ''d[0]'' ''t'' 1, SubagentEvent ''d[0]'' 1 ''e'', SubagentEnd ''d[0]'' True []]\<rparr>"


section \<open>The depth of the tree\<close>

text \<open>What a delegation relies on: the client and the dispatcher of an agent leave the depth as they found it.\<close>

definition keeps_depth :: "budget \<Rightarrow> budget \<Rightarrow> bool" where
  "keeps_depth b b' \<longleftrightarrow> (0 \<le> b_depth b \<longrightarrow> b_depth b' = b_depth b \<and> b_limits b' = b_limits b)"

lemma keeps_depth_refl [simp]: "keeps_depth b b"
  by (simp add: keeps_depth_def)

lemma keeps_depth_trans: "keeps_depth a b \<Longrightarrow> keeps_depth b c \<Longrightarrow> keeps_depth a c"
  by (simp add: keeps_depth_def)

locale depth_keeper =
  fixes ag :: "'w agent"
  assumes client_keeps: "ag_client ag req bw = (x, b', w') \<Longrightarrow> keeps_depth (fst bw) b'"
    and dispatch_keeps: "ag_dispatch ag us bw = (rs, b', w') \<Longrightarrow> keeps_depth (fst bw) b'"
begin

lemma act_on_uses_keeps: "act_on_uses ag us st bw = (st', stop, b', w') \<Longrightarrow> keeps_depth (fst bw) b'"
  using dispatch_keeps by (auto simp: act_on_uses_def Let_def split: option.splits prod.splits)

lemma act_on_reply_keeps: "act_on_reply ag resp st bw = (st', stop, b', w') \<Longrightarrow> keeps_depth (fst bw) b'"
  using act_on_uses_keeps by (auto simp: act_on_reply_def Let_def split: if_splits)

lemma iterate_keeps:
  assumes "iterate ag iter st bw = (st', stop, b', w')"
  shows "keeps_depth (fst bw) b'"
proof -
  obtain msgs w1 where im: "iter_messages ag iter st bw = (msgs, w1)" by force
  obtain r s n b2 w2 where c: "ag_client ag (iter_request ag iter msgs w1) (fst bw, w1) = ((r, s, n), b2, w2)"
    by (metis prod.exhaust)
  have k: "keeps_depth (fst bw) b2" using client_keeps[OF c] by simp
  show ?thesis
  proof (cases r)
    case (Inl e)
    with assms im c k show ?thesis by (auto simp: iterate_def Let_def)
  next
    case (Inr resp)
    have "keeps_depth b2 b'" if "act_on_reply ag resp st2 (b2, w2) = (st', stop, b', w')" for st2
      using act_on_reply_keeps[OF that] by simp
    with Inr assms im c k show ?thesis
      by (auto simp: iterate_def Let_def split: if_splits intro: keeps_depth_trans)
  qed
qed

lemma step_keeps: "keeps_depth b (budget_step b)"
  by (auto simp: keeps_depth_def budget_step_def abort_def Let_def split: option.splits)

lemma iters_keep: "run_iters ag iter st bw = (st', b', w') \<Longrightarrow> keeps_depth (fst bw) b'"
proof (induction "nat (ag_max_iters ag + 1 - iter)" arbitrary: iter st bw rule: less_induct)
  case less
  let ?b = "budget_step (fst bw)"
  show ?case
  proof (cases "b_cause (fst bw) \<noteq> None \<or> iter > ag_max_iters ag \<or> b_cause ?b \<noteq> None")
    case True
    with less.prems step_keeps[of "fst bw"] show ?thesis
      by (subst (asm) run_iters.simps) (auto simp: Let_def split: if_splits)
  next
    case False
    obtain st1 stop b1 w1 where it: "iterate ag iter st (?b, snd bw) = (st1, stop, b1, w1)" by (metis prod.exhaust)
    have k: "keeps_depth (fst bw) b1" using keeps_depth_trans[OF step_keeps iterate_keeps[OF it, simplified]] .
    show ?thesis
    proof (cases stop)
      case True
      with less.prems False it k show ?thesis by (subst (asm) run_iters.simps) (simp add: Let_def)
    next
      case False': False
      with less.prems False it have "run_iters ag (iter + 1) st1 (b1, w1) = (st', b', w')"
        by (subst (asm) run_iters.simps) (simp add: Let_def)
      from less.hyps[OF _ this] False k show ?thesis by (auto intro: keeps_depth_trans)
    qed
  qed
qed

lemma run_keeps: "run_agent ag c bw = (st, b', w') \<Longrightarrow> keeps_depth (fst bw) b'"
  using iters_keep by (auto simp: run_agent_def split: option.splits)

lemma delegate_keeps:
  assumes "delegate ag name task bw = (r, b', w')"
  shows "keeps_depth (fst bw) b'"
proof (cases "trim_space task = [] \<or> \<not> fst (enter_subagent (fst bw))")
  case True
  with assms have "b' = fst bw" by (cases "enter_subagent (fst bw)") (auto simp: delegate_def Let_def split: if_splits)
  then show ?thesis by simp
next
  case False
  let ?b = "snd (enter_subagent (fst bw))"
  obtain st b1 w1 where run: "run_agent ag (ask_input (trim_space task)) (?b, snd bw) = (st, b1, w1)" by (metis prod.exhaust)
  have "b' = exit_subagent b1"
    using assms False run by (auto simp: delegate_def Let_def run_child_def split: prod.splits)
  with run_keeps[OF run] False show ?thesis
    by (auto simp: keeps_depth_def enter_subagent_def exit_subagent_def split: if_splits)
qed

end

text \<open>An agent that offers its child as a tool, and agents nested this way to any height.\<close>

definition delegating :: "string \<Rightarrow> 'w agent \<Rightarrow> (budget \<times> 'w) tagged_handler \<Rightarrow> (budget \<times> 'w) tagged_handler" where
  "delegating name child h d u bw =
     (if td_name d = name then (case delegate_handler child name (tu_input u) bw of (fin, bw') \<Rightarrow> (fin, [], bw'))
      else h d u bw)"

primrec nested_agent :: "'w agent \<Rightarrow> 'w leaf_client \<Rightarrow> tool_set \<Rightarrow> (budget \<times> 'w) tagged_handler \<Rightarrow> int \<Rightarrow> nat \<Rightarrow> 'w agent" where
  "nested_agent ag leaf s h keep 0 = standard_agent ag leaf s h keep"
| "nested_agent ag leaf s h keep (Suc n) =
     standard_agent ag leaf s (delegating DefaultDelegateName (nested_agent ag leaf s h keep n) h) keep"

definition leaf_keeps :: "'w leaf_client \<Rightarrow> bool" where
  "leaf_keeps leaf \<longleftrightarrow> (\<forall>req bw. keeps_depth (fst bw) (fst (snd (leaf req bw))))"

definition handler_keeps_depth :: "(budget \<times> 'w) tagged_handler \<Rightarrow> bool" where
  "handler_keeps_depth h \<longleftrightarrow> (\<forall>d u bw. keeps_depth (fst bw) (fst (snd (snd (h d u bw)))))"

lemma dispatch_keeps_depth:
  assumes "handler_keeps_depth h" and "dispatch_seq s h us bw = (rs, b', w')"
  shows "keeps_depth (fst bw) b'"
  using assms(2)
proof (induction us arbitrary: bw rs)
  case (Cons u us)
  obtain r b1 w1 where rc: "run_call s h u bw = (r, b1, w1)" by (metis prod.exhaust)
  then obtain rs' where "dispatch_seq s h us (b1, w1) = (rs', b', w')" using Cons.prems by (auto split: prod.splits)
  from Cons.IH[OF this] have "keeps_depth b1 b'" by simp
  moreover have "keeps_depth (fst bw) b1"
  proof (cases "set_find s (tu_name u)")
    case (Some d)
    with rc assms(1)[unfolded handler_keeps_depth_def, rule_format, of bw d u] show ?thesis
      by (auto simp: run_call_def split: prod.splits)
  qed (use rc in \<open>auto simp: run_call_def\<close>)
  ultimately show ?case by (rule keeps_depth_trans[rotated])
qed simp

lemma standard_keeper:
  assumes "leaf_keeps leaf" and "handler_keeps_depth h"
  shows "depth_keeper (standard_agent ag leaf s h keep)"
proof
  fix req bw x b' w'
  assume "ag_client (standard_agent ag leaf s h keep) req bw = (x, b', w')"
  moreover obtain r t n b1 w1 where l: "leaf req bw = ((r, t, n), b1, w1)" by (metis prod.exhaust)
  moreover have "keeps_depth (fst bw) b1" using assms(1)[unfolded leaf_keeps_def, rule_format, of bw req] l by simp
  ultimately show "keeps_depth (fst bw) b'"
    by (auto simp: standard_agent_def checked_client_def split: option.splits sum.splits)
next
  fix us bw rs b' w'
  assume "ag_dispatch (standard_agent ag leaf s h keep) us bw = (rs, b', w')"
  then show "keeps_depth (fst bw) b'" using dispatch_keeps_depth[OF assms(2)] by (simp add: standard_agent_def)
qed

lemma delegating_keeps:
  assumes "depth_keeper child" and "handler_keeps_depth h"
  shows "handler_keeps_depth (delegating name child h)"
  unfolding handler_keeps_depth_def
proof (intro allI)
  fix d and u :: tool_use and bw :: "budget \<times> 'a"
  obtain fin b1 w1 where dh: "delegate_handler child name (tu_input u) bw = (fin, b1, w1)" by (metis prod.exhaust)
  then have "keeps_depth (fst bw) b1"
    using depth_keeper.delegate_keeps[OF assms(1)]
    by (auto simp: delegate_handler_def split: sum.splits prod.splits)
  moreover have "keeps_depth (fst bw) (fst (snd (snd (h d u bw))))"
    using assms(2) unfolding handler_keeps_depth_def by blast
  ultimately show "keeps_depth (fst bw) (fst (snd (snd (delegating name child h d u bw))))"
    using dh by (simp add: delegating_def)
qed

lemma nested_keeper: "leaf_keeps leaf \<Longrightarrow> handler_keeps_depth h \<Longrightarrow> depth_keeper (nested_agent ag leaf s h keep n)"
  by (induction n) (simp_all add: standard_keeper delegating_keeps)

interpretation nested: depth_keeper "nested_agent bare_agent tool_leaf s quiet_handler keep n" for s keep n
  by (intro nested_keeper) (auto simp: leaf_keeps_def tool_leaf_def handler_keeps_depth_def quiet_handler_def split: prod.splits)

text \<open>C15: Delegation is balanced: with agents nested to any height, whatever a delegated task does and however
  it ends, the depth and the limits of the budget are what they were; and at the cap a delegation is refused
  without touching the budget, so the parent can go on.\<close>

theorem delegation_balances_depth:
  assumes "leaf_keeps leaf" and "handler_keeps_depth h" and "0 \<le> b_depth b"
    and "delegate (nested_agent ag leaf s h keep n) name task (b, w) = (r, b', w')"
  shows "b_depth b' = b_depth b \<and> b_limits b' = b_limits b \<and>
    (trim_space task \<noteq> [] \<and> 0 < l_subagent_depth (b_limits b) \<and> l_subagent_depth (b_limits b) \<le> b_depth b \<longrightarrow>
       r = Inl too_deep \<and> b' = b \<and> w' = w)"
  using depth_keeper.delegate_keeps[OF nested_keeper[OF assms(1,2)] assms(4)] assms(3,4)
  by (auto simp: keeps_depth_def delegate_def enter_subagent_def)

theorem delegation_balances_depth_witness:
  "b_depth (fst (snd (delegate (nested_agent bare_agent tool_leaf no_tools quiet_handler 8 2) ''d'' ''count'' (with_budget two_step_limits 0, 0)))) = 0"
proof -
  obtain r b' w' where d: "delegate (nested_agent bare_agent tool_leaf no_tools quiet_handler 8 2) ''d'' ''count''
      (with_budget two_step_limits 0, 0) = (r, b', w')" by (metis prod.exhaust)
  have "leaf_keeps tool_leaf" "handler_keeps_depth quiet_handler"
    by (auto simp: leaf_keeps_def tool_leaf_def handler_keeps_depth_def quiet_handler_def split: prod.splits)
  from delegation_balances_depth[OF this _ d] d show ?thesis by (simp add: with_budget_def)
qed

end
