(* ===== verification/Event.thy ===== *)
theory Event
  imports Subagent Wire
begin

text \<open>
  The events of a run and their JSON (\<^verbatim>\<open>event.go\<close>, and the events of \<^verbatim>\<open>subagent.go\<close>): each variant, its
  kind, its fields in the order of the struct, and the splice that puts the kind in front. The decimal form
  of a float64 is an argument.
\<close>

datatype agent_event =
    IterStart int int
  | LLMStart string string int string
  | EvTextDelta string
  | EvReasoningDelta string
  | EvToolArgsDelta int tool_use_id string string
  | LLMDone string string usage int
  | ToolStart tool_use_id string string "json option"
  | ToolDone tool_use_id string bool string string int
  | Spend real int int int int int real
  | Delegated "agent_event sub_event" int

fun kind :: "agent_event \<Rightarrow> string" where
  "kind (IterStart _ _) = ''iter_start''"
| "kind (LLMStart _ _ _ _) = ''llm_start''"
| "kind (EvTextDelta _) = ''text_delta''"
| "kind (EvReasoningDelta _) = ''reasoning_delta''"
| "kind (EvToolArgsDelta _ _ _ _) = ''tool_args_delta''"
| "kind (LLMDone _ _ _ _) = ''llm_done''"
| "kind (ToolStart _ _ _ _) = ''tool_start''"
| "kind (ToolDone _ _ _ _ _ _) = ''tool_done''"
| "kind (Spend _ _ _ _ _ _ _) = ''spend''"
| "kind (Delegated (SubagentStart _ _ _) _) = ''subagent_start''"
| "kind (Delegated (SubagentEnd _ _ _) _) = ''subagent_end''"
| "kind (Delegated (SubagentEvent _ _ _) _) = ''subagent_event''"

definition jint :: "int \<Rightarrow> json" where
  "jint n = JNum (int_text n)"

definition int_field_omit :: "string \<Rightarrow> int \<Rightarrow> (string \<times> json) list" where
  "int_field_omit k n = (if n = 0 then [] else [(k, jint n)])"

definition event_usage_json :: "usage \<Rightarrow> json" where
  "event_usage_json u = JObj ([(''input_tokens'', jint (u_input u)), (''output_tokens'', jint (u_output u))] @
     int_field_omit ''cache_creation_input_tokens'' (u_cache_write u) @
     int_field_omit ''cache_read_input_tokens'' (u_cache_read u))"

text \<open>The kind first, then the fields.\<close>

definition tagged_json :: "string \<Rightarrow> (string \<times> json) list \<Rightarrow> json" where
  "tagged_json k kvs = JObj ((''type'', JStr k) # kvs)"

fun event_fields :: "(real \<Rightarrow> string) \<Rightarrow> agent_event \<Rightarrow> (string \<times> json) list" where
  "event_fields ft (IterStart n m) = [(''n'', jint n), (''max'', jint m)]"
| "event_fields ft (LLMStart model purpose tools forced) =
     str_field ''model'' model @ str_field ''purpose'' purpose @ [(''tools'', jint tools)] @ str_field ''forced_tool'' forced"
| "event_fields ft (EvTextDelta t) = [(''text'', JStr t)]"
| "event_fields ft (EvReasoningDelta t) = [(''text'', JStr t)]"
| "event_fields ft (EvToolArgsDelta i u n t) =
     [(''index'', jint i)] @ str_field ''use_id'' u @ str_field ''name'' n @ [(''text'', JStr t)]"
| "event_fields ft (LLMDone model stop u ms) =
     str_field ''model'' model @ [(''stop_reason'', JStr stop), (''usage'', event_usage_json u), (''ms'', jint ms)]"
| "event_fields ft (ToolStart u n cat inp) =
     [(''use_id'', JStr u), (''name'', JStr n)] @ str_field ''category'' cat @
     (case inp of None \<Rightarrow> [] | Some v \<Rightarrow> [(''input'', v)])"
| "event_fields ft (ToolDone u n ok out e ms) =
     [(''use_id'', JStr u), (''name'', JStr n), (''ok'', JBool ok)] @ str_field ''output'' out @ str_field ''error'' e @
     [(''ms'', jint ms)]"
| "event_fields ft (Spend c calls i out cw cr s) =
     [(''cost_usd'', JNum (ft c)), (''calls'', jint calls), (''input_tokens'', jint i), (''output_tokens'', jint out)] @
     int_field_omit ''cache_write_tokens'' cw @ int_field_omit ''cache_read_tokens'' cr @ [(''elapsed_sec'', JNum (ft s))]"
| "event_fields ft (Delegated (SubagentStart n t d) ms) = [(''name'', JStr n), (''task'', JStr t), (''depth'', jint d)]"
| "event_fields ft (Delegated (SubagentEnd n ok e) ms) =
     [(''name'', JStr n), (''ok'', JBool ok)] @ str_field ''error'' e @ [(''ms'', jint ms)]"
| "event_fields ft (Delegated (SubagentEvent n d e) ms) =
     [(''name'', JStr n), (''depth'', jint d), (''inner'', tagged_json (kind e) (event_fields ft e))]"

text \<open>\<^verbatim>\<open>eventJSON\<close>: the bytes of the kind and of the struct are spliced.\<close>

definition splice :: "string \<Rightarrow> string \<Rightarrow> string" where
  "splice k body = ''{'' @ quote ''type'' @ '':'' @ k @
     (if length body > 2 then '','' @ butlast (tl body) else []) @ ''}''"

definition event_json :: "(real \<Rightarrow> string) \<Rightarrow> agent_event \<Rightarrow> string" where
  "event_json ft e = splice (quote (kind e)) (json_render (JObj (event_fields ft e)))"

lemma render_members_Cons: "kvs \<noteq> [] \<Longrightarrow> render_members ((k, v) # kvs) =
    quote k @ CHR '':'' # json_render v @ CHR '','' # render_members kvs"
  by simp

lemma splice_render: "splice (quote k) (json_render (JObj kvs)) = json_render (tagged_json k kvs)"
proof (cases "kvs = []")
  case True
  then show ?thesis by (simp add: splice_def tagged_json_def)
next
  case False
  then have last: "last (render_members kvs) = CHR ''}''" "render_members kvs \<noteq> []" using render_members_last by auto
  have "render_members kvs = butlast (render_members kvs) @ ''}''" using last by (metis append_butlast_last_id)
  moreover have "length (render_members kvs) \<ge> 2"
    using False by (cases kvs rule: list.exhaust) (auto simp: quote_def split: prod.splits)
  ultimately show ?thesis using False by (simp add: splice_def tagged_json_def)
qed


text \<open>\<^verbatim>\<open>EventTypes\<close>: a zero value of every variant, in the order of the list.\<close>

definition event_types :: "agent_event list" where
  "event_types = [IterStart 0 0, LLMStart [] [] 0 [], EvReasoningDelta [], EvToolArgsDelta 0 [] [] [], EvTextDelta [],
     LLMDone [] [] no_usage 0, ToolStart [] [] [] None, ToolDone [] [] False [] [] 0, Spend 0 0 0 0 0 0 0,
     Delegated (SubagentStart [] [] 0) 0, Delegated (SubagentEvent [] 0 (IterStart 0 0)) 0,
     Delegated (SubagentEnd [] False []) 0]"

lemma event_types_cover: "kind e \<in> set (map kind event_types)"
  by (cases e rule: kind.cases) (simp_all add: event_types_def)

lemma event_kinds_distinct: "distinct (map kind event_types)"
  by (simp add: event_types_def)

text \<open>The arguments of a tool call reach the stream as the JSON value they are.\<close>

fun event_ok :: "agent_event \<Rightarrow> bool" where
  "event_ok (ToolStart _ _ _ (Some v)) = json_ok v"
| "event_ok (Delegated (SubagentEvent _ _ e) _) = event_ok e"
| "event_ok _ = True"

lemma jint_ok: "json_ok (jint n)"
  by (simp add: jint_def scan_number_int_text)

lemma str_field_ok: "list_all (\<lambda>(k, v). json_ok v) (str_field k s)"
  by (simp add: str_field_def)

lemma int_field_ok: "list_all (\<lambda>(k, v). json_ok v) (int_field_omit k n)"
  by (simp add: int_field_omit_def jint_ok)

lemmas event_ok_parts = jint_ok str_field_ok int_field_ok event_usage_json_def

lemma event_fields_ok:
  assumes "\<And>x. scan_number (ft x) = Some []"
  shows "event_ok e \<Longrightarrow> list_all (\<lambda>(k, v). json_ok v) (event_fields ft e)"
  by (induction e rule: event_ok.induct) (simp_all add: event_ok_parts assms tagged_json_def)

text \<open>Every event, sub-agent events nested to any depth included, is written as one JSON object: the bytes
  spliced together parse back to the kind of the event, under the key type and first, followed by the fields of its
  struct in order, with an inner event a tagged object in turn; and the list of event types names every kind
  once, so a reader that dispatches on it misses none.\<close>

theorem event_json_is_tagged:
  assumes "\<And>x. scan_number (ft x) = Some []" and "event_ok e"
  shows "json_parse (event_json ft e) = Some (JObj ((''type'', JStr (kind e)) # event_fields ft e)) \<and>
    (case e of Delegated (SubagentEvent n d i) ms \<Rightarrow>
        event_fields ft e = [(''name'', JStr n), (''depth'', jint d), (''inner'', JObj ((''type'', JStr (kind i)) # event_fields ft i))]
      | _ \<Rightarrow> True) \<and>
    kind e \<in> set (map kind event_types) \<and> distinct (map kind event_types)"
proof (intro conjI)
  have "json_ok (JObj ((''type'', JStr (kind e)) # event_fields ft e))" using event_fields_ok[OF assms] by simp
  then show "json_parse (event_json ft e) = Some (JObj ((''type'', JStr (kind e)) # event_fields ft e))"
    unfolding event_json_def splice_render tagged_json_def by (rule json_parse_render)
  show "case e of Delegated (SubagentEvent n d i) ms \<Rightarrow>
        event_fields ft e = [(''name'', JStr n), (''depth'', jint d), (''inner'', JObj ((''type'', JStr (kind i)) # event_fields ft i))]
      | _ \<Rightarrow> True" by (auto simp: tagged_json_def split: agent_event.split sub_event.split)
qed (rule event_types_cover event_kinds_distinct)+

theorem event_json_is_tagged_witness:
  "json_parse (event_json (\<lambda>_. ''0'') (Delegated (SubagentEvent ''a'' 1 (EvTextDelta ''hi'')) 0)) =
    Some (JObj [(''type'', JStr ''subagent_event''), (''name'', JStr ''a''), (''depth'', jint 1),
      (''inner'', JObj [(''type'', JStr ''text_delta''), (''text'', JStr ''hi'')])])"
proof -
  have "scan_number ''0'' = Some []" by code_simp
  from event_json_is_tagged[of "\<lambda>_. ''0''" "Delegated (SubagentEvent ''a'' 1 (EvTextDelta ''hi'')) 0", OF this]
  show ?thesis by (simp add: tagged_json_def)
qed

end
