(* ===== verification/AgentBuild.thy ===== *)
theory AgentBuild
  imports Event "HOL-Library.Sublist"
begin

text \<open>
  How an agent is put together (\<^verbatim>\<open>agent.go\<close>): its settings and the options that make them, \<^verbatim>\<open>New\<close> and
  \<^verbatim>\<open>With\<close>, the system prompt, and the chain every tool call goes through, composed of the layers of
  ToolChain. Clients, strategies, sets and middleware are values of type variables: what the construction
  does with them is to stack them, find the terminal tool and hand them on.
\<close>

section \<open>Settings\<close>

definition DefaultMaxIters :: int where "DefaultMaxIters = 30"
definition DefaultMaxTokens :: int where "DefaultMaxTokens = 8192"
definition DefaultForceTerminalLastN :: int where "DefaultForceTerminalLastN = 2"
definition DefaultToolRetryAttempts :: int where "DefaultToolRetryAttempts = 3"
definition DefaultBreakerThreshold :: int where "DefaultBreakerThreshold = 5"
definition DefaultBreakerCooldown :: int where "DefaultBreakerCooldown = 60 * 10 ^ 9"
definition DefaultDedupThreshold :: int where "DefaultDedupThreshold = 3"
definition DefaultToolOutputLimit :: int where "DefaultToolOutputLimit = 64 * 1024"
definition DefaultToolTimeoutFallback :: int where "DefaultToolTimeoutFallback = 120 * 10 ^ 9"

definition DefaultSystemPrompt :: string where
  "DefaultSystemPrompt = ''You are a helpful assistant. Use the available tools when they help; answer directly when they do not.''"

text \<open>A fragment of the prompt: its tag and its body.\<close>

type_synonym prompt_block = "string \<times> string"

text \<open>
  What \<^verbatim>\<open>New\<close> itself stacks on the client and on the tool middleware, apart from what the caller gives.
\<close>

datatype client_layer = MetricsClient | TraceClient
datatype 'm tool_layer = GivenLayer 'm | MetricsTool | TraceTool
datatype 'x run_decorator = GivenContext 'x | TracerContext

record ('c, 's, 'm, 'x) settings =
  cf_name :: string
  cf_client :: "('c \<times> client_layer list) option"
  cf_pricing :: "(string \<times> rate) list"
  cf_tools :: "tool_def list"
  cf_set :: "tool_set option"
  cf_dispatcher :: "'m option"
  cf_tool_mw :: "'m tool_layer list"
  cf_parallel :: int
  cf_fallback :: int
  cf_fallback_set :: bool
  cf_prompt :: string
  cf_blocks :: "prompt_block list"
  cf_env_blocks :: "prompt_block list"
  cf_strategy :: "'s option"
  cf_max_iters :: int
  cf_model :: string
  cf_max_tokens :: int
  cf_purpose :: string
  cf_terminal :: string
  cf_force_last :: int
  cf_run_ctx :: "'x run_decorator list"
  cf_notice :: "'x option"
  cf_tracer :: bool
  cf_metrics :: bool
  cf_event_buffer :: int
  cf_logger :: bool

type_synonym ('c, 's, 'm, 'x) setter = "('c, 's, 'm, 'x) settings \<Rightarrow> ('c, 's, 'm, 'x) settings"

section \<open>Options\<close>

definition WithName :: "string \<Rightarrow> ('c, 's, 'm, 'x) setter" where "WithName s c = c\<lparr>cf_name := s\<rparr>"
definition WithClient :: "'c \<Rightarrow> ('c, 's, 'm, 'x) setter" where "WithClient cl c = c\<lparr>cf_client := Some (cl, [])\<rparr>"
definition WithPricing :: "(string \<times> rate) list \<Rightarrow> ('c, 's, 'm, 'x) setter" where "WithPricing p c = c\<lparr>cf_pricing := p\<rparr>"
definition WithTools :: "tool_def list \<Rightarrow> ('c, 's, 'm, 'x) setter" where "WithTools ds c = c\<lparr>cf_tools := ds, cf_set := None\<rparr>"
definition WithToolSet :: "tool_set \<Rightarrow> ('c, 's, 'm, 'x) setter" where "WithToolSet s c = c\<lparr>cf_set := Some s\<rparr>"
definition WithToolMiddleware :: "'m list \<Rightarrow> ('c, 's, 'm, 'x) setter" where
  "WithToolMiddleware mws c = c\<lparr>cf_tool_mw := cf_tool_mw c @ map GivenLayer mws\<rparr>"
definition WithDispatcher :: "'m \<Rightarrow> ('c, 's, 'm, 'x) setter" where "WithDispatcher d c = c\<lparr>cf_dispatcher := Some d\<rparr>"
definition WithToolParallelism :: "int \<Rightarrow> ('c, 's, 'm, 'x) setter" where "WithToolParallelism n c = c\<lparr>cf_parallel := n\<rparr>"
definition WithToolTimeoutFallback :: "int \<Rightarrow> ('c, 's, 'm, 'x) setter" where
  "WithToolTimeoutFallback d c = c\<lparr>cf_fallback := d, cf_fallback_set := True\<rparr>"
definition WithSystemPrompt :: "string \<Rightarrow> ('c, 's, 'm, 'x) setter" where "WithSystemPrompt s c = c\<lparr>cf_prompt := s\<rparr>"
definition WithSystemBlock :: "string \<Rightarrow> string \<Rightarrow> ('c, 's, 'm, 'x) setter" where
  "WithSystemBlock name body c = c\<lparr>cf_blocks := cf_blocks c @ [(name, body)]\<rparr>"
definition WithEnvBlock :: "string \<Rightarrow> string \<Rightarrow> ('c, 's, 'm, 'x) setter" where
  "WithEnvBlock tag body c = c\<lparr>cf_env_blocks := cf_env_blocks c @ [(tag, body)]\<rparr>"
definition WithStrategy :: "'s \<Rightarrow> ('c, 's, 'm, 'x) setter" where "WithStrategy s c = c\<lparr>cf_strategy := Some s\<rparr>"
definition WithMaxIters :: "int \<Rightarrow> ('c, 's, 'm, 'x) setter" where "WithMaxIters n c = c\<lparr>cf_max_iters := n\<rparr>"
definition WithModel :: "string \<Rightarrow> ('c, 's, 'm, 'x) setter" where "WithModel m c = c\<lparr>cf_model := m\<rparr>"
definition WithMaxTokens :: "int \<Rightarrow> ('c, 's, 'm, 'x) setter" where "WithMaxTokens n c = c\<lparr>cf_max_tokens := n\<rparr>"
definition WithPurpose :: "string \<Rightarrow> ('c, 's, 'm, 'x) setter" where "WithPurpose p c = c\<lparr>cf_purpose := p\<rparr>"
definition WithTerminalTool :: "string \<Rightarrow> ('c, 's, 'm, 'x) setter" where "WithTerminalTool n c = c\<lparr>cf_terminal := n\<rparr>"
definition WithForceTerminalLastN :: "int \<Rightarrow> ('c, 's, 'm, 'x) setter" where "WithForceTerminalLastN n c = c\<lparr>cf_force_last := n\<rparr>"
definition WithRunContext :: "'x \<Rightarrow> ('c, 's, 'm, 'x) setter" where
  "WithRunContext f c = c\<lparr>cf_run_ctx := cf_run_ctx c @ [GivenContext f]\<rparr>"
definition WithTurnNotice :: "'x \<Rightarrow> ('c, 's, 'm, 'x) setter" where "WithTurnNotice f c = c\<lparr>cf_notice := Some f\<rparr>"
definition WithMetrics :: "bool \<Rightarrow> ('c, 's, 'm, 'x) setter" where "WithMetrics m c = c\<lparr>cf_metrics := m\<rparr>"
definition WithEventBuffer :: "int \<Rightarrow> ('c, 's, 'm, 'x) setter" where
  "WithEventBuffer n c = (if n > 0 then c\<lparr>cf_event_buffer := n\<rparr> else c)"
definition WithTracing :: "bool \<Rightarrow> ('c, 's, 'm, 'x) setter" where "WithTracing t c = c\<lparr>cf_tracer := t\<rparr>"
definition WithLogger :: "bool \<Rightarrow> ('c, 's, 'm, 'x) setter" where "WithLogger l c = c\<lparr>cf_logger := l\<rparr>"

section \<open>The system prompt\<close>

definition block_text :: "prompt_block \<Rightarrow> string" where
  "block_text bl = ''<'' @ fst bl @ ''>'' @ [CHR 0x0A] @ snd bl @ [CHR 0x0A] @ ''</'' @ fst bl @ ''>''"

definition add_block :: "string \<Rightarrow> prompt_block \<Rightarrow> string" where
  "add_block s bl = (if snd bl = [] then s else s @ (if s \<noteq> [] then newlines else []) @ block_text bl)"

definition render_system :: "('c, 's, 'm, 'x) settings \<Rightarrow> string" where
  "render_system c = foldl add_block (foldl add_block (cf_prompt c) (cf_blocks c)) (cf_env_blocks c)"

section \<open>Construction\<close>

record ('c, 's, 'm, 'x) built =
  bt_cfg :: "('c, 's, 'm, 'x) settings"
  bt_system :: string
  bt_set :: tool_set

text \<open>\<open>flat\<close> is the strategy \<^verbatim>\<open>Flat\<close>, \<open>prices\<close> is \<^verbatim>\<open>llm.DefaultPricing\<close>.\<close>

definition default_settings :: "'s \<Rightarrow> (string \<times> rate) list \<Rightarrow> ('c, 's, 'm, 'x) settings" where
  "default_settings flat prices =
     \<lparr>cf_name = ''agent'', cf_client = None, cf_pricing = prices, cf_tools = [], cf_set = None, cf_dispatcher = None,
      cf_tool_mw = [], cf_parallel = 1, cf_fallback = 0, cf_fallback_set = False, cf_prompt = DefaultSystemPrompt,
      cf_blocks = [], cf_env_blocks = [], cf_strategy = Some flat, cf_max_iters = DefaultMaxIters, cf_model = [],
      cf_max_tokens = DefaultMaxTokens, cf_purpose = ''other'', cf_terminal = [],
      cf_force_last = DefaultForceTerminalLastN, cf_run_ctx = [], cf_notice = None, cf_tracer = False,
      cf_metrics = False, cf_event_buffer = 0, cf_logger = False\<rparr>"

definition push_client :: "client_layer \<Rightarrow> 'c \<times> client_layer list \<Rightarrow> 'c \<times> client_layer list" where
  "push_client l = (\<lambda>(cl, ls). (cl, ls @ [l]))"

definition instrument :: "('c, 's, 'm, 'x) setter" where
  "instrument c =
     (let c = (if cf_metrics c then c\<lparr>cf_client := map_option (push_client MetricsClient) (cf_client c),
                                     cf_tool_mw := cf_tool_mw c @ [MetricsTool]\<rparr> else c)
      in if cf_tracer c then c\<lparr>cf_client := map_option (push_client TraceClient) (cf_client c),
                               cf_tool_mw := cf_tool_mw c @ [TraceTool], cf_run_ctx := cf_run_ctx c @ [TracerContext]\<rparr>
         else c)"

text \<open>The error is its text; a set of tools with a repeated name panics, which is \<^const>\<open>None\<close>.\<close>

definition new_agent :: "'s \<Rightarrow> (string \<times> rate) list \<Rightarrow> ('c, 's, 'm, 'x) setter list \<Rightarrow> (string + ('c, 's, 'm, 'x) built) option" where
  "new_agent flat prices opts =
     (let c = foldl (\<lambda>c opt. opt c) (default_settings flat prices) opts in
      if cf_client c = None then Some (Inl ''wombat: no llm client (use WithClient)'')
      else
        let c = (if cf_strategy c = None then c\<lparr>cf_strategy := Some flat\<rparr> else c);
            c = c\<lparr>cf_logger := True\<rparr>;
            c = instrument c
        in case (case cf_set c of Some s \<Rightarrow> Some s | None \<Rightarrow> new_set (cf_tools c)) of
             None \<Rightarrow> None
           | Some s \<Rightarrow>
               let ag = \<lparr>bt_cfg = c, bt_system = render_system c, bt_set = s\<rparr> in
               if cf_terminal c = [] then Some (Inr ag)
               else case set_find s (cf_terminal c) of
                 None \<Rightarrow> Some (Inl (''wombat: terminal tool '' @ quote (cf_terminal c) @ '' is not in the tool set''))
               | Some d \<Rightarrow>
                   if \<not> has_cap d CapTerminal
                   then Some (Inl (''wombat: tool '' @ quote (cf_terminal c) @ '' is named as terminal but does not declare tool.CapTerminal''))
                   else Some (Inr ag))"

definition with_options ::
  "'s \<Rightarrow> (string \<times> rate) list \<Rightarrow> ('c, 's, 'm, 'x) built \<Rightarrow> ('c, 's, 'm, 'x) setter list \<Rightarrow> (string + ('c, 's, 'm, 'x) built) option" where
  "with_options flat prices a opts = new_agent flat prices ((\<lambda>_. bt_cfg a) # opts)"

definition tool_fallback :: "('c, 's, 'm, 'x) built \<Rightarrow> int" where
  "tool_fallback a = (if cf_fallback_set (bt_cfg a) then cf_fallback (bt_cfg a) else DefaultToolTimeoutFallback)"

definition agent_string :: "('s \<Rightarrow> string) \<Rightarrow> ('c, 's, 'm, 'x) built \<Rightarrow> string" where
  "agent_string shw a =
     (let c = bt_cfg a in
      ''agent('' @ cf_name c @ '' model='' @ cf_model c @ '' tools='' @ itoa (length (set_visible (bt_set a))) @ '' iters='' @
      int_text (cf_max_iters c) @ '' strategy='' @ (case cf_strategy c of None \<Rightarrow> [] | Some s \<Rightarrow> shw s) @ '' terminal='' @
      (if cf_terminal c \<noteq> [] then ''tool:'' @ cf_terminal c else ''free-text'') @ '')'')"

section \<open>The chain of a tool call\<close>

text \<open>
  The state the layers keep, beside the rest of the world; the budget's \<open>b_cause\<close> is the cause of the run's
  context. Logging only writes log lines and is left out.
\<close>

record 'w tool_world =
  tw_budget :: budget
  tw_breakers :: "string \<rightharpoonup> breaker"
  tw_stats :: call_stats
  tw_events :: "agent_event list"
  tw_rest :: 'w

type_synonym 'w layer = "'w tool_world handler \<Rightarrow> 'w tool_world handler"

definition breaker_layer :: "'w tool_world call_env \<Rightarrow> int \<Rightarrow> int \<Rightarrow> 'w layer" where
  "breaker_layer env threshold cooldown nxt d u W =
     (case with_circuit_breaker env threshold cooldown nxt d u (tw_breakers W, W) of
        (r, m, W') \<Rightarrow> (r, W'\<lparr>tw_breakers := m\<rparr>))"

definition dedup_layer :: "'w tool_world call_env \<Rightarrow> int \<Rightarrow> 'w layer" where
  "dedup_layer env threshold nxt d u W =
     (case with_dedup env threshold nxt d u (tw_stats W, W) of (r, m, W') \<Rightarrow> (r, W'\<lparr>tw_stats := m\<rparr>))"

definition budget_layer :: "'w layer" where
  "budget_layer nxt d u W =
     (case b_cause (tw_budget W) of
        Some e \<Rightarrow> (Returned (Inl e), W)
      | None \<Rightarrow>
          (let b = add_tool_call (call_key (td_name d) (tu_input u)) (tw_budget W); W = W\<lparr>tw_budget := b\<rparr> in
           case b_cause b of Some e \<Rightarrow> (Returned (Inl e), W) | None \<Rightarrow> nxt d u W))"

text \<open>\<^verbatim>\<open>WithObserver\<close> with \<^verbatim>\<open>observeTool\<close>: one event before and one after, unless a panic passes.\<close>

definition emit_event :: "agent_event \<Rightarrow> 'w tool_world \<Rightarrow> 'w tool_world" where
  "emit_event e W = W\<lparr>tw_events := tw_events W @ [e]\<rparr>"

definition start_observed :: "tool_def \<Rightarrow> tool_use \<Rightarrow> agent_event" where
  "start_observed d u = ToolStart (tu_id u) (td_name d) (td_category d) (if tu_input u = [] then None else json_parse (tu_input u))"

definition done_observed :: "(err \<Rightarrow> string) \<Rightarrow> tool_def \<Rightarrow> tool_use \<Rightarrow> err + string \<Rightarrow> int \<Rightarrow> agent_event" where
  "done_observed shw d u r dur =
     (case r of Inl e \<Rightarrow> ToolDone (tu_id u) (td_name d) False [] (shw e) (dur div 1000000)
      | Inr out \<Rightarrow> ToolDone (tu_id u) (td_name d) True out [] (dur div 1000000))"

definition observer_layer :: "'w tool_world call_env \<Rightarrow> 'w layer" where
  "observer_layer env nxt d u W =
     (let W1 = emit_event (start_observed d u) W in
      case nxt d u W1 of
        (Panicked v st, W') \<Rightarrow> (Panicked v st, W')
      | (Returned r, W') \<Rightarrow>
          (Returned r, emit_event (done_observed (ce_text env) d u r (ce_now env W' - ce_now env W1)) W'))"

definition default_tool_chain ::
  "'w tool_world call_env \<Rightarrow> ('c, 's, 'w layer, 'x) built \<Rightarrow> ('w layer tool_layer \<Rightarrow> 'w layer) \<Rightarrow> 'w tool_world handler \<Rightarrow> 'w tool_world handler" where
  "default_tool_chain env a stacked leaf =
     chain leaf
       ([with_recovery, with_input_validation, with_timeout env (tool_fallback a),
         with_tool_retry env (default_tool_retry\<lparr>tp_max_attempts := DefaultToolRetryAttempts\<rparr>),
         breaker_layer env DefaultBreakerThreshold DefaultBreakerCooldown, dedup_layer env DefaultDedupThreshold,
         with_truncation DefaultToolOutputLimit []] @
        map stacked (cf_tool_mw (bt_cfg a)) @ [budget_layer, observer_layer env])"

section \<open>One logical call\<close>

text \<open>What a call may do to the world below the budget and the observer.\<close>

definition tool_event :: "agent_event \<Rightarrow> bool" where
  "tool_event e = (case e of ToolStart _ _ _ _ \<Rightarrow> True | ToolDone _ _ _ _ _ _ \<Rightarrow> True | _ \<Rightarrow> False)"

definition adds_events :: "'w tool_world \<Rightarrow> 'w tool_world \<Rightarrow> bool" where
  "adds_events W W' \<longleftrightarrow> (\<exists>es. tw_events W' = tw_events W @ es \<and> (\<forall>e\<in>set es. \<not> tool_event e))"

definition attempt_ok :: "'w tool_world \<Rightarrow> 'w tool_world \<Rightarrow> bool" where
  "attempt_ok W W' \<longleftrightarrow> adds_events W W' \<and> b_tool_calls (tw_budget W') = b_tool_calls (tw_budget W) \<and> tw_breakers W' = tw_breakers W"

definition counted_once :: "string \<Rightarrow> 'w tool_world \<Rightarrow> 'w tool_world \<Rightarrow> bool" where
  "counted_once n W W' \<longleftrightarrow>
     (let b = breaker_of (tw_breakers W) n; b' = breaker_of (tw_breakers W') n in
      b' = b \<or> (\<exists>now ok. b' = breaker_record DefaultBreakerThreshold DefaultBreakerCooldown now ok b))"

definition call_ok :: "string \<Rightarrow> 'w tool_world \<Rightarrow> 'w tool_world \<Rightarrow> bool" where
  "call_ok n W W' \<longleftrightarrow> adds_events W W' \<and> b_tool_calls (tw_budget W') = b_tool_calls (tw_budget W) \<and> counted_once n W W'"

definition keeps :: "(string \<Rightarrow> 'w tool_world \<Rightarrow> 'w tool_world \<Rightarrow> bool) \<Rightarrow> 'w tool_world handler \<Rightarrow> bool" where
  "keeps P h \<longleftrightarrow> (\<forall>d u W. case h d u W of (r, W') \<Rightarrow> (\<exists>x. r = Returned x) \<and> P (td_name d) W W')"

definition env_ok :: "'w tool_world call_env \<Rightarrow> bool" where
  "env_ok env \<longleftrightarrow> (\<forall>W. attempt_ok W (snd (ce_rand env W))) \<and> (\<forall>d W. attempt_ok W (snd (ce_timer env d W)))"

lemma adds_events_refl: "adds_events W W"
  by (simp add: adds_events_def)

lemma adds_events_trans: "adds_events W W' \<Longrightarrow> adds_events W' W'' \<Longrightarrow> adds_events W W''"
  by (fastforce simp: adds_events_def)

lemma attempt_refl: "attempt_ok W W"
  by (simp add: attempt_ok_def adds_events_refl)

lemma attempt_trans: "attempt_ok W W' \<Longrightarrow> attempt_ok W' W'' \<Longrightarrow> attempt_ok W W''"
  by (auto simp: attempt_ok_def intro: adds_events_trans)

lemma keepsE: "keeps P h \<Longrightarrow> h d u W = (r, W') \<Longrightarrow> (\<exists>x. r = Returned x) \<and> P (td_name d) W W'"
  unfolding keeps_def by (drule spec [of _ d], drule spec [of _ u], drule spec [of _ W]) simp

lemma recovery_keeps:
  assumes "\<And>d u W. attempt_ok W (snd (leaf d u W))"
  shows "keeps (\<lambda>_. attempt_ok) (with_recovery leaf)"
  unfolding keeps_def with_recovery_def
proof (intro allI)
  fix d u W
  show "case (case leaf d u W of (Panicked v st, w') \<Rightarrow> (Returned (Inl (recovered (td_name d) v st)), w') | (Returned r, w') \<Rightarrow> (Returned r, w')) of
      (r, W') \<Rightarrow> (\<exists>x. r = Returned x) \<and> attempt_ok W W'"
    using assms[of W d u] by (cases "leaf d u W"; cases "fst (leaf d u W)") auto
qed

lemma validation_keeps:
  assumes "keeps (\<lambda>_. attempt_ok) h"
  shows "keeps (\<lambda>_. attempt_ok) (with_input_validation h)"
  unfolding keeps_def
proof (intro allI)
  fix d u W
  obtain r W' where h: "h d u W = (r, W')" by fastforce
  then have "(\<exists>x. r = Returned x) \<and> attempt_ok W W'" using keepsE[OF assms] by blast
  moreover have "(\<exists>e. with_input_validation h d u W = (Returned (Inl e), W)) \<or> with_input_validation h d u W = (r, W')"
    unfolding with_input_validation_def h by (cases "input_ok (tu_input u)") (simp_all only: if_True if_False simp_thms, blast+)
  ultimately show "case with_input_validation h d u W of (r, W') \<Rightarrow> (\<exists>x. r = Returned x) \<and> attempt_ok W W'"
    using attempt_refl[of W] by (elim disjE exE) simp_all
qed

lemma timeout_keeps:
  assumes "keeps P h"
  shows "keeps P (with_timeout env fb h)"
  unfolding keeps_def
proof (intro allI)
  fix d u W
  obtain r W' where h: "h d u W = (r, W')" by fastforce
  then obtain x where "r = Returned x" "P (td_name d) W W'" using keepsE[OF assms] by blast
  then show "case with_timeout env fb h d u W of (r, W') \<Rightarrow> (\<exists>x. r = Returned x) \<and> P (td_name d) W W'"
    using h by (cases x) (auto simp: with_timeout_def Let_def split: option.split)
qed

lemma retry_loop_keeps:
  assumes "keeps (\<lambda>_. attempt_ok) h" and "env_ok env"
  shows "tool_retry_loop env p again h d u k W = (r, W', tries) \<Longrightarrow> (\<exists>x. r = Returned x) \<and> attempt_ok W W'"
proof (induction "nat (tp_max_attempts p - k)" arbitrary: k W r W' tries rule: less_induct)
  case less
  obtain r1 W1 where h: "h d u W = (r1, W1)" by fastforce
  then obtain x where x: "r1 = Returned x" "attempt_ok W W1" using keepsE[OF assms(1)] by blast
  show ?case
  proof (cases x)
    case (Inr out)
    then show ?thesis using less.prems x h by (auto simp: tool_retry_loop.simps[of env p again h d u k W])
  next
    case (Inl e)
    obtain rnd W2 where 2: "ce_rand env W1 = (rnd, W2)" by fastforce
    obtain s W3 where 3: "tool_sleep env (if retry_after e > tool_backoff p k rnd then retry_after e else tool_backoff p k rnd) W2 = (s, W3)"
      by fastforce
    have a2: "attempt_ok W1 W2" using assms(2) 2 by (metis env_ok_def snd_conv)
    have a3: "attempt_ok W2 W3" using 3 assms(2) attempt_refl
      by (auto simp: tool_sleep_def split: if_splits) (metis env_ok_def snd_conv)+
    then have a: "attempt_ok W W3" using x(2) a2 attempt_trans by blast
    show ?thesis
    proof (cases "\<not> again e \<or> k + 1 \<ge> tp_max_attempts p")
      case True
      then show ?thesis using less.prems x h Inl by (auto simp: tool_retry_loop.simps[of env p again h d u k W])
    next
      case False
      show ?thesis
      proof (cases s)
        case (Some c)
        then have "tool_retry_loop env p again h d u k W = (Returned (Inl c), W3, [r1])"
          unfolding tool_retry_loop.simps[of env p again h d u k W] using h x(1) Inl False 2 3 by (simp add: Let_def)
        then show ?thesis using less.prems a by auto
      next
        case None
        obtain r4 W4 t4 where rest: "tool_retry_loop env p again h d u (k + 1) W3 = (r4, W4, t4)" by (metis prod_cases3)
        then have "r = r4" "W' = W4" using less.prems x h Inl False 2 3 None
          by (simp_all add: tool_retry_loop.simps[of env p again h d u k W] Let_def)
        moreover have "nat (tp_max_attempts p - (k + 1)) < nat (tp_max_attempts p - k)" using False by auto
        ultimately show ?thesis using less.hyps[OF _ rest] a attempt_trans by blast
      qed
    qed
  qed
qed

lemma retry_keeps:
  assumes "keeps (\<lambda>_. attempt_ok) h" and "env_ok env"
  shows "keeps (\<lambda>_. attempt_ok) (with_tool_retry env p h)"
  unfolding keeps_def
proof (intro allI)
  fix d u W
  obtain r W' where run: "with_tool_retry env p h d u W = (r, W')" by fastforce
  have "(\<exists>x. r = Returned x) \<and> attempt_ok W W'"
    using run retry_loop_keeps[OF assms] keepsE[OF assms(1)]
    by (auto simp: with_tool_retry_def split: bool.splits option.splits prod.splits)
  then show "case with_tool_retry env p h d u W of (r, W') \<Rightarrow> (\<exists>x. r = Returned x) \<and> attempt_ok W W'" using run by simp
qed

lemma breaker_keeps:
  assumes "keeps (\<lambda>_. attempt_ok) h"
  shows "keeps call_ok (breaker_layer env DefaultBreakerThreshold DefaultBreakerCooldown h)"
  unfolding keeps_def
proof (intro allI)
  fix d :: tool_def and u W
  let ?n = "td_name d"
  obtain r m W1 where run: "with_circuit_breaker env DefaultBreakerThreshold DefaultBreakerCooldown h d u (tw_breakers W, W) = (r, m, W1)"
    by (metis prod_cases3)
  obtain r2 W2 where h: "h d u W = (r2, W2)" by fastforce
  then obtain x where x: "r2 = Returned x" "attempt_ok W W2" using keepsE[OF assms] by blast
  define b where "b = breaker_of (tw_breakers W) ?n"
  let ?rec = "breaker_record DefaultBreakerThreshold DefaultBreakerCooldown"
  have pos: "\<not> (DefaultBreakerThreshold \<le> 0 \<or> DefaultBreakerCooldown \<le> 0)"
    by (simp add: DefaultBreakerThreshold_def DefaultBreakerCooldown_def)
  have "(\<exists>y. r = Returned y) \<and> (W1 = W \<or> W1 = W2) \<and> (\<exists>b'. m = (tw_breakers W)(?n \<mapsto> b') \<and> (b' = b \<or> (\<exists>now ok. b' = ?rec now ok b)))"
  proof (cases x)
    case (Inl e)
    then show ?thesis using run h x(1) pos unfolding with_circuit_breaker_def
      by (simp add: Let_def b_def[symmetric] split: if_splits) blast+
  next
    case (Inr out)
    then show ?thesis using run h x(1) pos unfolding with_circuit_breaker_def
      by (simp add: Let_def b_def[symmetric] split: if_splits) blast+
  qed
  then have "(\<exists>y. r = Returned y) \<and> (W1 = W \<or> W1 = W2) \<and>
      (breaker_of m ?n = b \<or> (\<exists>now ok. breaker_of m ?n = ?rec now ok b))"
    unfolding breaker_of_def by (elim conjE exE) (simp add: fun_upd_same)
  moreover have "attempt_ok W W1" if "W1 = W \<or> W1 = W2" using that x attempt_refl by blast
  ultimately have "(\<exists>y. r = Returned y) \<and> call_ok ?n W (W1\<lparr>tw_breakers := m\<rparr>)"
    unfolding b_def by (auto simp: call_ok_def attempt_ok_def adds_events_def counted_once_def Let_def)
  then show "case breaker_layer env DefaultBreakerThreshold DefaultBreakerCooldown h d u W of (r, W') \<Rightarrow> (\<exists>x. r = Returned x) \<and> call_ok ?n W W'"
    by (simp add: breaker_layer_def run)
qed

lemma call_ok_stats: "call_ok n W W' \<Longrightarrow> call_ok n W (W'\<lparr>tw_stats := s\<rparr>)"
  by (simp add: call_ok_def adds_events_def counted_once_def)

lemma dedup_keeps:
  assumes "keeps call_ok h"
  shows "keeps call_ok (dedup_layer env k h)"
  unfolding keeps_def
proof (intro allI)
  fix d :: tool_def and u W
  obtain r2 W2 where h: "h d u W = (r2, W2)" by fastforce
  then obtain x where x: "r2 = Returned x" "call_ok (td_name d) W W2" using keepsE[OF assms] by blast
  obtain r m W1 where run: "with_dedup env k h d u (tw_stats W, W) = (r, m, W1)" by (metis prod_cases3)
  then have "(\<exists>y. r = Returned y) \<and> W1 = W2" using h x
    by (cases x) (auto simp: with_dedup_def split: if_splits prod.splits)
  then show "case dedup_layer env k h d u W of (r, W') \<Rightarrow> (\<exists>x. r = Returned x) \<and> call_ok (td_name d) W W'"
    using x(2) call_ok_stats by (auto simp: dedup_layer_def run)
qed

lemma truncation_keeps:
  assumes "keeps P h"
  shows "keeps P (with_truncation n ex h)"
  unfolding keeps_def
proof (intro allI)
  fix d :: tool_def and u W
  obtain r W' where h: "h d u W = (r, W')" by fastforce
  then obtain x where "r = Returned x" "P (td_name d) W W'" using keepsE[OF assms] by blast
  then show "case with_truncation n ex h d u W of (r, W') \<Rightarrow> (\<exists>x. r = Returned x) \<and> P (td_name d) W W'"
    using h by (cases x) (auto simp: with_truncation_def)
qed

definition layer_ok :: "'w layer \<Rightarrow> bool" where
  "layer_ok mw \<longleftrightarrow> (\<forall>h. keeps call_ok h \<longrightarrow> keeps call_ok (mw h))"

lemma chain_keeps: "keeps call_ok h \<Longrightarrow> \<forall>mw\<in>set mws. layer_ok mw \<Longrightarrow> keeps call_ok (chain h mws)"
  by (induction mws arbitrary: h) (auto simp: chain_def layer_ok_def)

definition inner_chain ::
  "'w tool_world call_env \<Rightarrow> ('c, 's, 'w layer, 'x) built \<Rightarrow> ('w layer tool_layer \<Rightarrow> 'w layer) \<Rightarrow> 'w tool_world handler \<Rightarrow> 'w tool_world handler" where
  "inner_chain env a stacked leaf =
     chain leaf
       ([with_recovery, with_input_validation, with_timeout env (tool_fallback a),
         with_tool_retry env (default_tool_retry\<lparr>tp_max_attempts := DefaultToolRetryAttempts\<rparr>),
         breaker_layer env DefaultBreakerThreshold DefaultBreakerCooldown, dedup_layer env DefaultDedupThreshold,
         with_truncation DefaultToolOutputLimit []] @
        map stacked (cf_tool_mw (bt_cfg a)))"

lemma chain_append: "chain h (xs @ ys) = chain (chain h xs) ys"
  by (simp add: chain_def)

lemma default_chain_outer: "default_tool_chain env a stacked leaf = observer_layer env (budget_layer (inner_chain env a stacked leaf))"
  unfolding default_tool_chain_def inner_chain_def append_assoc[symmetric] chain_append[of _ _ "[budget_layer, observer_layer env]"]
  by (simp add: chain_def)

lemma inner_keeps:
  assumes "env_ok env" and "\<And>d u W. attempt_ok W (snd (leaf d u W))" and "\<forall>l\<in>set (cf_tool_mw (bt_cfg a)). layer_ok (stacked l)"
  shows "keeps call_ok (inner_chain env a stacked leaf)"
proof -
  have "keeps (\<lambda>_. attempt_ok) (with_tool_retry env (default_tool_retry\<lparr>tp_max_attempts := DefaultToolRetryAttempts\<rparr>)
      (with_timeout env (tool_fallback a) (with_input_validation (with_recovery leaf))))"
    by (intro retry_keeps timeout_keeps validation_keeps recovery_keeps assms(1,2))
  then have "keeps call_ok (chain (with_truncation DefaultToolOutputLimit [] (dedup_layer env DefaultDedupThreshold
      (breaker_layer env DefaultBreakerThreshold DefaultBreakerCooldown
        (with_tool_retry env (default_tool_retry\<lparr>tp_max_attempts := DefaultToolRetryAttempts\<rparr>)
          (with_timeout env (tool_fallback a) (with_input_validation (with_recovery leaf)))))))
      (map stacked (cf_tool_mw (bt_cfg a))))"
    using assms(3) by (intro chain_keeps truncation_keeps dedup_keeps breaker_keeps) auto
  then show ?thesis by (simp add: inner_chain_def chain_def)
qed



definition plain_env :: "unit tool_world call_env" where
  "plain_env = \<lparr>ce_now = (\<lambda>_. 0), ce_cause = (\<lambda>_. None), ce_child = (\<lambda>_ _ _ _. None), ce_rand = (\<lambda>W. (0, W)),
     ce_timer = (\<lambda>_ W. (None, W)), ce_text = (\<lambda>_. [])\<rparr>"

definition bare_agent :: "(unit, unit, unit layer, unit) built" where
  "bare_agent = \<lparr>bt_cfg = (default_settings () [])\<lparr>cf_client := Some ((), [])\<rparr>, bt_system = DefaultSystemPrompt,
     bt_set = \<lparr>set_visible = [], set_find = (\<lambda>_. None)\<rparr>\<rparr>"

definition bare_world :: "unit tool_world" where
  "bare_world = \<lparr>tw_budget = with_budget \<lparr>l_cost_usd = 0, l_steps = 0, l_wall = 0, l_tool_calls = 0, l_subagent_depth = 0,
     l_repeated_tool_calls = 0\<rparr> 0, tw_breakers = (\<lambda>_. None), tw_stats = (\<lambda>_. None), tw_events = [], tw_rest = ()\<rparr>"

definition crash_def :: tool_def where
  "crash_def = \<lparr>td_name = ''crash'', td_description = [], td_schema = [], td_caps = 0, td_needs = 0, td_idempotent = True,
     td_timeout = 0, td_category = [], td_retryable = None\<rparr>"

definition crash_use :: tool_use where
  "crash_use = \<lparr>tu_id = ''c1'', tu_name = ''crash'', tu_input = []\<rparr>"

definition crash_leaf :: "unit tool_world handler" where
  "crash_leaf d u W = (Panicked ''boom'' ''stack'', W)"


text \<open>A layer given with \<^verbatim>\<open>WithToolMiddleware\<close> stands outside the recovery: a panic in it opens a call it never closes.\<close>

definition broken_layer :: "unit layer" where
  "broken_layer nxt d u W = (Panicked ''nil map'' [], W)"

lemma panicking_layer_half_observed:
  "tw_events (snd (default_tool_chain plain_env (bare_agent\<lparr>bt_cfg := WithToolMiddleware [broken_layer] (bt_cfg bare_agent)\<rparr>)
      (\<lambda>l. case l of GivenLayer mw \<Rightarrow> mw | _ \<Rightarrow> id) crash_leaf crash_def crash_use bare_world)) =
   [start_observed crash_def crash_use]"
proof -
  let ?a = "bare_agent\<lparr>bt_cfg := WithToolMiddleware [broken_layer] (bt_cfg bare_agent)\<rparr>"
  have "inner_chain plain_env ?a (\<lambda>l. case l of GivenLayer mw \<Rightarrow> mw | _ \<Rightarrow> id) crash_leaf d u W = (Panicked ''nil map'' [], W)" for d u W
    by (simp add: inner_chain_def chain_def bare_agent_def WithToolMiddleware_def default_settings_def broken_layer_def)
  then have "budget_layer (inner_chain plain_env ?a (\<lambda>l. case l of GivenLayer mw \<Rightarrow> mw | _ \<Rightarrow> id) crash_leaf) d u W =
      (Panicked ''nil map'' [], W\<lparr>tw_budget := add_tool_call (call_key (td_name d) (tu_input u)) (tw_budget W)\<rparr>)"
    if "b_cause (tw_budget W) = None" "b_cause (add_tool_call (call_key (td_name d) (tu_input u)) (tw_budget W)) = None" for d u W
    using that by (simp add: budget_layer_def Let_def)
  moreover have "b_cause (add_tool_call (call_key (td_name crash_def) (tu_input crash_use)) (tw_budget bare_world)) = None"
    by (simp add: bare_world_def add_tool_call_def with_budget_def Let_def abort_def)
  ultimately show ?thesis
    by (simp add: default_chain_outer observer_layer_def emit_event_def bare_world_def with_budget_def Let_def)
qed

section \<open>Deriving agents\<close>

text \<open>Options that leave the prompt alone, or add only to its end.\<close>

definition extends_prompt :: "('c, 's, 'm, 'x) setter \<Rightarrow> bool" where
  "extends_prompt f \<longleftrightarrow> (\<forall>c. cf_prompt (f c) = cf_prompt c \<and> cf_blocks (f c) = cf_blocks c \<and>
     (\<exists>more. cf_env_blocks (f c) = cf_env_blocks c @ more))"

lemma add_block_extends: "prefix s (add_block s bl)"
  by (simp add: add_block_def)

lemma add_blocks_extend: "prefix s (foldl add_block s bls)"
  by (induction bls arbitrary: s) (auto intro: prefix_order.trans add_block_extends)

lemma extends_prompt_options:
  "extends_prompt (WithName s)" "extends_prompt (WithClient cl)" "extends_prompt (WithPricing p)" "extends_prompt (WithTools ds)"
  "extends_prompt (WithToolSet ts)" "extends_prompt (WithToolMiddleware mws)" "extends_prompt (WithDispatcher d)"
  "extends_prompt (WithToolParallelism n)" "extends_prompt (WithToolTimeoutFallback n)" "extends_prompt (WithEnvBlock t bd)"
  "extends_prompt (WithStrategy st)" "extends_prompt (WithMaxIters n)" "extends_prompt (WithModel m)" "extends_prompt (WithMaxTokens n)"
  "extends_prompt (WithPurpose s)" "extends_prompt (WithTerminalTool s)" "extends_prompt (WithForceTerminalLastN n)"
  "extends_prompt (WithRunContext f)" "extends_prompt (WithTurnNotice f)" "extends_prompt (WithMetrics b)"
  "extends_prompt (WithEventBuffer n)" "extends_prompt (WithTracing b)" "extends_prompt (WithLogger b)"
  by (simp_all add: extends_prompt_def WithName_def WithClient_def WithPricing_def WithTools_def WithToolSet_def
      WithToolMiddleware_def WithDispatcher_def WithToolParallelism_def WithToolTimeoutFallback_def WithEnvBlock_def
      WithStrategy_def WithMaxIters_def WithModel_def WithMaxTokens_def WithPurpose_def WithTerminalTool_def
      WithForceTerminalLastN_def WithRunContext_def WithTurnNotice_def WithMetrics_def WithEventBuffer_def WithTracing_def
      WithLogger_def)

lemma extends_prompt_fold:
  assumes "\<forall>f\<in>set opts. extends_prompt f"
  shows "extends_prompt (\<lambda>c. foldl (\<lambda>c opt. opt c) c opts)"
  using assms
proof (induction opts)
  case (Cons f opts)
  then have ef: "extends_prompt f" and eo: "extends_prompt (\<lambda>c. foldl (\<lambda>c opt. opt c) c opts)" by simp_all
  obtain more1 more2 where m: "cf_env_blocks (f c) = cf_env_blocks c @ more1 c"
      "cf_env_blocks (foldl (\<lambda>c opt. opt c) c opts) = cf_env_blocks c @ more2 c" for c
    using ef eo unfolding extends_prompt_def by metis
  have "cf_env_blocks (foldl (\<lambda>c opt. opt c) (f c) opts) = cf_env_blocks c @ more1 c @ more2 (f c)" for c
    by (simp add: m)
  then show ?case using ef eo
    unfolding extends_prompt_def foldl_Cons by metis
qed (simp add: extends_prompt_def)

lemma extended_prompt: "extends_prompt f \<Longrightarrow> prefix (render_system c) (render_system (f c))"
  unfolding extends_prompt_def render_system_def by (metis add_blocks_extend foldl_append)

lemma instrument_keeps:
  "cf_prompt (instrument c) = cf_prompt c" "cf_blocks (instrument c) = cf_blocks c" "cf_env_blocks (instrument c) = cf_env_blocks c"
  "cf_terminal (instrument c) = cf_terminal c" "cf_strategy (instrument c) = cf_strategy c" "cf_set (instrument c) = cf_set c"
  "cf_tools (instrument c) = cf_tools c" "(cf_client (instrument c) = None) = (cf_client c = None)"
  "cf_logger (instrument c) = cf_logger c"
  by (simp_all add: instrument_def Let_def)

lemma instrumented_client: "cf_client c = Some (cl, ls) \<Longrightarrow> \<exists>cl' ls'. cf_client (instrument c) = Some (cl', ls')"
  using instrument_keeps(8)[of c] by (cases "cf_client (instrument c)") auto

definition sound_agent :: "('c, 's, 'm, 'x) built \<Rightarrow> bool" where
  "sound_agent a \<longleftrightarrow> cf_client (bt_cfg a) \<noteq> None \<and> cf_strategy (bt_cfg a) \<noteq> None \<and> cf_logger (bt_cfg a) \<and>
     bt_system a = render_system (bt_cfg a) \<and>
     (cf_terminal (bt_cfg a) \<noteq> [] \<longrightarrow> (\<exists>d. set_find (bt_set a) (cf_terminal (bt_cfg a)) = Some d \<and> has_cap d CapTerminal))"

lemma built_agent_cfg:
  assumes "new_agent flat prices opts = Some (Inr a)"
  defines "c \<equiv> foldl (\<lambda>c opt. opt c) (default_settings flat prices) opts"
  shows "bt_cfg a = instrument ((if cf_strategy c = None then c\<lparr>cf_strategy := Some flat\<rparr> else c)\<lparr>cf_logger := True\<rparr>)" and "sound_agent a"
  using assms(1)[unfolded new_agent_def Let_def c_def[symmetric]]
  by (auto simp: sound_agent_def instrument_keeps intro!: instrumented_client split: if_splits option.splits)


text \<open>C30: What an agent is, it is built with: an agent that New or With hands out has a client, a strategy and a
  logger, its terminal tool is in its set and declares itself terminal, and its prompt is the one rendered of
  its settings; and an agent derived by options that do not rewrite the prompt keeps the parent's prompt as a
  byte-for-byte prefix, which is what a prompt cache needs.\<close>

theorem derived_prompt_extends:
  assumes "new_agent flat prices opts = Some (Inr a)"
    and "with_options flat prices a opts2 = Some (Inr a')"
    and "\<forall>f\<in>set opts2. extends_prompt f"
  shows "sound_agent a \<and> sound_agent a' \<and> prefix (bt_system a) (bt_system a') \<and>
    (cf_env_blocks (bt_cfg a') = cf_env_blocks (bt_cfg a) \<longrightarrow> bt_system a' = bt_system a)"
proof -
  let ?f = "\<lambda>c. foldl (\<lambda>c opt. opt c) c opts2" and ?c = "foldl (\<lambda>c opt. opt c) (bt_cfg a) opts2"
  have sa: "sound_agent a" "sound_agent a'"
    using built_agent_cfg(2)[OF assms(1)] built_agent_cfg(2)[OF assms(2)[unfolded with_options_def]] by blast+
  have ext: "extends_prompt ?f" using extends_prompt_fold[OF assms(3)] .
  have cfg: "cf_prompt (bt_cfg a') = cf_prompt ?c" "cf_blocks (bt_cfg a') = cf_blocks ?c" "cf_env_blocks (bt_cfg a') = cf_env_blocks ?c"
    using built_agent_cfg(1)[OF assms(2)[unfolded with_options_def]] by (simp_all add: instrument_keeps split: if_split)
  then have sys: "bt_system a' = render_system ?c" "bt_system a = render_system (bt_cfg a)"
    using sa by (simp_all add: sound_agent_def render_system_def)
  have "cf_env_blocks ?c = cf_env_blocks (bt_cfg a) \<Longrightarrow> render_system ?c = render_system (bt_cfg a)"
    using ext by (simp add: extends_prompt_def render_system_def)
  then show ?thesis using sa sys cfg(3) extended_prompt[OF ext, of "bt_cfg a"] by simp
qed

theorem derived_prompt_extends_witness:
  "\<exists>a a' :: (unit, unit, unit, unit) built.
     new_agent () [] [WithClient (), WithSystemPrompt ''Plan.''] = Some (Inr a) \<and>
     with_options () [] a [WithEnvBlock ''cwd'' ''/src'', WithModel ''m''] = Some (Inr a') \<and>
     prefix (bt_system a) (bt_system a')"
proof -
  obtain a :: "(unit, unit, unit, unit) built" where a: "new_agent () [] [WithClient (), WithSystemPrompt ''Plan.''] = Some (Inr a)"
    "bt_cfg a = (default_settings () [])\<lparr>cf_client := Some ((), []), cf_prompt := ''Plan.'', cf_logger := True\<rparr>"
    by (simp add: new_agent_def default_settings_def WithClient_def WithSystemPrompt_def instrument_def Let_def new_set_def)
  then obtain a' where a': "with_options () [] a [WithEnvBlock ''cwd'' ''/src'', WithModel ''m''] = Some (Inr a')"
    by (simp add: with_options_def new_agent_def default_settings_def WithEnvBlock_def WithModel_def instrument_def Let_def new_set_def)
  show ?thesis
    using a(1) a' derived_prompt_extends[OF a(1) a'] by (auto simp: extends_prompt_options)
qed

text \<open>
  \<^verbatim>\<open>With\<close> starts from the settings \<^verbatim>\<open>New\<close> has already instrumented, and \<^verbatim>\<open>New\<close> instruments again: each
  derivation stacks one more recorder on the client and on the tools.
\<close>

definition recorders :: "('c, 's, 'm, 'x) built \<Rightarrow> nat \<times> nat" where
  "recorders a = (case cf_client (bt_cfg a) of Some (_, ls) \<Rightarrow> length (filter (\<lambda>l. l = MetricsClient) ls) | None \<Rightarrow> 0,
     length (filter (\<lambda>l. case l of MetricsTool \<Rightarrow> True | _ \<Rightarrow> False) (cf_tool_mw (bt_cfg a))))"

lemma derived_agent_records_twice:
  assumes "with_options flat prices a [] = Some (Inr a')" and "cf_metrics (bt_cfg a)"
  shows "recorders a' = (fst (recorders a) + 1, snd (recorders a) + 1)"
  using built_agent_cfg[OF assms(1)[unfolded with_options_def]] assms(2)
  by (auto simp: sound_agent_def recorders_def instrument_def Let_def push_client_def split: option.splits if_splits)

end
