(* ===== verification/Spec2Isabelle.thy ===== *)
theory Spec2Isabelle
  imports Permission Tape Manager SkillFile Calc EventStream Rl AnthropicStream OpenaiStream Instruments FileEdits ExecTools AgentBuild
begin

text \<open>
  A verification library for wombat-go, a harness that runs language-model agents: a loop that sends a
  transcript to a model, dispatches the tool calls of the reply, appends their results and goes on until
  the model answers, asks, or a limit is reached.

  \<^bold>\<open>The program.\<close> \<^verbatim>\<open>run.go\<close> drives the loop over five interfaces: a client (\<^verbatim>\<open>llm/\<close>,
  wrapped by middleware), a transcript strategy (\<^verbatim>\<open>strategy.go\<close>, \<^verbatim>\<open>overflow.go\<close>), a tool set and a
  dispatcher (\<^verbatim>\<open>tool/\<close>, wrapped by middleware and by the permission gate of \<^verbatim>\<open>permission/\<close>), and a budget
  (\<^verbatim>\<open>governor/\<close>, \<^verbatim>\<open>budget.go\<close>). Around it: recording and replay (\<^verbatim>\<open>tape/\<close>), skills that gate tools
  (\<^verbatim>\<open>skill/\<close>), a bounded event log (\<^verbatim>\<open>buffered.go\<close>), an HTTP service that holds conversations
  (\<^verbatim>\<open>httpapi/\<close>), and rollouts for evaluation (\<^verbatim>\<open>rl/\<close>).

  \<^bold>\<open>Theories and code.\<close>
  Prelude: Go strings and the shared list facts.
  Errors: error trees, \<^verbatim>\<open>errors.Is\<close>, the classes of \<^verbatim>\<open>llm/errors.go\<close>, \<^verbatim>\<open>tool/fault.go\<close>.
  Transcript, TranscriptWf: messages and \<^verbatim>\<open>convo.go\<close>; \<^verbatim>\<open>validate\<close> against the declarative \<^verbatim>\<open>wf_convo\<close>;
  the resume helpers of \<^verbatim>\<open>run.go\<close>.
  Strategy, Overflow: \<^verbatim>\<open>strategy.go\<close>, \<^verbatim>\<open>overflow.go\<close>.
  Governor: \<^verbatim>\<open>governor/governor.go\<close> and the wrapper of \<^verbatim>\<open>budget.go\<close>.
  Json: the values, parser and renderer of \<^verbatim>\<open>encoding/json\<close> the code relies on.
  Llm: requests, the persisted form of a message, prices and middleware of \<^verbatim>\<open>llm/\<close>.
  Sse: \<^verbatim>\<open>llm/internal/sse/sse.go\<close> and the writer of the service's event stream.
  Wire: the headers, struct decoding and HTTP exchange both clients share.
  Anthropic, AnthropicStream: \<^verbatim>\<open>llm/anthropic/\<close>. Openai, OpenaiStream: \<^verbatim>\<open>llm/openai/\<close>.
  Tool, ToolChain: \<^verbatim>\<open>tool/tool.go\<close>, \<^verbatim>\<open>tool/dispatch.go\<close>, \<^verbatim>\<open>tool/recover.go\<close>, \<^verbatim>\<open>tool/middleware.go\<close>.
  Paths, Permission: the path functions and \<^verbatim>\<open>permission/\<close>.
  AgentLoop: \<^verbatim>\<open>run.go\<close>, \<^verbatim>\<open>outcome.go\<close> and the settings of \<^verbatim>\<open>agent.go\<close> it reads.
  Tape: \<^verbatim>\<open>tape/\<close>.
  EventLog: \<^verbatim>\<open>buffered.go\<close>.
  Approvals, Session, Manager, EventStream: \<^verbatim>\<open>httpapi/\<close>.
  Skill, SkillFile: \<^verbatim>\<open>skill/\<close>.
  Calc: \<^verbatim>\<open>tool/builtin/calc.go\<close>.
  Rl: \<^verbatim>\<open>rl/\<close>.
  Definitions carry the names of the code, in Isabelle spelling; where a name is taken by the library or
  by another package it has a prefix.

  \<^bold>\<open>How the code is rendered.\<close> A struct is a record, an enumeration a datatype, an error
  a value of \<^typ>\<open>err\<close>, a panic \<^const>\<open>None\<close>. State is passed and returned. What
  runs concurrently is a step relation, one step per critical section: parallel dispatch
  (\<^verbatim>\<open>dispatch_step\<close>), calls under a budget (\<^verbatim>\<open>pool_step\<close>), a reader of a log (\<^verbatim>\<open>follow_step\<close>), the approval
  queue (\<^verbatim>\<open>approval_step\<close>), a session (\<^verbatim>\<open>session_step\<close>), the manager (\<^verbatim>\<open>manager_step\<close>). Clients, handlers,
  strategies, file systems, URL parsing, floating-point formatting and the digest of the tape are
  arguments. Go integers are unbounded except where width matters: the backoff of \<^verbatim>\<open>llm/middleware.go\<close> is
  on 64-bit words, and so are capability bits.

  \<^bold>\<open>Interfaces.\<close> Locales state what one part relies on and another gives:
  \<^verbatim>\<open>transcript_strategy\<close> (a strategy keeps requests sendable; interpreted on every strategy of
  \<^verbatim>\<open>strategy.go\<close>), \<^verbatim>\<open>agent_parts\<close> and \<^verbatim>\<open>provider\<close> (a client that mints fresh ids, a dispatcher that answers
  every call in order; interpreted on the standard stack of wrappers), \<^verbatim>\<open>followed_log\<close> (a bounded log with
  a producer; interpreted on \<^verbatim>\<open>buffered.go\<close> and on the log of a session), \<^verbatim>\<open>tool_surface\<close> (a set whose
  listing and lookup agree; interpreted on static and on gated sets).

  \<^bold>\<open>What the lemmas show.\<close> The validator decides well-formedness; every strategy, the
  recovery ladder and the loop keep what is sent well-formed, and whatever ends a run leaves a transcript
  that can be resumed, across all turns of a session. The budget's caps hold under every interleaving.
  The gate runs only what a policy or a person allowed; the file-system rule confines paths; the command
  allowlist only removes noise. Dispatch answers every call once and ends. A recorded session replays. The
  event log refines the list of all events; readers lose no wake-up, see each retained event once, and
  resume exactly over HTTP. A parked call is answered at most once and none stays parked after closing.
  Gated tools run exactly after their skill was loaded, and what is offered is documented. Skill files,
  persisted messages and event streams round-trip. Both clients assemble a streamed reply into what their
  buffered decoder makes of it; what Anthropic may cache of a request stays a prefix of the next one; what
  an OpenAI server receives answers each call at once. Expressions evaluate to what they mean. An episode's
  accounts balance and pass@k is the share of samples it stands for.

  \<^bold>\<open>Bounds and fuel.\<close> The JSON parser takes \<open>2 * n + 2\<close> units of fuel on
  \<open>n\<close> bytes, enough because every second call consumes a byte (\<open>json_parse_render\<close>
  instantiates it). The loop recurses on the iterations that remain, the retry loops on the attempts that
  remain; everything else is structural or ends by a measure. Logs hold 8192 events (a run) or the
  configured number (a session), a line of an event stream 8 MiB.

  \<^bold>\<open>Not modelled.\<close> Transports, processes and files (the shell, git and network tools, the
  commands, the workspace directories of rollouts, static files of the service); metrics, traces, logging
  and the rendering of reports, which observe runs and influence none; the text of most messages, beyond
  what a later decision reads; rounding of floating-point numbers; malformed UTF-8 inside JSON strings;
  raw JSON nested in another document is represented by its value.
\<close>

end
